(* ===== verification/Prelude.thy ===== *)
theory Prelude
  imports Main "HOL-Library.Sublist" "HOL-Library.Char_ord" "HOL-Library.List_Lexorder"
    "HOL-Library.Word" "HOL-Library.AList"
begin

text \<open>
  Shared vocabulary of the development.  A Rust \<open>[u8]\<close>, \<open>Vec<u8>\<close>, \<open>str\<close> or \<open>String\<close> is a
  list of bytes; the HOL type \<open>char\<close> is exactly one byte, so the type is \<open>string\<close> and an ASCII
  literal of the source is a HOL string literal.  The theory holds the part of the Rust
  standard library the program uses on such values (prefixes, splitting, joining, ASCII case,
  UTF-8 validation, character boundaries), the generic lemmas about them, and the named
  collections the component proofs share.
\<close>

type_synonym bytes = "char list"
type_synonym u64 = "64 word"

named_theorems bytes_simps \<open>computation rules of the byte-string library\<close>
named_theorems inv_simps \<open>unfolding rules of the component invariants\<close>

section \<open>Byte classes\<close>

definition byte :: "char \<Rightarrow> nat" where
  "byte c = of_char c"

abbreviation NL :: char where "NL \<equiv> CHR 0x0A"
abbreviation CR :: char where "CR \<equiv> CHR 0x0D"
abbreviation QUOTE :: char where "QUOTE \<equiv> CHR 0x22"
abbreviation BSLASH :: char where "BSLASH \<equiv> CHR 0x5C"

text \<open>\<open>u8::is_ascii_whitespace\<close>: space, tab, line feed, form feed, carriage return.\<close>

definition is_ascii_whitespace :: "char \<Rightarrow> bool" where
  "is_ascii_whitespace c \<longleftrightarrow> c \<in> {CHR '' '', CHR 0x09, CHR 0x0A, CHR 0x0C, CHR 0x0D}"

definition is_ascii_upper :: "char \<Rightarrow> bool" where
  "is_ascii_upper c \<longleftrightarrow> 65 \<le> byte c \<and> byte c \<le> 90"

definition is_ascii_lower :: "char \<Rightarrow> bool" where
  "is_ascii_lower c \<longleftrightarrow> 97 \<le> byte c \<and> byte c \<le> 122"

definition is_ascii_digit :: "char \<Rightarrow> bool" where
  "is_ascii_digit c \<longleftrightarrow> 48 \<le> byte c \<and> byte c \<le> 57"

definition is_ascii_alphanumeric :: "char \<Rightarrow> bool" where
  "is_ascii_alphanumeric c \<longleftrightarrow> is_ascii_upper c \<or> is_ascii_lower c \<or> is_ascii_digit c"

definition ascii_lower :: "char \<Rightarrow> char" where
  "ascii_lower c = (if is_ascii_upper c then char_of (byte c + 32) else c)"

definition to_ascii_lowercase :: "bytes \<Rightarrow> bytes" where
  "to_ascii_lowercase s = map ascii_lower s"

definition eq_ignore_ascii_case :: "bytes \<Rightarrow> bytes \<Rightarrow> bool" where
  "eq_ignore_ascii_case a b \<longleftrightarrow> to_ascii_lowercase a = to_ascii_lowercase b"

section \<open>Searching, splitting, joining\<close>

definition starts_with :: "bytes \<Rightarrow> bytes \<Rightarrow> bool" where
  "starts_with s p \<longleftrightarrow> take (length p) s = p"

definition strip_prefix :: "bytes \<Rightarrow> bytes \<Rightarrow> bytes option" where
  "strip_prefix p s = (if starts_with s p then Some (drop (length p) s) else None)"

text \<open>\<open>str::find\<close> of a pattern: the least offset at which it occurs.\<close>

fun find_sub :: "bytes \<Rightarrow> bytes \<Rightarrow> nat option" where
  "find_sub p [] = (if p = [] then Some 0 else None)"
| "find_sub p (c # s) =
     (if starts_with (c # s) p then Some 0 else map_option Suc (find_sub p s))"

definition contains_sub :: "bytes \<Rightarrow> bytes \<Rightarrow> bool" where
  "contains_sub s p \<longleftrightarrow> find_sub p s \<noteq> None"

definition split_once :: "bytes \<Rightarrow> bytes \<Rightarrow> (bytes \<times> bytes) option" where
  "split_once p s =
     (case find_sub p s of
        None \<Rightarrow> None
      | Some i \<Rightarrow> Some (take i s, drop (i + length p) s))"

text \<open>\<open>slice::split\<close> and \<open>str::split\<close> by a predicate: every separator cuts, empty pieces stay.\<close>

fun split_on :: "('a \<Rightarrow> bool) \<Rightarrow> 'a list \<Rightarrow> 'a list list" where
  "split_on P [] = [[]]"
| "split_on P (c # cs) =
     (if P c then [] # split_on P cs
      else (case split_on P cs of [] \<Rightarrow> [[c]] | w # ws \<Rightarrow> (c # w) # ws))"

fun join_with :: "'a list \<Rightarrow> 'a list list \<Rightarrow> 'a list" where
  "join_with sep [] = []"
| "join_with sep [w] = w"
| "join_with sep (w # v # ws) = w @ sep @ join_with sep (v # ws)"

definition trim_end_matches :: "char \<Rightarrow> bytes \<Rightarrow> bytes" where
  "trim_end_matches c s = rev (dropWhile (\<lambda>x. x = c) (rev s))"

definition trim_start_matches :: "char \<Rightarrow> bytes \<Rightarrow> bytes" where
  "trim_start_matches c s = dropWhile (\<lambda>x. x = c) s"

text \<open>The sliding windows of \<open>slice::windows(n)\<close>, for positive \<open>n\<close>.\<close>

definition windows :: "nat \<Rightarrow> 'a list \<Rightarrow> 'a list list" where
  "windows n xs = map (\<lambda>i. take n (drop i xs)) [0 ..< Suc (length xs) - n]"

text \<open>
  The slice \<open>xs[a..b]\<close>.  Rust panics unless \<open>a \<le> b \<le> length xs\<close>; the models say where the source
  relies on that.
\<close>

definition slice :: "nat \<Rightarrow> nat \<Rightarrow> 'a list \<Rightarrow> 'a list" where
  "slice a b xs = take (b - a) (drop a xs)"

text \<open>\<open>Iterator::find_map\<close>, used wherever the source takes the first hit in order.\<close>

fun find_map :: "('a \<Rightarrow> 'b option) \<Rightarrow> 'a list \<Rightarrow> 'b option" where
  "find_map f [] = None"
| "find_map f (x # xs) = (case f x of Some y \<Rightarrow> Some y | None \<Rightarrow> find_map f xs)"

text \<open>\<open>Vec::dedup\<close> on a type whose equality is that of \<open>f\<close>.\<close>

fun dedup_by :: "('a \<Rightarrow> 'b) \<Rightarrow> 'a list \<Rightarrow> 'a list" where
  "dedup_by f [] = []"
| "dedup_by f [x] = [x]"
| "dedup_by f (x # y # ys) = (if f x = f y then dedup_by f (x # ys) else x # dedup_by f (y # ys))"

section \<open>UTF-8, as the standard library decodes it\<close>

definition is_cont :: "char \<Rightarrow> bool" where
  "is_cont c \<longleftrightarrow> 128 \<le> byte c \<and> byte c < 192"

text \<open>
  One decoding step on a non-empty input: whether a well-formed character starts here, and how
  many bytes it (or the maximal ill-formed prefix that \<open>from_utf8_lossy\<close> replaces) takes.
\<close>

definition second_lo :: "nat \<Rightarrow> nat" where
  "second_lo b = (if b = 224 then 160 else if b = 240 then 144 else 128)"

definition second_hi :: "nat \<Rightarrow> nat" where
  "second_hi b = (if b = 237 then 159 else if b = 244 then 143 else 191)"

fun nth_in :: "nat \<Rightarrow> nat \<Rightarrow> nat \<Rightarrow> bytes \<Rightarrow> bool" where
  "nth_in lo hi _ [] = False"
| "nth_in lo hi 0 (c # _) = (lo \<le> byte c \<and> byte c \<le> hi)"
| "nth_in lo hi (Suc n) (_ # cs) = nth_in lo hi n cs"

definition utf8_step :: "bytes \<Rightarrow> bool \<times> nat" where
  "utf8_step s =
     (let b = byte (hd s); second = nth_in (second_lo b) (second_hi b) 1 s;
          third = nth_in 128 191 2 s; fourth = nth_in 128 191 3 s
      in if b < 128 then (True, 1)
         else if 194 \<le> b \<and> b \<le> 223 then (if nth_in 128 191 1 s then (True, 2) else (False, 1))
         else if 224 \<le> b \<and> b \<le> 239 then
           (if \<not> second then (False, 1) else if \<not> third then (False, 2) else (True, 3))
         else if 240 \<le> b \<and> b \<le> 244 then
           (if \<not> second then (False, 1) else if \<not> third then (False, 2)
            else if \<not> fourth then (False, 3) else (True, 4))
         else (False, 1))"

lemma utf8_step_pos [simp]: "0 < snd (utf8_step s)"
  by (simp add: utf8_step_def Let_def)

text \<open>\<open>std::str::from_utf8(s).is_ok()\<close>.\<close>

function utf8_valid :: "bytes \<Rightarrow> bool" where
  "utf8_valid s =
     (if s = [] then True
      else fst (utf8_step s) \<and> utf8_valid (drop (snd (utf8_step s)) s))"
  by pat_completeness auto
termination
  by (relation "measure length") (auto simp: diff_less)

text \<open>\<open>str::chars\<close>: the characters, each as its own bytes.\<close>

function utf8_chars :: "bytes \<Rightarrow> bytes list" where
  "utf8_chars s =
     (if s = [] then []
      else take (snd (utf8_step s)) s # utf8_chars (drop (snd (utf8_step s)) s))"
  by pat_completeness auto
termination
  by (relation "measure length") (auto simp: diff_less)

text \<open>\<open>String::from_utf8_lossy\<close>: each maximal ill-formed prefix becomes U+FFFD.\<close>

function utf8_lossy :: "bytes \<Rightarrow> bytes" where
  "utf8_lossy s =
     (if s = [] then []
      else (if fst (utf8_step s) then take (snd (utf8_step s)) s
            else [CHR 0xEF, CHR 0xBF, CHR 0xBD])
           @ utf8_lossy (drop (snd (utf8_step s)) s))"
  by pat_completeness auto
termination
  by (relation "measure length") (auto simp: diff_less)

declare utf8_valid.simps [simp del] utf8_chars.simps [simp del] utf8_lossy.simps [simp del]

text \<open>\<open>str::is_char_boundary\<close>.\<close>

definition is_char_boundary :: "bytes \<Rightarrow> nat \<Rightarrow> bool" where
  "is_char_boundary s i \<longleftrightarrow> i = 0 \<or> i = length s \<or> (i < length s \<and> \<not> is_cont (s ! i))"

text \<open>\<open>s.chars().take(n).collect()\<close>.\<close>

definition take_chars :: "nat \<Rightarrow> bytes \<Rightarrow> bytes" where
  "take_chars n s = concat (take n (utf8_chars s))"

text \<open>The Unicode \<open>White_Space\<close> characters, on which \<open>split_whitespace\<close> and \<open>trim\<close> cut.\<close>

definition ws_chars :: "bytes list" where
  "ws_chars = [[CHR 0x09], [CHR 0x0A], [CHR 0x0B], [CHR 0x0C], [CHR 0x0D], [CHR '' ''],
     [CHR 0xC2, CHR 0x85], [CHR 0xC2, CHR 0xA0], [CHR 0xE1, CHR 0x9A, CHR 0x80]] @
     map (\<lambda>n. [CHR 0xE2, CHR 0x80, char_of n]) ([128 ..< 139] @ [168, 169, 175 :: nat]) @
     [[CHR 0xE2, CHR 0x81, CHR 0x9F], [CHR 0xE3, CHR 0x80, CHR 0x80]]"

definition trims_to_nothing :: "bytes \<Rightarrow> bool" where
  "trims_to_nothing s \<longleftrightarrow> list_all (\<lambda>ch. ch \<in> set ws_chars) (utf8_chars s)"

definition trim_end_ws :: "bytes \<Rightarrow> bytes" where
  "trim_end_ws s = concat (rev (dropWhile (\<lambda>ch. ch \<in> set ws_chars) (rev (utf8_chars s))))"

definition trim_start_ws :: "bytes \<Rightarrow> bytes" where
  "trim_start_ws s = concat (dropWhile (\<lambda>ch. ch \<in> set ws_chars) (utf8_chars s))"

definition trim_ws :: "bytes \<Rightarrow> bytes" where
  "trim_ws s = trim_end_ws (trim_start_ws s)"

text \<open>\<open>str::replace\<close> with a non-empty pattern, and with a character.\<close>

function replace_all :: "bytes \<Rightarrow> bytes \<Rightarrow> bytes \<Rightarrow> bytes" where
  "replace_all p r s =
     (if p = [] then s
      else (case find_sub p s of
              None \<Rightarrow> s
            | Some i \<Rightarrow> take i s @ r @ replace_all p r (drop (i + length p) s)))"
  by pat_completeness auto

lemma find_sub_bound: "find_sub p s = Some i \<Longrightarrow> i + length p \<le> length s"
  by (induction s arbitrary: i) (auto simp: starts_with_def split: if_splits dest: arg_cong [of _ _ length])

lemma find_sub_rest: "p \<noteq> [] \<Longrightarrow> find_sub p s = Some i \<Longrightarrow> length s - (i + length p) < length s"
  using find_sub_bound [of p s i] by (cases p) auto

termination replace_all
  by (relation "measure (\<lambda>(p, r, s). length s)") (auto simp: find_sub_rest)

declare replace_all.simps [simp del]

definition replace_char :: "char \<Rightarrow> bytes \<Rightarrow> bytes \<Rightarrow> bytes" where
  "replace_char c r s = concat (map (\<lambda>d. if d = c then r else [d]) s)"

definition ends_with :: "bytes \<Rightarrow> bytes \<Rightarrow> bool" where
  "ends_with s p \<longleftrightarrow> length p \<le> length s \<and> drop (length s - length p) s = p"

section \<open>Lemmas\<close>

lemma starts_with_append [bytes_simps]: "starts_with (p @ s) p"
  by (simp add: starts_with_def)

lemma starts_with_iff: "starts_with s p \<longleftrightarrow> (\<exists>t. s = p @ t)"
proof
  assume "starts_with s p"
  then have "s = p @ drop (length p) s"
    by (metis append_take_drop_id starts_with_def)
  then show "\<exists>t. s = p @ t" ..
qed (auto simp: starts_with_def)

lemma strip_prefix_Some: "strip_prefix p s = Some t \<longleftrightarrow> s = p @ t"
  by (auto simp: strip_prefix_def starts_with_iff)

lemma find_sub_Some:
  "find_sub p s = Some i \<Longrightarrow> \<exists>t. s = take i s @ p @ t \<and> i + length p \<le> length s"
proof (induction s arbitrary: i)
  case Nil
  then show ?case by (auto split: if_splits)
next
  case (Cons c s)
  show ?case
  proof (cases "starts_with (c # s) p")
    case True
    with Cons.prems have "i = 0" by simp
    moreover from True obtain t where "c # s = p @ t" by (auto simp: starts_with_iff)
    moreover have "length p \<le> length (c # s)" using \<open>c # s = p @ t\<close> by simp
    ultimately show ?thesis by auto
  next
    case False
    with Cons.prems obtain j where j: "find_sub p s = Some j" "i = Suc j" by auto
    from Cons.IH [OF j(1)] show ?thesis by (auto simp: j(2))
  qed
qed

lemma find_sub_None: "find_sub p s = None \<Longrightarrow> \<not> (\<exists>u t. s = u @ p @ t)"
proof (induction s)
  case Nil
  then show ?case by (auto split: if_splits)
next
  case (Cons c s)
  then have n: "\<not> starts_with (c # s) p" and t: "find_sub p s = None"
    by (auto split: if_splits)
  from Cons.IH [OF t] n show ?case
    by (auto simp: starts_with_iff Cons_eq_append_conv)
qed

lemma contains_sub_iff: "contains_sub s p \<longleftrightarrow> (\<exists>u t. s = u @ p @ t)"
  using find_sub_Some [of p s] find_sub_None [of p s]
  by (cases "find_sub p s") (auto simp: contains_sub_def)

lemma split_on_nonempty [simp]: "split_on P s \<noteq> []"
  by (induction s) (auto split: list.splits)

lemma split_on_none [simp]: "(\<And>c. c \<in> set s \<Longrightarrow> \<not> P c) \<Longrightarrow> split_on P s = [s]"
  by (induction s) auto

lemma split_on_app:
  "(\<And>c. c \<in> set w \<Longrightarrow> \<not> P c) \<Longrightarrow> P d \<Longrightarrow> split_on P (w @ d # s) = w # split_on P s"
  by (induction w) auto

lemma split_on_append: "P d \<Longrightarrow> split_on P (xs @ d # ys) = split_on P xs @ split_on P ys"
proof (induction xs)
  case (Cons a xs)
  then show ?case by (cases "split_on P xs") auto
qed simp

lemma split_on_join:
  "ws \<noteq> [] \<Longrightarrow> (\<And>w c. w \<in> set ws \<Longrightarrow> c \<in> set w \<Longrightarrow> \<not> P c) \<Longrightarrow> P d
   \<Longrightarrow> split_on P (join_with [d] ws) = ws"
proof (induction "[d]" ws rule: join_with.induct)
  case (3 w v ws)
  have ih: "split_on P (join_with [d] (v # ws)) = v # ws"
    using 3 by auto
  have "split_on P (w @ d # join_with [d] (v # ws)) = w # split_on P (join_with [d] (v # ws))"
    using 3 by (intro split_on_app) auto
  with ih show ?case by simp
qed auto

lemma split_on_pieces:
  "w \<in> set (split_on P s) \<Longrightarrow> c \<in> set w \<Longrightarrow> \<not> P c \<and> c \<in> set s"
proof (induction s arbitrary: w)
  case (Cons a s)
  show ?case
  proof (cases "P a")
    case True
    with Cons show ?thesis by auto
  next
    case False
    obtain x xs where x: "split_on P s = x # xs" by (cases "split_on P s") auto
    with False Cons.prems(1) have "w = a # x \<or> w \<in> set xs" by simp
    with Cons.IH [of x] Cons.IH [of w] Cons.prems(2) False x show ?thesis by auto
  qed
qed simp

lemma join_with_inject:
  assumes "ws \<noteq> []" "vs \<noteq> []" and "\<And>w. w \<in> set ws \<union> set vs \<Longrightarrow> d \<notin> set w"
    and "join_with [d] ws = join_with [d] vs"
  shows "ws = vs"
proof -
  have *: "split_on (\<lambda>c. c = d) (join_with [d] us) = us"
    if "us \<noteq> []" "set us \<subseteq> set ws \<union> set vs" for us
    by (rule split_on_join) (use that assms(3) in blast)+
  have "ws = split_on (\<lambda>c. c = d) (join_with [d] ws)"
    using * [OF assms(1)] by simp
  also have "\<dots> = vs"
    unfolding assms(4) using * [OF assms(2)] by simp
  finally show ?thesis .
qed

lemma trim_end_prefix: "\<exists>n. s = trim_end_matches c s @ replicate n c"
proof -
  let ?w = "takeWhile (\<lambda>x. x = c) (rev s)"
  have "rev s = ?w @ dropWhile (\<lambda>x. x = c) (rev s)" by simp
  then have "rev (rev s) = rev (dropWhile (\<lambda>x. x = c) (rev s)) @ rev ?w"
    by (metis rev_append)
  then have s: "s = trim_end_matches c s @ rev ?w"
    by (simp add: trim_end_matches_def)
  have "\<forall>x \<in> set ?w. x = c" by (auto dest: set_takeWhileD)
  then have "?w = replicate (length ?w) c"
    by (metis replicate_length_same)
  then have "rev ?w = replicate (length ?w) c"
    by (metis rev_replicate)
  with s show ?thesis by metis
qed

lemma trim_end_last: "trim_end_matches c s \<noteq> [] \<Longrightarrow> last (trim_end_matches c s) \<noteq> c"
  by (metis (mono_tags, lifting) hd_dropWhile last_rev rev_is_Nil_conv trim_end_matches_def)

lemma windows_nth:
  "i + n \<le> length xs \<Longrightarrow> 0 < n \<Longrightarrow> take n (drop i xs) \<in> set (windows n xs)"
  by (auto simp: windows_def)

lemma slice_mid [simp]: "slice (length xs) (length xs + length ys) (xs @ ys @ zs) = ys"
  by (simp add: slice_def)

lemma find_map_Some:
  "find_map f xs = Some y \<longleftrightarrow>
     (\<exists>us x vs. xs = us @ x # vs \<and> f x = Some y \<and> (\<forall>u \<in> set us. f u = None))"
proof (induction xs)
  case Nil
  then show ?case by simp
next
  case (Cons x xs)
  show ?case
  proof (cases "f x")
    case None
    then have "find_map f (x # xs) = find_map f xs" by simp
    with Cons.IH None show ?thesis
      by (auto simp: Cons_eq_append_conv) (metis append_Cons set_ConsD)+
  next
    case (Some z)
    then have "find_map f (x # xs) = Some z" by simp
    moreover have "x # xs = [] @ x # xs" by simp
    ultimately show ?thesis using Some
      by (metis (no_types, lifting) append_Nil append_eq_Cons_conv empty_iff list.inject
          list.set(1) list.set_intros(1) option.distinct(1) option.inject)
  qed
qed

lemma find_map_None: "find_map f xs = None \<longleftrightarrow> (\<forall>x \<in> set xs. f x = None)"
  by (induction xs) (auto split: option.splits)

lemma utf8_step_ascii: "s \<noteq> [] \<Longrightarrow> byte (hd s) < 128 \<Longrightarrow> utf8_step s = (True, 1)"
  by (simp add: utf8_step_def Let_def)

lemma nth_in_length: "nth_in lo hi n s \<Longrightarrow> n < length s"
  by (induction lo hi n s rule: nth_in.induct) auto

lemma utf8_step_len: "s \<noteq> [] \<Longrightarrow> fst (utf8_step s) \<Longrightarrow> snd (utf8_step s) \<le> length s"
  by (auto simp: utf8_step_def Let_def Suc_le_eq split: if_splits dest!: nth_in_length)

lemma utf8_valid_Nil [simp]: "utf8_valid []"
  by (simp add: utf8_valid.simps)

lemma utf8_valid_ascii: "(\<And>c. c \<in> set s \<Longrightarrow> byte c < 128) \<Longrightarrow> utf8_valid s"
proof (induction s)
  case (Cons c s)
  then show ?case
    by (subst utf8_valid.simps) (simp add: utf8_step_ascii)
qed simp

lemma utf8_chars_concat: "concat (utf8_chars s) = s"
proof (induction s rule: utf8_chars.induct)
  case (1 s)
  then show ?case by (subst utf8_chars.simps) auto
qed

lemma utf8_lossy_valid: "utf8_valid s \<Longrightarrow> utf8_lossy s = s"
proof (induction s rule: utf8_lossy.induct)
  case (1 s)
  show ?case
  proof (cases "s = []")
    case True
    then show ?thesis by (simp add: utf8_lossy.simps)
  next
    case False
    with 1(2) have "fst (utf8_step s)" "utf8_valid (drop (snd (utf8_step s)) s)"
      by (auto simp: utf8_valid.simps [of s])
    with 1(1) False show ?thesis by (subst utf8_lossy.simps) simp
  qed
qed

lemma take_chars_prefix: "prefix (take_chars n s) s"
proof -
  have "s = take_chars n s @ concat (drop n (utf8_chars s))"
    by (metis append_take_drop_id concat_append take_chars_def utf8_chars_concat)
  then show ?thesis by (metis prefixI)
qed

lemma dedup_by_set: "set (dedup_by f xs) \<subseteq> set xs"
  by (induction f xs rule: dedup_by.induct) auto

lemma dedup_by_Nil [simp]: "dedup_by f xs = [] \<longleftrightarrow> xs = []"
  by (induction f xs rule: dedup_by.induct) auto

lemma dedup_by_map: "set (map f (dedup_by f xs)) = set (map f xs)"
  by (induction f xs rule: dedup_by.induct) auto

lemma dedup_by_sorted:
  "sorted (map f xs) \<Longrightarrow> sorted_wrt (<) (map f (dedup_by f xs))"
proof (induction f xs rule: dedup_by.induct)
  case (3 f x y ys)
  show ?case
  proof (cases "f x = f y")
    case False
    with 3 have ih: "sorted_wrt (<) (map f (dedup_by f (y # ys)))" by simp
    have "\<forall>z \<in> set (map f (dedup_by f (y # ys))). f x < z"
      using "3.prems" False unfolding dedup_by_map by (auto simp: less_le)
    with ih False show ?thesis by simp
  qed (use 3 in auto)
qed simp_all

lemma sort_key_Nil [simp]: "sort_key f xs = [] \<longleftrightarrow> xs = []"
  by (metis length_0_conv length_sort)

lemma last_separator:
  "c \<notin> set ys \<Longrightarrow> c \<notin> set ys' \<Longrightarrow> xs @ [c] @ ys = xs' @ [c] @ ys' \<Longrightarrow> xs = xs' \<and> ys = ys'"
proof -
  assume a: "c \<notin> set ys" "c \<notin> set ys'" and e: "xs @ [c] @ ys = xs' @ [c] @ ys'"
  have "takeWhile (\<lambda>x. x \<noteq> c) (rev ys @ c # rev xs) = takeWhile (\<lambda>x. x \<noteq> c) (rev ys' @ c # rev xs')"
    using arg_cong [OF e, of rev] by simp
  moreover have "takeWhile (\<lambda>x. x \<noteq> c) (rev ys @ c # rev xs) = rev ys"
    using a by (subst takeWhile_append2) auto
  moreover have "takeWhile (\<lambda>x. x \<noteq> c) (rev ys' @ c # rev xs') = rev ys'"
    using a by (subst takeWhile_append2) auto
  ultimately show ?thesis using e by simp
qed
lemma utf8_step_max: "snd (utf8_step s) \<le> 4"
  by (auto simp: utf8_step_def Let_def)

lemma utf8_chars_short: "ch \<in> set (utf8_chars s) \<Longrightarrow> length ch \<le> 4"
proof (induction s rule: utf8_chars.induct)
  case (1 s)
  show ?case
  proof (cases "s = []")
    case True
    then show ?thesis using 1 by (simp add: utf8_chars.simps)
  next
    case False
    then have "ch = take (snd (utf8_step s)) s \<or> ch \<in> set (utf8_chars (drop (snd (utf8_step s)) s))"
      using 1(2) by (subst (asm) utf8_chars.simps) simp
    then show ?thesis
    proof
      assume "ch = take (snd (utf8_step s)) s"
      then show ?thesis using utf8_step_max [of s] by simp
    next
      assume "ch \<in> set (utf8_chars (drop (snd (utf8_step s)) s))"
      then show ?thesis by (rule 1(1) [OF False])
    qed
  qed
qed

lemma length_take_chars: "length (take_chars n s) \<le> 4 * n"
proof -
  have "length (concat chs) \<le> 4 * length chs" if "\<forall>ch \<in> set chs. length ch \<le> 4" for chs :: "bytes list"
    using that by (induction chs) auto
  moreover have "\<forall>ch \<in> set (take n (utf8_chars s)). length ch \<le> 4"
  proof
    fix ch assume "ch \<in> set (take n (utf8_chars s))"
    then show "length ch \<le> 4" by (rule utf8_chars_short [OF in_set_takeD])
  qed
  ultimately have "length (take_chars n s) \<le> 4 * length (take n (utf8_chars s))"
    unfolding take_chars_def by blast
  then show ?thesis by simp
qed

text \<open>What a call that may panic comes to.\<close>

datatype 'a outcome = Panicked | Returned 'a

fun obind :: "'a outcome \<Rightarrow> ('a \<Rightarrow> 'b outcome) \<Rightarrow> 'b outcome" where
  "obind Panicked f = Panicked"
| "obind (Returned x) f = f x"

lemma obind_Returned [simp]: "obind x Returned = x"
  by (cases x) auto

lemma map_filter_Cons: "List.map_filter f (x # xs) = (case f x of Some y \<Rightarrow> [y] | None \<Rightarrow> []) @ List.map_filter f xs"
  by (simp add: List.map_filter_def split: option.splits)

lemma map_filter_Nil [simp]: "List.map_filter f [] = []"
  by (simp add: List.map_filter_def)

lemma map_filter_append: "List.map_filter f (xs @ ys) = List.map_filter f xs @ List.map_filter f ys"
  by (simp add: List.map_filter_def)

end
