(* ===== verification/Json.thy ===== *)
theory Json
  imports Prelude
begin

text \<open>
  The JSON values the program manipulates.  \<open>serde_json\<close> is a third-party crate: its \<open>Value\<close> enum
  appears here as a datatype (an object is the sorted key/value sequence of its \<open>BTreeMap\<close>, a
  number is kept as the text its \<open>Display\<close> prints), while its parser and printer are arguments of
  the definitions that use them: \<open>parse\<close> stands for \<open>from_slice\<close> and \<open>from_str\<close>, \<open>render\<close> for
  \<open>to_string\<close> and \<open>to_vec\<close>.
\<close>

datatype json =
  JNull | JBool bool | JNumber bytes | JString bytes | JArray "json list"
| JObject "(bytes \<times> json) list"

type_synonym parser = "bytes \<Rightarrow> json option"
type_synonym printer = "json \<Rightarrow> bytes"

text \<open>The member of an object is smaller than the object: the recursions over values end.\<close>

lemma size_object: "(k, v) \<in> set m \<Longrightarrow> size v < Suc (size_list (size_prod (\<lambda>x. 0) size) m)"
  by (induction m) auto

fun jget :: "bytes \<Rightarrow> json \<Rightarrow> json option" where
  "jget k (JObject m) = map_of m k"
| "jget k _ = None"

fun as_str :: "json \<Rightarrow> bytes option" where
  "as_str (JString s) = Some s"
| "as_str _ = None"

fun as_bool :: "json \<Rightarrow> bool option" where
  "as_bool (JBool b) = Some b"
| "as_bool _ = None"

fun as_array :: "json \<Rightarrow> json list option" where
  "as_array (JArray a) = Some a"
| "as_array _ = None"

fun as_object :: "json \<Rightarrow> (bytes \<times> json) list option" where
  "as_object (JObject m) = Some m"
| "as_object _ = None"

text \<open>\<open>BTreeMap::insert\<close>: the sequence stays sorted by key, an existing value is replaced.\<close>

fun map_insert :: "'k::linorder \<Rightarrow> 'v \<Rightarrow> ('k \<times> 'v) list \<Rightarrow> ('k \<times> 'v) list" where
  "map_insert k v [] = [(k, v)]"
| "map_insert k v ((k', v') # m) =
     (if k < k' then (k, v) # (k', v') # m
      else if k = k' then (k, v) # m else (k', v') # map_insert k v m)"

text \<open>The \<open>json!\<close> macro on an object literal.\<close>

definition jobject :: "(bytes \<times> json) list \<Rightarrow> json" where
  "jobject kvs = JObject (fold (\<lambda>(k, v). map_insert k v) kvs [])"

text \<open>\<open>v.get(a).and_then(|x| x.get(b))\<close> and its kin: a path of keys.\<close>

fun jpath :: "bytes list \<Rightarrow> json \<Rightarrow> json option" where
  "jpath [] v = Some v"
| "jpath (k # ks) v = Option.bind (jget k v) (jpath ks)"

lemma map_of_map_insert [simp]: "map_of (map_insert k v m) = (map_of m)(k \<mapsto> v)"
  by (induction k v m rule: map_insert.induct) auto

lemma set_map_insert_keys: "fst ` set (map_insert k v m) = insert k (fst ` set m)"
  by (induction k v m rule: map_insert.induct) auto

lemma sorted_map_insert:
  "sorted_wrt (<) (map fst m) \<Longrightarrow> sorted_wrt (<) (map fst (map_insert k v m))"
proof (induction k v m rule: map_insert.induct)
  case (2 k v k' v' m)
  have "set (map fst (map_insert k v m)) = insert k (set (map fst m))"
    using set_map_insert_keys [of k v m] by simp
  with 2 show ?case by (auto simp del: set_map)
qed simp

lemma jget_jobject:
  "jget k (jobject kvs) = map_of (rev kvs) k"
proof -
  have "map_of (fold (\<lambda>(k, v). map_insert k v) kvs m) = map_of m ++ map_of (rev kvs)" for m
    by (induction kvs arbitrary: m) (auto simp: map_add_def fun_eq_iff split: option.splits)
  then show ?thesis by (simp add: jobject_def)
qed

section \<open>Numbers\<close>

text \<open>An unsigned number as its decimal text, the way integers are printed and read back.\<close>

definition digits_value :: "bytes \<Rightarrow> nat" where
  "digits_value ds = fold (\<lambda>c n. 10 * n + (byte c - 48)) ds 0"

definition as_u64 :: "json \<Rightarrow> nat option" where
  "as_u64 v = (case v of
     JNumber ds \<Rightarrow> if ds \<noteq> [] \<and> list_all is_ascii_digit ds \<and> digits_value ds < 2 ^ 64
                   then Some (digits_value ds) else None
   | _ \<Rightarrow> None)"

definition as_i64 :: "json \<Rightarrow> int option" where
  "as_i64 v = (case v of
     JNumber ds \<Rightarrow>
       (case strip_prefix ''-'' ds of
          Some ms \<Rightarrow> if ms \<noteq> [] \<and> list_all is_ascii_digit ms \<and> digits_value ms \<le> 2 ^ 63
                     then Some (- int (digits_value ms)) else None
        | None \<Rightarrow> if ds \<noteq> [] \<and> list_all is_ascii_digit ds \<and> digits_value ds < 2 ^ 63
                  then Some (int (digits_value ds)) else None)
   | _ \<Rightarrow> None)"

fun nat_text :: "nat \<Rightarrow> bytes" where
  "nat_text n = (if n < 10 then [char_of (48 + n)] else nat_text (n div 10) @ [char_of (48 + n mod 10)])"

declare nat_text.simps [simp del]

definition ju64 :: "nat \<Rightarrow> json" where
  "ju64 n = JNumber (nat_text n)"

definition ji64 :: "int \<Rightarrow> json" where
  "ji64 i = JNumber (if i < 0 then ''-'' @ nat_text (nat (- i)) else nat_text (nat i))"

lemma byte_digit: "n < 10 \<Longrightarrow> byte (char_of (48 + n)) = 48 + n"
  by (simp add: byte_def)

lemma nat_text_digits: "list_all is_ascii_digit (nat_text n) \<and> nat_text n \<noteq> []"
proof (induction n rule: nat_text.induct)
  case (1 n)
  have d: "is_ascii_digit (char_of (48 + k))" if "k < 10" for k :: nat
    using that byte_digit [OF that] by (simp add: is_ascii_digit_def)
  show ?case using 1 d by (subst (1 2) nat_text.simps) auto
qed

lemma digits_value_text: "digits_value (nat_text n) = n"
proof (induction n rule: nat_text.induct)
  case (1 n)
  show ?case
  proof (cases "n < 10")
    case True
    then show ?thesis by (subst nat_text.simps) (simp add: digits_value_def byte_digit)
  next
    case False
    have "digits_value (nat_text n) = 10 * digits_value (nat_text (n div 10)) + (byte (char_of (48 + n mod 10)) - 48)"
      using False by (subst nat_text.simps) (simp add: digits_value_def)
    then show ?thesis using 1 [OF False] byte_digit [of "n mod 10"] by simp
  qed
qed

lemma as_u64_ju64 [simp]: "n < 2 ^ 64 \<Longrightarrow> as_u64 (ju64 n) = Some n"
  using nat_text_digits [of n] by (simp add: as_u64_def ju64_def digits_value_text)

lemma as_i64_ji64 [simp]: "- (2 ^ 63) \<le> i \<Longrightarrow> i < 2 ^ 63 \<Longrightarrow> as_i64 (ji64 i) = Some i"
proof -
  assume i: "- (2 ^ 63) \<le> i" "i < 2 ^ 63"
  have "strip_prefix ''-'' (nat_text n) = None" for n
  proof (rule ccontr)
    assume "strip_prefix ''-'' (nat_text n) \<noteq> None"
    then obtain t where "nat_text n = CHR ''-'' # t" by (auto simp: strip_prefix_Some)
    then show False using nat_text_digits [of n] by (simp add: is_ascii_digit_def byte_def)
  qed
  moreover have "strip_prefix ''-'' (''-'' @ nat_text n) = Some (nat_text n)" for n
    by (simp only: strip_prefix_Some)
  ultimately show ?thesis
    using i nat_text_digits digits_value_text
    by (cases "i < 0") (auto simp: as_i64_def ji64_def nat_le_iff nat_less_iff)
qed

end
