(* ===== verification/Mcp.thy ===== *)
theory Mcp
  imports Json
begin

text \<open>
  \<open>protocol/mcp.rs\<close>: which method a frame carries, what the shim may do with it, the answer given
  in place of a refused call, and what is kept of the \<open>initialize\<close> exchange.  The method scan is
  the source's index machine, byte by byte; \<open>depth\<close> is an \<open>i32\<close> in the source and an integer here
  (it moves by one per byte, and a frame is at most 32 MB).
\<close>

section \<open>Method scan\<close>

definition METHOD_SCAN_WINDOW :: nat where
  "METHOD_SCAN_WINDOW = 200"

datatype method_scan = Found (found_method: bytes) (full_scan: bool) | NoMethod | Unparsable

datatype scan = SFound bytes | SAbsent | STruncated | SBad

function read_string_loop :: "bytes \<Rightarrow> nat \<Rightarrow> nat \<Rightarrow> nat \<Rightarrow> bool \<Rightarrow> (bytes \<times> nat \<times> bool) option" where
  "read_string_loop frame start e i escaped =
     (if i < e then
        if frame ! i = QUOTE then Some (slice (start + 1) i frame, i + 1, escaped)
        else if frame ! i = BSLASH then read_string_loop frame start e (i + 2) True
        else read_string_loop frame start e (i + 1) escaped
      else None)"
  by pat_completeness auto
termination
  by (relation "measure (\<lambda>(frame, start, e, i, escaped). e - i)") auto

definition read_string :: "bytes \<Rightarrow> nat \<Rightarrow> nat \<Rightarrow> (bytes \<times> nat \<times> bool) option" where
  "read_string frame start e = read_string_loop frame start e (start + 1) False"

function skip_ws :: "bytes \<Rightarrow> nat \<Rightarrow> nat \<Rightarrow> nat" where
  "skip_ws frame e i = (if i < e \<and> is_ascii_whitespace (frame ! i) then skip_ws frame e (i + 1) else i)"
  by pat_completeness auto
termination
  by (relation "measure (\<lambda>(frame, e, i). e - i)") auto

declare read_string_loop.simps [simp del] skip_ws.simps [simp del]

lemma read_string_loop_gt: "read_string_loop frame start e i esc = Some (c, nx, esc') \<Longrightarrow> i < nx \<and> nx \<le> e"
proof (induction frame start e i esc rule: read_string_loop.induct)
  case (1 frame start e i escaped)
  then show ?case
    by (subst (asm) (3) read_string_loop.simps) (fastforce split: if_splits)
qed

lemma read_string_gt: "read_string frame i e = Some (c, nx, esc) \<Longrightarrow> i < nx \<and> nx \<le> e"
  unfolding read_string_def by (drule read_string_loop_gt) simp

lemma skip_ws_ge: "i \<le> skip_ws frame e i"
proof (induction frame e i rule: skip_ws.induct)
  case (1 frame e i)
  then show ?case by (subst skip_ws.simps) auto
qed

text \<open>The two answers when the portion examined runs out.\<close>

definition ran_out :: "bool \<Rightarrow> scan" where
  "ran_out truncated = (if truncated then STruncated else SAbsent)"

definition cut_short :: "bool \<Rightarrow> scan" where
  "cut_short truncated = (if truncated then STruncated else SBad)"

text \<open>The value of a root-level \<open>method\<close> key, read from just past the colon.\<close>

definition read_method :: "bytes \<Rightarrow> nat \<Rightarrow> bool \<Rightarrow> nat \<Rightarrow> scan" where
  "read_method frame e truncated k =
     (let j = skip_ws frame e k in
      if e \<le> j then cut_short truncated
      else if frame ! j \<noteq> QUOTE then SBad
      else (case read_string frame j e of
              None \<Rightarrow> cut_short truncated
            | Some (value, _, value_escaped) \<Rightarrow>
                if value_escaped then SBad
                else if utf8_valid value then SFound value else SBad))"

function scan_loop :: "bytes \<Rightarrow> nat \<Rightarrow> bool \<Rightarrow> nat \<Rightarrow> int \<Rightarrow> scan" where
  "scan_loop frame e truncated i depth =
     (if i < e then
        if frame ! i = CHR ''{'' \<or> frame ! i = CHR ''['' then
          scan_loop frame e truncated (i + 1) (depth + 1)
        else if frame ! i = CHR ''}'' \<or> frame ! i = CHR '']'' then
          (if depth - 1 = 0 then SAbsent else scan_loop frame e truncated (i + 1) (depth - 1))
        else if frame ! i = QUOTE then
          (case read_string frame i e of
             None \<Rightarrow> cut_short truncated
           | Some (cont, nxt, key_escaped) \<Rightarrow>
               (let j = skip_ws frame e nxt; is_key = (j < e \<and> frame ! j = CHR '':'') in
                if depth = 1 \<and> is_key \<and> \<not> key_escaped \<and> cont = ''method''
                then read_method frame e truncated (j + 1)
                else scan_loop frame e truncated (if is_key then j else nxt) depth))
        else scan_loop frame e truncated (i + 1) depth
      else ran_out truncated)"
  by pat_completeness auto
termination
  by (relation "measure (\<lambda>(frame, e, truncated, i, depth). e - i)")
    (auto dest!: read_string_gt intro!: diff_less_mono2 less_le_trans [OF _ skip_ws_ge])

declare scan_loop.simps [simp del]

definition scan_within :: "bytes \<Rightarrow> nat \<Rightarrow> scan" where
  "scan_within frame limit =
     (let e = min limit (length frame); truncated = (e < length frame); i = skip_ws frame e 0 in
      if e \<le> i then ran_out truncated
      else if frame ! i \<noteq> CHR ''{'' then SAbsent
      else scan_loop frame e truncated (i + 1) 1)"

definition scan_method :: "bytes \<Rightarrow> method_scan" where
  "scan_method frame =
     (if length frame \<le> METHOD_SCAN_WINDOW then
        (case scan_within frame (length frame) of
           SFound m \<Rightarrow> Found m False
         | SAbsent \<Rightarrow> NoMethod
         | STruncated \<Rightarrow> Unparsable
         | SBad \<Rightarrow> Unparsable)
      else
        (case scan_within frame METHOD_SCAN_WINDOW of
           SFound m \<Rightarrow> Found m False
         | SBad \<Rightarrow> Unparsable
         | _ \<Rightarrow> (case scan_within frame (length frame) of
             SFound m \<Rightarrow> Found m True
           | SAbsent \<Rightarrow> NoMethod
           | STruncated \<Rightarrow> Unparsable
           | SBad \<Rightarrow> Unparsable)))"

section \<open>Classification\<close>

datatype disposition = Passthrough | Observe | Decide

definition DECIDE :: "bytes list" where
  "DECIDE = [''tools/call'', ''resources/read'', ''sampling/createMessage'', ''elicitation/create'']"

definition OBSERVE :: "bytes list" where
  "OBSERVE = [''initialize'', ''notifications/initialized'', ''tools/list'', ''resources/list'',
     ''resources/templates/list'', ''prompts/list'', ''prompts/get'', ''roots/list'',
     ''notifications/roots/list_changed'']"

definition disposition_of :: "bytes \<Rightarrow> disposition" where
  "disposition_of m =
     (if m \<in> set DECIDE then Decide else if m \<in> set OBSERVE then Observe else Passthrough)"

fun classify :: "method_scan \<Rightarrow> disposition" where
  "classify (Found m _) = disposition_of m"
| "classify NoMethod = Passthrough"
| "classify Unparsable = Observe"

fun disposition_str :: "disposition \<Rightarrow> bytes" where
  "disposition_str Passthrough = ''passthrough''"
| "disposition_str Observe = ''observe''"
| "disposition_str Decide = ''decide''"

section \<open>Decision point\<close>

datatype verdict = Allow | Deny (deny_rule: bytes) (deny_message: bytes)

record call_context =
  ctx_method :: bytes
  ctx_frame :: bytes

record decision_error =
  reason :: bytes
  err_fail_closed :: bool

definition decision_error_open :: "bytes \<Rightarrow> decision_error" where
  "decision_error_open r = \<lparr>reason = r, err_fail_closed = False\<rparr>"

definition allow_all_decide :: "'s \<Rightarrow> call_context \<Rightarrow> (decision_error + verdict) \<times> 's" where
  "allow_all_decide s ctx = (Inr Allow, s)"

definition deny_text :: "bytes \<Rightarrow> bytes \<Rightarrow> bytes" where
  "deny_text rule message = ''blocked by mcpwall: '' @ message @ '' (rule: '' @ rule @ '')''"

definition deny_body :: "json \<Rightarrow> bytes \<Rightarrow> bytes \<Rightarrow> json" where
  "deny_body i rule message = jobject [(''jsonrpc'', JString ''2.0''), (''id'', i),
     (''result'', jobject [(''isError'', JBool True),
        (''content'', JArray [jobject [(''type'', JString ''text''),
           (''text'', JString (deny_text rule message))]])])]"

text \<open>\<open>deny_response\<close>; \<open>render\<close> is \<open>serde_json::to_vec\<close>, which fails on no value of this shape.\<close>

definition deny_response :: "parser \<Rightarrow> printer \<Rightarrow> bytes \<Rightarrow> bytes \<Rightarrow> bytes \<Rightarrow> bytes option" where
  "deny_response parse render frame rule message =
     Option.bind (parse frame) (\<lambda>v.
     Option.bind (jget ''id'' v) (\<lambda>i.
       if i = JNull then None
       else Some (render (deny_body i rule message) @ [NL])))"

section \<open>Capturing initialize\<close>

record client_hello =
  requested_protocol_version :: "bytes option"
  ch_client_name :: "bytes option"
  ch_client_version :: "bytes option"
  supports_roots :: bool
  roots_list_changed :: bool

record server_hello =
  sh_protocol_version :: "bytes option"
  sh_server_name :: "bytes option"
  sh_server_version :: "bytes option"
  sh_capabilities :: "bytes list"

definition str_at :: "json \<Rightarrow> bytes \<Rightarrow> bytes option" where
  "str_at v key = Option.bind (jget key v) as_str"

definition parse_client_hello :: "parser \<Rightarrow> bytes \<Rightarrow> client_hello option" where
  "parse_client_hello parse frame =
     Option.bind (parse frame) (\<lambda>v.
     Option.bind (jget ''params'' v) (\<lambda>params.
       let roots = Option.bind (jget ''capabilities'' params) (jget ''roots'') in
       Some \<lparr>requested_protocol_version = str_at params ''protocolVersion'',
         ch_client_name = Option.bind (jget ''clientInfo'' params) (\<lambda>i. str_at i ''name''),
         ch_client_version = Option.bind (jget ''clientInfo'' params) (\<lambda>i. str_at i ''version''),
         supports_roots = (roots \<noteq> None),
         roots_list_changed = (case Option.bind (Option.bind roots (jget ''listChanged'')) as_bool of
             Some b \<Rightarrow> b | None \<Rightarrow> False)\<rparr>))"

definition parse_server_hello :: "parser \<Rightarrow> bytes \<Rightarrow> server_hello option" where
  "parse_server_hello parse frame =
     Option.bind (parse frame) (\<lambda>v.
     Option.bind (jget ''result'' v) (\<lambda>result.
       Some \<lparr>sh_protocol_version = str_at result ''protocolVersion'',
         sh_server_name = Option.bind (jget ''serverInfo'' result) (\<lambda>i. str_at i ''name''),
         sh_server_version = Option.bind (jget ''serverInfo'' result) (\<lambda>i. str_at i ''version''),
         sh_capabilities = sort (case Option.bind (jget ''capabilities'' result) as_object of
             Some m \<Rightarrow> map fst m | None \<Rightarrow> [])\<rparr>))"

end
