(* ===== verification/Scan_Correct.thy ===== *)
theory Scan_Correct
  imports Mcp
begin

text \<open>
  Correctness of the method scan of \<open>protocol/mcp.rs\<close>: the 200-byte window never changes the
  answer, and on a frame with a well-formed beginning the scan finds exactly the first unescaped
  \<open>method\<close> key of the root object, whatever is nested or quoted before it.
\<close>

section \<open>Reading on: what a larger limit changes\<close>

lemma read_string_loop_mono:
  "read_string_loop frame start e i esc = Some x \<Longrightarrow> e \<le> e' \<Longrightarrow>
   read_string_loop frame start e' i esc = Some x"
proof (induction frame start e i esc rule: read_string_loop.induct)
  case (1 frame start e i esc)
  then show ?case
    by (subst read_string_loop.simps, subst (asm) (3) read_string_loop.simps) (auto split: if_splits)
qed

lemma read_string_mono:
  "read_string frame i e = Some x \<Longrightarrow> e \<le> e' \<Longrightarrow> read_string frame i e' = Some x"
  unfolding read_string_def by (rule read_string_loop_mono)

lemma skip_ws_stop:
  "skip_ws frame e i < e \<Longrightarrow> e \<le> e' \<Longrightarrow> skip_ws frame e' i = skip_ws frame e i"
proof (induction frame e i rule: skip_ws.induct)
  case (1 frame e i)
  show ?case
  proof (cases "i < e \<and> is_ascii_whitespace (frame ! i)")
    case True
    with 1 show ?thesis by (simp add: skip_ws.simps [of _ _ i])
  next
    case False
    with "1.prems" show ?thesis by (auto simp: skip_ws.simps [of _ _ i])
  qed
qed

lemma skip_ws_spec:
  "i \<le> e \<Longrightarrow> skip_ws frame e i \<le> e \<and> (\<forall>k. i \<le> k \<longrightarrow> k < skip_ws frame e i \<longrightarrow> is_ascii_whitespace (frame ! k)) \<and>
   (skip_ws frame e i < e \<longrightarrow> \<not> is_ascii_whitespace (frame ! skip_ws frame e i))"
proof (induction frame e i rule: skip_ws.induct)
  case (1 frame e i)
  show ?case
  proof (cases "i < e \<and> is_ascii_whitespace (frame ! i)")
    case True
    with 1 have ih: "skip_ws frame e (i + 1) \<le> e \<and>
        (\<forall>k. i + 1 \<le> k \<longrightarrow> k < skip_ws frame e (i + 1) \<longrightarrow> is_ascii_whitespace (frame ! k)) \<and>
        (skip_ws frame e (i + 1) < e \<longrightarrow> \<not> is_ascii_whitespace (frame ! skip_ws frame e (i + 1)))"
      by simp
    from True have "skip_ws frame e i = skip_ws frame e (i + 1)" by (subst skip_ws.simps) simp
    with ih True show ?thesis by (metis Suc_eq_plus1 le_SucE not_less_eq_eq le_antisym)
  next
    case False
    with "1.prems" show ?thesis by (subst (1 2 3 4) skip_ws.simps) auto
  qed
qed

lemma ws_plain:
  "is_ascii_whitespace c \<Longrightarrow> c \<notin> {CHR ''{'', CHR ''['', CHR ''}'', CHR '']'', QUOTE, CHR '':''}"
  by (auto simp: is_ascii_whitespace_def)

text \<open>Bytes that are neither brackets nor quotes are walked over.\<close>

lemma scan_plain:
  "i < e \<Longrightarrow> frame ! i \<notin> {CHR ''{'', CHR ''['', CHR ''}'', CHR '']'', QUOTE} \<Longrightarrow>
   scan_loop frame e tr i d = scan_loop frame e tr (i + 1) d"
  by (subst scan_loop.simps) auto

lemma scan_over_ws:
  "i \<le> j \<Longrightarrow> j \<le> e \<Longrightarrow> (\<forall>k. i \<le> k \<longrightarrow> k < j \<longrightarrow> is_ascii_whitespace (frame ! k)) \<Longrightarrow>
   scan_loop frame e tr i d = scan_loop frame e tr j d"
proof (induction "j - i" arbitrary: i)
  case (Suc n)
  then have i: "i < j" by simp
  then have "is_ascii_whitespace (frame ! i)" using Suc.prems by blast
  with i Suc.prems(2) have "scan_loop frame e tr i d = scan_loop frame e tr (i + 1) d"
    using ws_plain by (intro scan_plain) auto
  also have "\<dots> = scan_loop frame e tr j d"
    using Suc.hyps Suc.prems i by (intro Suc.hyps(1)) auto
  finally show ?case .
qed simp

text \<open>A string that is not the key being looked for is stepped over as a whole.\<close>

lemma scan_string:
  assumes "i < e" and "frame ! i = QUOTE" and "read_string frame i e = Some (c, nx, esc)"
    and "\<not> (d = 1 \<and> skip_ws frame e nx < e \<and> frame ! skip_ws frame e nx = CHR '':'' \<and>
            \<not> esc \<and> c = ''method'')"
  shows "scan_loop frame e tr i d = scan_loop frame e tr nx d"
proof -
  let ?j = "skip_ws frame e nx"
  have nx: "nx \<le> e" using read_string_gt [OF assms(3)] by simp
  from skip_ws_spec [OF nx] have j: "?j \<le> e" "\<forall>k. nx \<le> k \<longrightarrow> k < ?j \<longrightarrow> is_ascii_whitespace (frame ! k)"
    by blast+
  have jump: "scan_loop frame e tr nx d = scan_loop frame e tr ?j d"
    using scan_over_ws [OF skip_ws_ge j] .
  have "scan_loop frame e tr i d = scan_loop frame e tr
      (if ?j < e \<and> frame ! ?j = CHR '':'' then ?j else nx) d"
    using assms by (subst scan_loop.simps) (auto simp: Let_def)
  with jump show ?thesis by simp
qed

lemma scan_end: "e \<le> i \<Longrightarrow> scan_loop frame e tr i d = ran_out tr"
  by (subst scan_loop.simps) simp

lemma read_method_mono:
  assumes "read_method frame e True k \<noteq> STruncated" and "e \<le> e'"
  shows "read_method frame e' False k = read_method frame e True k"
proof -
  let ?j = "skip_ws frame e k"
  from assms(1) have j: "?j < e" by (auto simp: read_method_def cut_short_def Let_def split: if_splits)
  from skip_ws_stop [OF j assms(2)] have j': "skip_ws frame e' k = ?j" .
  show ?thesis
  proof (cases "frame ! ?j = QUOTE")
    case False
    with j j' assms(2) show ?thesis by (simp add: read_method_def Let_def)
  next
    case True
    with assms(1) j obtain x where x: "read_string frame ?j e = Some x"
      by (cases "read_string frame ?j e") (auto simp: read_method_def cut_short_def Let_def)
    with read_string_mono [OF x assms(2)] True j j' assms(2) show ?thesis
      by (simp add: read_method_def Let_def)
  qed
qed

lemma scan_loop_mono:
  "scan_loop frame e True i d \<noteq> STruncated \<Longrightarrow> e \<le> e' \<Longrightarrow>
   scan_loop frame e' False i d = scan_loop frame e True i d"
proof (induction frame e True i d rule: scan_loop.induct)
  case (1 frame e i d)
  let ?c = "frame ! i"
  have i: "i < e"
  proof (rule ccontr)
    assume "\<not> i < e"
    with "1.prems"(1) show False by (simp add: scan_end ran_out_def)
  qed
  with "1.prems"(2) have i': "i < e'" by simp
  consider (op) "?c = CHR ''{'' \<or> ?c = CHR ''[''" | (cl) "?c = CHR ''}'' \<or> ?c = CHR '']''"
    | (str) "?c = QUOTE" | (plain) "?c \<notin> {CHR ''{'', CHR ''['', CHR ''}'', CHR '']'', QUOTE}" by auto
  then show ?case
  proof cases
    case op
    with "1.hyps"(1) "1.prems" i i' show ?thesis by (simp add: scan_loop.simps [of _ _ _ i])
  next
    case cl
    with "1.hyps"(2) "1.prems" i i' show ?thesis
      by (auto simp: scan_loop.simps [of _ _ _ i] split: if_splits)
  next
    case plain
    with "1.hyps"(4) "1.prems" i i' show ?thesis by (simp add: scan_plain [of i])
  next
    case str
    obtain c nx esc where rs: "read_string frame i e = Some (c, nx, esc)"
      using "1.prems"(1) i str
      by (cases "read_string frame i e") (auto simp: scan_loop.simps [of _ _ _ i] cut_short_def)
    note rs' = read_string_mono [OF rs "1.prems"(2)]
    have nx: "nx \<le> e" using read_string_gt [OF rs] by simp
    let ?j = "skip_ws frame e nx"
    have step: "scan_loop frame e True i d =
        (if d = 1 \<and> (?j < e \<and> frame ! ?j = CHR '':'') \<and> \<not> esc \<and> c = ''method''
         then read_method frame e True (?j + 1)
         else scan_loop frame e True (if ?j < e \<and> frame ! ?j = CHR '':'' then ?j else nx) d)"
      using i str rs by (subst scan_loop.simps) (simp add: Let_def)
    show ?thesis
    proof (cases "?j < e")
      case True
      note j' = skip_ws_stop [OF True "1.prems"(2)]
      have step': "scan_loop frame e' False i d =
          (if d = 1 \<and> (?j < e' \<and> frame ! ?j = CHR '':'') \<and> \<not> esc \<and> c = ''method''
           then read_method frame e' False (?j + 1)
           else scan_loop frame e' False (if ?j < e' \<and> frame ! ?j = CHR '':'' then ?j else nx) d)"
        using i' str rs' j' by (subst scan_loop.simps) (simp add: Let_def)
      show ?thesis
      proof (cases "d = 1 \<and> frame ! ?j = CHR '':'' \<and> \<not> esc \<and> c = ''method''")
        case key: True
        with True step step' "1.prems" read_method_mono [of frame e "?j + 1" e'] show ?thesis by simp
      next
        case False
        with "1.hyps"(3) [OF i _ _ _ rs refl refl refl refl] str True step step' "1.prems" show ?thesis
          by (auto split: if_splits)
      qed
    next
      case False
      then have "?j = e" using skip_ws_spec [OF nx, of frame] by simp
      then have "scan_loop frame e True i d = scan_loop frame e True e d"
        using step scan_over_ws [of nx "?j" e frame True d] skip_ws_ge [of nx frame e]
          skip_ws_spec [OF nx, of frame] by simp
      with "1.prems"(1) show ?thesis by (simp add: scan_end ran_out_def)
    qed
  qed
qed

section \<open>The window is only an optimisation\<close>

definition whole_scan :: "bytes \<Rightarrow> scan" where
  "whole_scan frame = scan_within frame (length frame)"

lemma scan_within_window:
  assumes "limit < length frame" and "scan_within frame limit \<noteq> STruncated"
  shows "scan_within frame limit = whole_scan frame"
proof -
  let ?e = "limit" and ?n = "length frame"
  let ?i = "skip_ws frame ?e 0"
  have i: "?i < ?e"
  proof (rule ccontr)
    assume "\<not> ?i < ?e"
    with assms show False by (simp add: scan_within_def ran_out_def Let_def)
  qed
  have i': "skip_ws frame ?n 0 = ?i"
    using skip_ws_stop [OF i, of ?n] assms(1) by simp
  show ?thesis
  proof (cases "frame ! ?i = CHR ''{''")
    case True
    with assms i have "scan_loop frame ?e True (?i + 1) 1 \<noteq> STruncated"
      by (simp add: scan_within_def Let_def)
    from scan_loop_mono [OF this, of ?n] assms i i' True show ?thesis
      by (simp add: whole_scan_def scan_within_def Let_def)
  next
    case False
    with assms i i' show ?thesis by (simp add: whole_scan_def scan_within_def Let_def)
  qed
qed

text \<open>
  The scan window is only an optimisation.  Whether a frame carries a method, which one,
  and whether it is unreadable, is what one pass over the whole frame says; the window decides
  nothing but the \<open>full_scan\<close> counter.\<close>

theorem window_is_transparent:
  "(case scan_method frame of Found m _ \<Rightarrow> SFound m | NoMethod \<Rightarrow> SAbsent | Unparsable \<Rightarrow> SBad) =
   (case whole_scan frame of STruncated \<Rightarrow> SBad | r \<Rightarrow> r)"
proof (cases "length frame \<le> METHOD_SCAN_WINDOW")
  case True
  then show ?thesis
    by (cases "whole_scan frame") (simp_all add: scan_method_def flip: whole_scan_def)
next
  case False
  then have w: "METHOD_SCAN_WINDOW < length frame" by simp
  show ?thesis
  proof (cases "scan_within frame METHOD_SCAN_WINDOW = STruncated")
    case True
    with False show ?thesis
      by (cases "whole_scan frame") (simp_all add: scan_method_def flip: whole_scan_def)
  next
    case tr: False
    from scan_within_window [OF w tr] False show ?thesis
      by (cases "whole_scan frame") (simp_all add: scan_method_def flip: whole_scan_def)
  qed
qed


section \<open>The scan finds the root method\<close>

text \<open>
  The texts the scan walks over, as a grammar wide enough for every JSON object: string bodies with
  escapes; nested text, where brackets pair up (of either kind) and strings are opaque; outer text,
  a stretch of the root object in which \<open>method\<close>, written without escapes, is no key.
\<close>

fun str_body :: "bytes \<Rightarrow> bool" where
  "str_body [] = True"
| "str_body [c] = (c \<noteq> QUOTE \<and> c \<noteq> BSLASH)"
| "str_body (c # x # cs) =
     (if c = BSLASH then str_body cs else c \<noteq> QUOTE \<and> str_body (x # cs))"

definition plain_byte :: "char \<Rightarrow> bool" where
  "plain_byte c \<longleftrightarrow> c \<notin> {CHR ''{'', CHR ''['', CHR ''}'', CHR '']'', QUOTE}"

inductive nested :: "bytes \<Rightarrow> bool" where
  nested_nil: "nested []"
| nested_plain: "plain_byte c \<Longrightarrow> nested t \<Longrightarrow> nested (c # t)"
| nested_string: "str_body b \<Longrightarrow> nested t \<Longrightarrow> nested (QUOTE # b @ QUOTE # t)"
| nested_bracket: "c \<in> {CHR ''{'', CHR ''[''} \<Longrightarrow> c' \<in> {CHR ''}'', CHR '']''} \<Longrightarrow>
     nested t \<Longrightarrow> nested t' \<Longrightarrow> nested (c # t @ c' # t')"

inductive outer :: "bytes \<Rightarrow> bool" where
  outer_nil: "outer []"
| outer_plain: "plain_byte c \<Longrightarrow> outer t \<Longrightarrow> outer (c # t)"
| outer_string: "str_body b \<Longrightarrow> b \<noteq> ''method'' \<Longrightarrow> outer t \<Longrightarrow> outer (QUOTE # b @ QUOTE # t)"
| outer_value: "\<forall>c \<in> set w. is_ascii_whitespace c \<Longrightarrow> plain_byte c \<Longrightarrow> \<not> is_ascii_whitespace c \<Longrightarrow>
     c \<noteq> CHR '':'' \<Longrightarrow> outer t \<Longrightarrow> outer (QUOTE # ''method'' @ QUOTE # w @ c # t)"
| outer_bracket: "c \<in> {CHR ''{'', CHR ''[''} \<Longrightarrow> c' \<in> {CHR ''}'', CHR '']''} \<Longrightarrow>
     nested t \<Longrightarrow> outer t' \<Longrightarrow> outer (c # t @ c' # t')"

lemma read_string_loop_body:
  "str_body b \<Longrightarrow> length u + length b < e \<Longrightarrow>
   read_string_loop (u @ b @ QUOTE # post) start e (length u) esc =
     Some (slice (start + 1) (length u + length b) (u @ b @ QUOTE # post),
           length u + length b + 1, esc \<or> BSLASH \<in> set b)"
proof (induction b arbitrary: u esc rule: str_body.induct)
  case 1
  then show ?case by (subst read_string_loop.simps) simp
next
  case (2 c)
  then show ?case
    by (subst read_string_loop.simps, subst read_string_loop.simps) (auto simp: nth_append)
next
  case (3 c x cs)
  show ?case
  proof (cases "c = BSLASH")
    case True
    with 3 have "str_body cs" "length (u @ [c, x]) + length cs < e" by auto
    from "3.IH"(1) [OF True this] True "3.prems" show ?thesis
      by (subst read_string_loop.simps) simp
  next
    case False
    with 3 have "str_body (x # cs)" "length (u @ [c]) + length (x # cs) < e" "c \<noteq> QUOTE" by auto
    from "3.IH"(2) [OF False this(1,2)] this(3) False "3.prems" show ?thesis
      by (subst read_string_loop.simps) auto
  qed
qed

lemma read_string_body:
  assumes "str_body b" and "length pre + length b + 1 < e"
  shows "read_string (pre @ QUOTE # b @ QUOTE # post) (length pre) e =
    Some (b, length pre + length b + 2, BSLASH \<in> set b)"
proof -
  from assms(2) have "length (pre @ [QUOTE]) + length b < e" by simp
  from read_string_loop_body [OF assms(1) this, of post "length pre" False] show ?thesis
    by (simp add: read_string_def slice_def)
qed

lemma skip_ws_text:
  assumes "\<forall>c \<in> set w. is_ascii_whitespace c" and "\<not> is_ascii_whitespace c"
    and "length pre + length w < e"
  shows "skip_ws (pre @ w @ c # post) e (length pre) = length pre + length w"
  using assms(1,3)
proof (induction w arbitrary: pre)
  case Nil
  with assms(2) show ?case by (subst skip_ws.simps) simp
next
  case (Cons x w)
  from Cons.IH [of "pre @ [x]"] Cons.prems show ?case by (subst skip_ws.simps) simp
qed

lemma scan_nested:
  "nested t \<Longrightarrow> 2 \<le> d \<Longrightarrow> length pre + length t \<le> e \<Longrightarrow>
   scan_loop (pre @ t @ post) e tr (length pre) d = scan_loop (pre @ t @ post) e tr (length pre + length t) d"
proof (induction t arbitrary: pre post d rule: nested.induct)
  case (nested_plain c t)
  from nested_plain.IH [of d "pre @ [c]" post] nested_plain.prems nested_plain.hyps(1) show ?case
    by (subst scan_plain) (simp_all add: plain_byte_def)
next
  case (nested_string b t)
  have "scan_loop (pre @ QUOTE # b @ QUOTE # t @ post) e tr (length pre) d =
      scan_loop (pre @ QUOTE # b @ QUOTE # t @ post) e tr (length pre + length b + 2) d"
    using nested_string.prems nested_string.hyps(1)
    by (intro scan_string [OF _ _ read_string_body]) auto
  with nested_string.IH [of d "pre @ QUOTE # b @ [QUOTE]" post] nested_string.prems show ?case
    by (simp add: ac_simps)
next
  case (nested_bracket c c' t t')
  let ?f = "pre @ (c # t @ c' # t') @ post"
  have "scan_loop ?f e tr (length pre) d = scan_loop ?f e tr (length (pre @ [c])) (d + 1)"
    using nested_bracket.hyps nested_bracket.prems by (subst scan_loop.simps) auto
  also have "\<dots> = scan_loop ?f e tr (length (pre @ [c]) + length t) (d + 1)"
    using nested_bracket.IH(1) [of "d + 1" "pre @ [c]" "c' # t' @ post"] nested_bracket.prems by simp
  also have "\<dots> = scan_loop ?f e tr (length (pre @ c # t @ [c'])) d"
    using nested_bracket.hyps nested_bracket.prems
    by (subst scan_loop.simps) (auto simp: nth_append)
  also have "\<dots> = scan_loop ?f e tr (length pre + length (c # t @ c' # t')) d"
    using nested_bracket.IH(2) [of d "pre @ c # t @ [c']" post] nested_bracket.prems by (simp add: add.assoc)
  finally show ?case .
qed simp

lemma scan_outer:
  "outer t \<Longrightarrow> length pre + length t \<le> e \<Longrightarrow>
   scan_loop (pre @ t @ post) e tr (length pre) 1 = scan_loop (pre @ t @ post) e tr (length pre + length t) 1"
proof (induction t arbitrary: pre post rule: outer.induct)
  case (outer_plain c t)
  from outer_plain.IH [of "pre @ [c]" post] outer_plain.prems outer_plain.hyps(1) show ?case
    by (subst scan_plain) (simp_all add: plain_byte_def)
next
  case (outer_string b t)
  have "scan_loop (pre @ QUOTE # b @ QUOTE # t @ post) e tr (length pre) 1 =
      scan_loop (pre @ QUOTE # b @ QUOTE # t @ post) e tr (length pre + length b + 2) 1"
    using outer_string.prems outer_string.hyps(1,2)
    by (intro scan_string [OF _ _ read_string_body]) auto
  with outer_string.IH [of "pre @ QUOTE # b @ [QUOTE]" post] outer_string.prems show ?case
    by (simp add: ac_simps)
next
  case (outer_value w c t)
  let ?p = "pre @ QUOTE # ''method'' @ [QUOTE]"
  let ?f = "pre @ QUOTE # ''method'' @ QUOTE # w @ c # t @ post"
  have f: "?f = ?p @ w @ c # t @ post" by simp
  have sk: "skip_ws ?f e (length ?p) = length ?p + length w"
    unfolding f using outer_value.hyps(1,3) outer_value.prems by (intro skip_ws_text) auto
  have "scan_loop ?f e tr (length pre) 1 = scan_loop ?f e tr (length ?p) 1"
    using outer_value.prems outer_value.hyps(4) sk read_string_body [of "''method''" pre e "w @ c # t @ post"]
    by (intro scan_string) (auto simp: nth_append)
  also have "\<dots> = scan_loop ?f e tr (length ?p + length w) 1"
    using outer_value.prems skip_ws_spec [of "length ?p" e ?f] sk
    by (intro scan_over_ws) auto
  also have "\<dots> = scan_loop ?f e tr (length (?p @ w @ [c])) 1"
    using outer_value.prems outer_value.hyps(2) f by (subst scan_plain) (auto simp: plain_byte_def nth_append)
  also have "\<dots> = scan_loop ?f e tr (length (?p @ w @ [c]) + length t) 1"
    using outer_value.IH [of "?p @ w @ [c]" post] outer_value.prems by simp
  finally show ?case by (simp add: ac_simps)
next
  case (outer_bracket c c' t t')
  let ?f = "pre @ (c # t @ c' # t') @ post"
  have "scan_loop ?f e tr (length pre) 1 = scan_loop ?f e tr (length (pre @ [c])) 2"
    using outer_bracket.hyps outer_bracket.prems by (subst scan_loop.simps) auto
  also have "\<dots> = scan_loop ?f e tr (length (pre @ [c]) + length t) 2"
    using scan_nested [OF outer_bracket.hyps(3), of 2 "pre @ [c]" e "c' # t' @ post"] outer_bracket.prems
    by simp
  also have "\<dots> = scan_loop ?f e tr (length (pre @ c # t @ [c'])) 1"
    using outer_bracket.hyps outer_bracket.prems
    by (subst scan_loop.simps) (auto simp: nth_append)
  also have "\<dots> = scan_loop ?f e tr (length pre + length (c # t @ c' # t')) 1"
    using outer_bracket.IH [of "pre @ c # t @ [c']" post] outer_bracket.prems by (simp add: add.assoc)
  finally show ?case .
qed simp


lemma scan_root_object:
  assumes "\<forall>c \<in> set w0. is_ascii_whitespace c" and "frame = w0 @ CHR ''{'' # t"
  shows "whole_scan frame = scan_loop frame (length frame) False (length w0 + 1) 1"
proof -
  have "\<not> is_ascii_whitespace (CHR ''{'')" by (simp add: is_ascii_whitespace_def)
  then have "skip_ws frame (length frame) 0 = length w0"
    using skip_ws_text [OF assms(1), of "CHR ''{''" "[]" "length frame" t] assms(2) by simp
  then show ?thesis using assms(2) by (simp add: whole_scan_def scan_within_def Let_def)
qed

lemma read_method_text:
  assumes "\<forall>c \<in> set w. is_ascii_whitespace c" and "str_body m" and "BSLASH \<notin> set m" and "utf8_valid m"
    and "frame = pre @ w @ QUOTE # m @ QUOTE # rest"
  shows "read_method frame (length frame) False (length pre) = SFound m"
proof -
  have "\<not> is_ascii_whitespace QUOTE" by (simp add: is_ascii_whitespace_def)
  then have "skip_ws frame (length frame) (length pre) = length (pre @ w)"
    using skip_ws_text [OF assms(1), of QUOTE pre "length frame" "m @ QUOTE # rest"] assms(5) by simp
  moreover have "read_string frame (length (pre @ w)) (length frame) =
      Some (m, length (pre @ w) + length m + 2, False)"
    using read_string_body [OF assms(2), of "pre @ w" "length frame" rest] assms(3,5) by simp
  ultimately show ?thesis using assms(4,5)
    by (simp add: read_method_def Let_def nth_append)
qed

text \<open>
  C14: the scan is right about the root object.  On a frame whose first unescaped root key
  \<open>method\<close> has an escape-free textual value, the scan returns that value: braces and fake keys
  inside nested values or strings, \<open>method\<close> as a value, and anything after it make no difference.\<close>

theorem scan_finds_root_method:
  assumes "\<forall>c \<in> set w0 \<union> set w1 \<union> set w2. is_ascii_whitespace c" and "outer t"
    and "str_body m" and "BSLASH \<notin> set m" and "utf8_valid m"
    and "frame = w0 @ CHR ''{'' # t @ QUOTE # ''method'' @ QUOTE # w1 @ CHR '':'' # w2 @ QUOTE # m @ QUOTE # rest"
  shows "\<exists>full. scan_method frame = Found m full"
proof -
  let ?e = "length frame" and ?p = "w0 @ CHR ''{'' # t"
  let ?tail = "w1 @ CHR '':'' # w2 @ QUOTE # m @ QUOTE # rest"
  let ?k = "?p @ QUOTE # ''method'' @ [QUOTE]"
  have "whole_scan frame = scan_loop frame ?e False (length w0 + 1) 1"
    using scan_root_object [of w0 frame] assms(1,6) by auto
  also have "\<dots> = scan_loop frame ?e False (length ?p) 1"
    using scan_outer [OF assms(2), of "w0 @ [CHR ''{'']" ?e "QUOTE # ''method'' @ QUOTE # ?tail" False]
    by (simp add: assms(6))
  also have "\<dots> = read_method frame ?e False (length (?k @ w1 @ [CHR '':'']))"
  proof -
    have f: "frame = ?p @ QUOTE # ''method'' @ QUOTE # ?tail" by (simp add: assms(6))
    have "\<not> is_ascii_whitespace (CHR '':'')" by (simp add: is_ascii_whitespace_def)
    then have sk: "skip_ws frame ?e (length ?k) = length ?k + length w1"
      using skip_ws_text [of w1 "CHR '':''" ?k ?e "w2 @ QUOTE # m @ QUOTE # rest"] assms(1)
      by (simp add: assms(6))
    have rs: "read_string frame (length ?p) ?e = Some (''method'', length ?k, False)"
      using read_string_body [of "''method''" ?p ?e ?tail] by (simp add: f)
    have at: "frame ! (length ?k + length w1) = CHR '':''" "frame ! length ?p = QUOTE"
      by (simp_all add: assms(6) nth_append)
    show ?thesis
      using rs sk at by (subst scan_loop.simps) (simp add: Let_def assms(6) add.assoc)
  qed
  also have "\<dots> = SFound m"
    using assms(1,3-5) by (intro read_method_text [of w2 m _ _ rest]) (auto simp: assms(6))
  finally have "whole_scan frame = SFound m" .
  with window_is_transparent [of frame] show ?thesis
    by (cases "scan_method frame") auto
qed

theorem scan_finds_root_method_witness:
  "\<exists>full. scan_method (''{'' @ (QUOTE # ''p'' @ QUOTE # '':{'' @ QUOTE # ''method'' @ QUOTE # '':1},'')
      @ QUOTE # ''method'' @ QUOTE # '' '' @ CHR '':'' # '' '' @ QUOTE # ''tools/call'' @ QUOTE # ''}'')
    = Found ''tools/call'' full"
proof (rule scan_finds_root_method [where ?w0.0 = "[]" and ?w1.0 = "'' ''" and ?w2.0 = "'' ''" and rest = "''}''"])
  show "outer (QUOTE # ''p'' @ QUOTE # '':{'' @ QUOTE # ''method'' @ QUOTE # '':1},'')"
  proof -
    have n: "nested (QUOTE # ''method'' @ QUOTE # '':1'')"
      by (intro nested_string nested_plain nested_nil) (simp_all add: plain_byte_def)
    have o1: "outer '',''" by (intro outer_plain outer_nil) (simp add: plain_byte_def)
    have o2: "outer (CHR ''{'' # (QUOTE # ''method'' @ QUOTE # '':1'') @ CHR ''}'' # '','')"
      by (rule outer_bracket [OF _ _ n o1]) simp_all
    have o3: "outer (CHR '':'' # CHR ''{'' # (QUOTE # ''method'' @ QUOTE # '':1'') @ CHR ''}'' # '','')"
      by (rule outer_plain [OF _ o2]) (simp add: plain_byte_def)
    have "outer (QUOTE # ''p'' @ QUOTE # CHR '':'' # CHR ''{'' # (QUOTE # ''method'' @ QUOTE # '':1'') @ CHR ''}'' # '','')"
      by (rule outer_string [OF _ _ o3]) simp_all
    then show ?thesis by simp
  qed
  show "utf8_valid ''tools/call''" by (rule utf8_valid_ascii) (auto simp: byte_def)
qed (auto simp: is_ascii_whitespace_def)

text \<open>
  A root object in which \<open>method\<close> is never an unescaped key carries no method for the
  firewall: it is \<open>NoMethod\<close> and passes straight through.  In particular a key spelled with a JSON
  escape (\<open>"m\u0065thod"\<close>), which a JSON parser reads as \<open>method\<close>, takes the call past the decision
  point.\<close>

theorem no_unescaped_key_passes:
  assumes "\<forall>c \<in> set w0. is_ascii_whitespace c" and "outer t"
    and "frame = w0 @ CHR ''{'' # t @ CHR ''}'' # rest"
  shows "scan_method frame = NoMethod \<and> classify (scan_method frame) = Passthrough"
proof -
  let ?e = "length frame" and ?p = "w0 @ CHR ''{'' # t"
  have "whole_scan frame = scan_loop frame ?e False (length w0 + 1) 1"
    using scan_root_object [of w0 frame] assms(1,3) by auto
  also have "\<dots> = scan_loop frame ?e False (length ?p) 1"
    using scan_outer [OF assms(2), of "w0 @ [CHR ''{'']" ?e "CHR ''}'' # rest" False]
    by (simp add: assms(3))
  also have "\<dots> = SAbsent"
    by (subst scan_loop.simps) (simp add: assms(3) nth_append)
  finally have "whole_scan frame = SAbsent" .
  with window_is_transparent [of frame] have "scan_method frame = NoMethod"
    by (cases "scan_method frame") auto
  then show ?thesis by simp
qed

theorem no_unescaped_key_passes_witness:
  "scan_method (''{'' @ (QUOTE # ''m'' @ BSLASH # ''u0065thod'' @ QUOTE # CHR '':'' # QUOTE # ''tools/call'' @ QUOTE # []) @ ''}'')
     = NoMethod \<and>
   classify (scan_method (''{'' @ (QUOTE # ''m'' @ BSLASH # ''u0065thod'' @ QUOTE # CHR '':'' # QUOTE # ''tools/call'' @ QUOTE # []) @ ''}''))
     = Passthrough"
proof (rule no_unescaped_key_passes [where ?w0.0 = "[]" and rest = "[]"])
  have "outer (QUOTE # (''m'' @ BSLASH # ''u0065thod'') @ QUOTE # CHR '':'' # QUOTE # ''tools/call'' @ QUOTE # [])"
    by (intro outer_string outer_plain outer_nil) (simp_all add: plain_byte_def)
  then show "outer (QUOTE # ''m'' @ BSLASH # ''u0065thod'' @ QUOTE # CHR '':'' # QUOTE # ''tools/call'' @ QUOTE # [])"
    by simp
qed simp_all

end
