(* ===== verification/Frame.thy ===== *)
theory Frame
  imports Prelude
begin

text \<open>
  \<open>protocol/frame.rs\<close>: splitting a byte stream into newline-delimited frames.  The splitter
  keeps a growing buffer, an index of the frame in progress, an index up to which the buffer was
  already searched, and a discard flag.  \<open>memchr\<close> is a third-party crate: the model takes it as
  the argument \<open>mc\<close>, and \<open>memchr_ok\<close> states its documented behaviour.  The counters of
  \<open>SplitterStats\<close> are \<open>u64\<close> in the source and unbounded here; each grows by at most the bytes
  received, so no run can wrap them.
\<close>

section \<open>Data\<close>

definition DEFAULT_MAX_FRAME_BYTES :: nat where
  "DEFAULT_MAX_FRAME_BYTES = 32 * 1024 * 1024"

definition COMPACT_THRESHOLD :: nat where
  "COMPACT_THRESHOLD = 64 * 1024"

datatype frame_error = Oversize (limit: nat)

record splitter_stats =
  frames :: nat
  bytes_in :: nat
  empty_skipped :: nat
  oversize :: nat
  bytes_discarded :: nat
  unterminated :: nat
  crlf :: nat

definition stats_default :: splitter_stats where
  "stats_default = \<lparr>frames = 0, bytes_in = 0, empty_skipped = 0, oversize = 0,
     bytes_discarded = 0, unterminated = 0, crlf = 0\<rparr>"

record frame =
  raw :: bytes
  content_len :: nat

definition content :: "frame \<Rightarrow> bytes" where
  "content f = take (content_len f) (raw f)"

definition is_terminated :: "frame \<Rightarrow> bool" where
  "is_terminated f \<longleftrightarrow> content_len f < length (raw f)"

definition frame_is_empty :: "frame \<Rightarrow> bool" where
  "frame_is_empty f \<longleftrightarrow> content_len f = 0"

record splitter =
  fs_buf :: bytes
  fs_start :: nat
  fs_scanned :: nat
  fs_discarding :: bool
  fs_max :: nat
  fs_stats :: splitter_stats

definition splitter_new :: "nat \<Rightarrow> splitter" where
  "splitter_new mx = \<lparr>fs_buf = [], fs_start = 0, fs_scanned = 0, fs_discarding = False,
     fs_max = mx, fs_stats = stats_default\<rparr>"

section \<open>Operations\<close>

definition buffered :: "splitter \<Rightarrow> nat" where
  "buffered s = length (fs_buf s) - fs_start s"

definition push :: "bytes \<Rightarrow> splitter \<Rightarrow> splitter" where
  "push chunk s = s\<lparr>fs_stats := (fs_stats s)\<lparr>bytes_in := bytes_in (fs_stats s) + length chunk\<rparr>,
     fs_buf := fs_buf s @ chunk\<rparr>"

definition consume_to :: "nat \<Rightarrow> splitter \<Rightarrow> splitter" where
  "consume_to pos s =
     (if pos = length (fs_buf s) then s\<lparr>fs_buf := [], fs_start := 0, fs_scanned := 0\<rparr>
      else if COMPACT_THRESHOLD \<le> pos then
        s\<lparr>fs_buf := drop pos (fs_buf s), fs_scanned := pos - pos, fs_start := 0\<rparr>
      else s\<lparr>fs_start := pos, fs_scanned := pos\<rparr>)"

text \<open>The counter updates of the four branches that touch \<open>SplitterStats\<close>.\<close>

definition count_discard :: "nat \<Rightarrow> splitter_stats \<Rightarrow> splitter_stats" where
  "count_discard n st = st\<lparr>bytes_discarded := bytes_discarded st + n\<rparr>"

definition count_oversize :: "nat \<Rightarrow> splitter_stats \<Rightarrow> splitter_stats" where
  "count_oversize n st = st\<lparr>oversize := oversize st + 1,
     bytes_discarded := bytes_discarded st + n\<rparr>"

definition count_crlf :: "bool \<Rightarrow> splitter_stats \<Rightarrow> splitter_stats" where
  "count_crlf b st = (if b then st\<lparr>crlf := crlf st + 1\<rparr> else st)"

definition count_empty :: "splitter_stats \<Rightarrow> splitter_stats" where
  "count_empty st = st\<lparr>empty_skipped := empty_skipped st + 1\<rparr>"

definition count_frame :: "splitter_stats \<Rightarrow> splitter_stats" where
  "count_frame st = st\<lparr>frames := frames st + 1\<rparr>"

text \<open>Does the range \<open>start..end\<close> of the buffer end in a carriage return?\<close>

definition ends_cr :: "bytes \<Rightarrow> nat \<Rightarrow> nat \<Rightarrow> bool" where
  "ends_cr b st e \<longleftrightarrow> st < e \<and> b ! (e - 1) = CR"

text \<open>
  \<open>next_frame\<close>, the loop as a recursion on \<open>continue\<close>.  The outer \<open>None\<close> is a loop that does not
  end; the inner one is the source's \<open>None\<close>, "I need more bytes".
\<close>

partial_function (option) next_frame ::
  "(char \<Rightarrow> bytes \<Rightarrow> nat option) \<Rightarrow> splitter \<Rightarrow>
   ((frame_error + frame) option \<times> splitter) option" where
  "next_frame mc s =
     (case mc NL (drop (fs_scanned s) (fs_buf s)) of
        Some off \<Rightarrow>
          (if fs_discarding s then
             next_frame mc
               (consume_to (fs_scanned s + off + 1)
                 (s\<lparr>fs_stats := count_discard (fs_scanned s + off - fs_start s) (fs_stats s),
                    fs_discarding := False\<rparr>))
           else if fs_max s < fs_scanned s + off - fs_start s then
             Some (Some (Inl (Oversize (fs_max s))),
               consume_to (fs_scanned s + off + 1)
                 (s\<lparr>fs_stats := count_oversize (fs_scanned s + off - fs_start s) (fs_stats s)\<rparr>))
           else if (if ends_cr (fs_buf s) (fs_start s) (fs_scanned s + off)
                    then fs_scanned s + off - 1 else fs_scanned s + off) - fs_start s = 0 then
             next_frame mc
               (consume_to (fs_scanned s + off + 1)
                 (s\<lparr>fs_stats := count_empty (count_crlf
                      (ends_cr (fs_buf s) (fs_start s) (fs_scanned s + off)) (fs_stats s))\<rparr>))
           else
             Some (Some (Inr \<lparr>raw = slice (fs_start s) (fs_scanned s + off + 1) (fs_buf s),
                content_len = (if ends_cr (fs_buf s) (fs_start s) (fs_scanned s + off)
                    then fs_scanned s + off - 1 else fs_scanned s + off) - fs_start s\<rparr>),
               consume_to (fs_scanned s + off + 1)
                 (s\<lparr>fs_stats := count_frame (count_crlf
                      (ends_cr (fs_buf s) (fs_start s) (fs_scanned s + off)) (fs_stats s))\<rparr>)))
      | None \<Rightarrow>
          (if fs_discarding s then
             Some (None, consume_to (length (fs_buf s))
               (s\<lparr>fs_stats := count_discard (length (fs_buf s) - fs_start s) (fs_stats s)\<rparr>))
           else if fs_max s < buffered s then
             Some (Some (Inl (Oversize (fs_max s))),
               consume_to (length (fs_buf s))
                 (s\<lparr>fs_stats := count_oversize (buffered s) (fs_stats s), fs_discarding := True\<rparr>))
           else Some (None, s\<lparr>fs_scanned := length (fs_buf s)\<rparr>)))"

definition finish :: "splitter \<Rightarrow> frame option \<times> splitter" where
  "finish s =
     (if fs_discarding s then
        (None, consume_to (length (fs_buf s))
           (s\<lparr>fs_stats := count_discard (buffered s) (fs_stats s)\<rparr>))
      else if fs_max s < buffered s then
        (None, consume_to (length (fs_buf s))
           (s\<lparr>fs_stats := count_oversize (buffered s) (fs_stats s)\<rparr>))
      else
        (let e = (if ends_cr (fs_buf s) (fs_start s) (length (fs_buf s))
                  then length (fs_buf s) - 1 else length (fs_buf s));
             f = \<lparr>raw = drop (fs_start s) (fs_buf s), content_len = e - fs_start s\<rparr>;
             s' = consume_to (length (fs_buf s)) s
         in if frame_is_empty f then (None, s')
            else (Some f, s'\<lparr>fs_stats := (count_frame (fs_stats s'))\<lparr>unterminated :=
                              unterminated (fs_stats s') + 1\<rparr>\<rparr>)))"

text \<open>The caller's loop: \<open>while let Some(result) = splitter.next_frame()\<close>.\<close>

partial_function (option) drain ::
  "('s \<Rightarrow> ('o option \<times> 's) option) \<Rightarrow> 's \<Rightarrow> ('o list \<times> 's) option" where
  "drain nxt s =
     Option.bind (nxt s) (\<lambda>(r, s'). case r of
         None \<Rightarrow> Some ([], s')
       | Some x \<Rightarrow> Option.bind (drain nxt s') (\<lambda>(xs, s''). Some (x # xs, s'')))"

text \<open>Pushing one chunk after the other, draining after each.\<close>

fun feed ::
  "(bytes \<Rightarrow> 's \<Rightarrow> 's) \<Rightarrow> ('s \<Rightarrow> ('o option \<times> 's) option) \<Rightarrow> bytes list \<Rightarrow> 's \<Rightarrow>
   ('o list \<times> 's) option" where
  "feed psh nxt [] s = Some ([], s)"
| "feed psh nxt (c # cs) s =
     Option.bind (drain nxt (psh c s)) (\<lambda>(xs, s').
     Option.bind (feed psh nxt cs s') (\<lambda>(ys, s''). Some (xs @ ys, s'')))"

section \<open>The contract of memchr\<close>

fun first_index :: "char \<Rightarrow> bytes \<Rightarrow> nat option" where
  "first_index c [] = None"
| "first_index c (x # xs) = (if x = c then Some 0 else map_option Suc (first_index c xs))"

definition memchr_ok :: "(char \<Rightarrow> bytes \<Rightarrow> nat option) \<Rightarrow> bool" where
  "memchr_ok mc \<longleftrightarrow> (\<forall>c xs. mc c xs = first_index c xs)"

lemma memchr_ok_first_index [simp]: "memchr_ok first_index"
  by (simp add: memchr_ok_def)

lemma first_index_None [simp]: "first_index c xs = None \<longleftrightarrow> c \<notin> set xs"
  by (induction xs) auto

lemma first_index_Some:
  "first_index c xs = Some i \<Longrightarrow> \<exists>u v. xs = u @ c # v \<and> length u = i \<and> c \<notin> set u"
proof (induction xs arbitrary: i)
  case (Cons x xs)
  show ?case
  proof (cases "x = c")
    case True
    with Cons.prems show ?thesis by (intro exI [of _ "[]"] exI [of _ xs]) simp
  next
    case False
    with Cons.prems obtain j where j: "first_index c xs = Some j" "i = Suc j" by auto
    from Cons.IH [OF j(1)] obtain u v where "xs = u @ c # v" "length u = j" "c \<notin> set u"
      by blast
    with False j(2) show ?thesis by (intro exI [of _ "x # u"] exI [of _ v]) simp
  qed
qed simp

section \<open>The abstract splitter: a function of the stream\<close>

text \<open>
  What the splitter computes, stated over the bytes received and not yet given back: a line is
  what precedes a newline; a line over the ceiling is an \<open>Oversize\<close>, a blank one is skipped,
  any other is a frame whose \<open>raw\<close> is the line with its delimiter.
\<close>

definition line_of :: "bytes \<Rightarrow> bytes" where
  "line_of p = takeWhile (\<lambda>c. c \<noteq> NL) p"

definition rest_of :: "bytes \<Rightarrow> bytes" where
  "rest_of p = drop (Suc (length (line_of p))) p"

definition strip_cr_len :: "bytes \<Rightarrow> nat" where
  "strip_cr_len l = (if l \<noteq> [] \<and> last l = CR then length l - 1 else length l)"

definition line_frame :: "bytes \<Rightarrow> frame" where
  "line_frame l = \<lparr>raw = l @ [NL], content_len = strip_cr_len l\<rparr>"

type_synonym view = "bytes \<times> bool \<times> splitter_stats"

definition line_stats :: "nat \<Rightarrow> bool \<Rightarrow> bytes \<Rightarrow> splitter_stats \<Rightarrow> splitter_stats" where
  "line_stats mx d l st =
     (if d then count_discard (length l) st
      else if mx < length l then count_oversize (length l) st
      else if strip_cr_len l = 0 then count_empty (count_crlf (l \<noteq> [] \<and> last l = CR) st)
      else count_frame (count_crlf (l \<noteq> [] \<and> last l = CR) st))"

definition line_out :: "nat \<Rightarrow> bool \<Rightarrow> bytes \<Rightarrow> (frame_error + frame) list" where
  "line_out mx d l =
     (if d then [] else if mx < length l then [Inl (Oversize mx)]
      else if strip_cr_len l = 0 then [] else [Inr (line_frame l)])"

definition tail_out :: "nat \<Rightarrow> bool \<Rightarrow> bytes \<Rightarrow> (frame_error + frame) list" where
  "tail_out mx d p = (if \<not> d \<and> mx < length p then [Inl (Oversize mx)] else [])"

definition tail_view :: "nat \<Rightarrow> bool \<Rightarrow> bytes \<Rightarrow> splitter_stats \<Rightarrow> view" where
  "tail_view mx d p st =
     (if d then ([], True, count_discard (length p) st)
      else if mx < length p then ([], True, count_oversize (length p) st)
      else (p, False, st))"

lemma rest_of_shorter: "NL \<in> set p \<Longrightarrow> length (rest_of p) < length p"
  by (cases p) (auto simp: rest_of_def)

function lines_out :: "nat \<Rightarrow> view \<Rightarrow> (frame_error + frame) list \<times> view" where
  "lines_out mx (p, d, st) =
     (if NL \<in> set p then
        (let (os, v) = lines_out mx (rest_of p, False, line_stats mx d (line_of p) st)
         in (line_out mx d (line_of p) @ os, v))
      else (tail_out mx d p, tail_view mx d p st))"
  by pat_completeness auto
termination
  by (relation "measure (\<lambda>(mx, p, d, st). length p)") (auto simp: rest_of_shorter)

declare lines_out.simps [simp del]

lemma line_split: "NL \<in> set p \<Longrightarrow> p = line_of p @ NL # rest_of p \<and> NL \<notin> set (line_of p)"
proof (induction p)
  case (Cons c p)
  then show ?case by (auto simp: line_of_def rest_of_def)
qed simp

lemma takeWhile_line: "NL \<notin> set l \<Longrightarrow> takeWhile (\<lambda>c. c \<noteq> NL) (l @ NL # r) = l"
  by (induction l) auto

lemma line_split_unique:
  "NL \<notin> set l \<Longrightarrow> line_of (l @ NL # r) = l \<and> rest_of (l @ NL # r) = r"
  by (simp add: line_of_def rest_of_def takeWhile_line)

lemma lines_out_line:
  "NL \<notin> set l \<Longrightarrow> lines_out mx (l @ NL # r, d, st) =
     (let (os, v) = lines_out mx (r, False, line_stats mx d l st) in (line_out mx d l @ os, v))"
  by (subst lines_out.simps) (simp add: line_split_unique)

lemma lines_out_tail:
  "NL \<notin> set p \<Longrightarrow> lines_out mx (p, d, st) = (tail_out mx d p, tail_view mx d p st)"
  by (subst lines_out.simps) simp

text \<open>\<open>bytes_in\<close> is only touched by \<open>push\<close>, and that commutes with everything else.\<close>

definition add_in :: "nat \<Rightarrow> splitter_stats \<Rightarrow> splitter_stats" where
  "add_in n st = st\<lparr>bytes_in := bytes_in st + n\<rparr>"

lemmas count_defs = count_discard_def count_oversize_def count_crlf_def count_empty_def
  count_frame_def add_in_def

lemma line_stats_add_in: "line_stats mx d l (add_in n st) = add_in n (line_stats mx d l st)"
  by (simp add: line_stats_def count_defs)

lemma lines_out_add_in:
  "lines_out mx (p, d, add_in n st) =
     (let (os, q, e, st') = lines_out mx (p, d, st) in (os, q, e, add_in n st'))"
proof (induction mx "(p, d, st)" arbitrary: p d st rule: lines_out.induct)
  case (1 mx p d st)
  show ?case
  proof (cases "NL \<in> set p")
    case True
    then show ?thesis
      using 1 [OF True]
      by (simp add: lines_out.simps [of mx p] line_stats_add_in Let_def split: prod.splits)
  next
    case False
    then show ?thesis
      by (simp add: lines_out_tail tail_view_def count_defs)
  qed
qed

text \<open>Feeding a stream in two parts is feeding it whole: outputs, residue and counters.\<close>

lemma line_stats_after_tail:
  "NL \<notin> set p \<Longrightarrow>
   (let (q, e, st') = tail_view mx d p st in
     tail_out mx d p @ line_out mx e (q @ l) = line_out mx d (p @ l) \<and>
     line_stats mx e (q @ l) st' = line_stats mx d (p @ l) st)"
  by (auto simp: tail_view_def tail_out_def line_out_def line_stats_def count_defs)

lemma tail_after_tail:
  "(let (q, e, st') = tail_view mx d p st in
     tail_out mx d p @ tail_out mx e (q @ l) = tail_out mx d (p @ l) \<and>
     tail_view mx e (q @ l) st' = tail_view mx d (p @ l) st)"
  by (auto simp: tail_view_def tail_out_def count_defs)

lemma tail_view_no_NL: "NL \<notin> set p \<Longrightarrow> tail_view mx d p st = (q, e, st') \<Longrightarrow> NL \<notin> set q"
  by (auto simp: tail_view_def split: if_splits)

lemma lines_out_append:
  "lines_out mx (p, d, st) = (os, q, e, st') \<Longrightarrow>
   lines_out mx (p @ c, d, st) =
     (let (os', v) = lines_out mx (q @ c, e, st') in (os @ os', v))"
proof (induction mx "(p, d, st)" arbitrary: p d st os rule: lines_out.induct)
  case (1 mx p d st)
  show ?case
  proof (cases "NL \<in> set p")
    case True
    define l where "l = line_of p"
    define r where "r = rest_of p"
    from line_split [OF True] have p: "p = l @ NL # r" and l: "NL \<notin> set l"
      by (simp_all add: l_def r_def)
    obtain os1 where os1: "lines_out mx (r, False, line_stats mx d l st) = (os1, q, e, st')"
      and os: "os = line_out mx d l @ os1"
      using "1.prems" l by (auto simp: p lines_out_line split: prod.splits)
    from "1.hyps" [OF True] os1
    have "lines_out mx (r @ c, False, line_stats mx d l st) =
        (let (os', v) = lines_out mx (q @ c, e, st') in (os1 @ os', v))"
      by (simp add: l_def r_def)
    then show ?thesis
      by (simp add: p os lines_out_line [OF l] split: prod.splits)
  next
    case False
    then have t: "os = tail_out mx d p" "(q, e, st') = tail_view mx d p st"
      using "1.prems" by (simp_all add: lines_out_tail)
    from False t(2) have q: "NL \<notin> set q" by (metis tail_view_no_NL)
    show ?thesis
    proof (cases "NL \<in> set c")
      case True
      define l where "l = line_of c"
      define r where "r = rest_of c"
      from line_split [OF True] have c: "c = l @ NL # r" and l: "NL \<notin> set l"
        by (simp_all add: l_def r_def)
      from False l q have "NL \<notin> set (p @ l)" "NL \<notin> set (q @ l)" by simp_all
      then show ?thesis
        using line_stats_after_tail [OF False, of mx d st l] t
        by (simp add: c lines_out_line [of "p @ l", simplified] lines_out_line [of "q @ l", simplified]
            split: prod.splits)
    next
      case c: False
      then show ?thesis
        using tail_after_tail [of mx d p st c] t False q
        by (simp add: lines_out_tail split: prod.splits)
    qed
  qed
qed

section \<open>The interface of a frame source, and its client\<close>

text \<open>
  What the relay relies on: pushing bytes and asking for the next frame behave, through an
  abstraction \<open>vw\<close>, like the abstract splitter, one line at a time.  Everything the relay needs
  (that its loop ends, what it yields, that the chunking of reads does not show) follows from these
  laws alone.
\<close>

locale frame_source =
  fixes psh :: "bytes \<Rightarrow> 's \<Rightarrow> 's"
    and nxt :: "'s \<Rightarrow> ((frame_error + frame) option \<times> 's) option"
    and vw :: "'s \<Rightarrow> view"
    and ok :: "'s \<Rightarrow> bool"
    and mx :: "'s \<Rightarrow> nat"
  assumes push_law: "ok s \<Longrightarrow> vw s = (p, d, st) \<Longrightarrow>
      ok (psh c s) \<and> mx (psh c s) = mx s \<and> vw (psh c s) = (p @ c, d, add_in (length c) st)"
    and line_law: "ok s \<Longrightarrow> vw s = (l @ NL # r, d, st) \<Longrightarrow> NL \<notin> set l \<Longrightarrow>
      \<exists>s'. ok s' \<and> mx s' = mx s \<and> vw s' = (r, False, line_stats (mx s) d l st) \<and>
        nxt s = (case line_out (mx s) d l of [] \<Rightarrow> nxt s' | x # _ \<Rightarrow> Some (Some x, s'))"
    and tail_law: "ok s \<Longrightarrow> vw s = (p, d, st) \<Longrightarrow> NL \<notin> set p \<Longrightarrow>
      \<exists>s'. ok s' \<and> mx s' = mx s \<and> vw s' = tail_view (mx s) d p st \<and>
        nxt s = Some (case tail_out (mx s) d p of [] \<Rightarrow> None | x # _ \<Rightarrow> Some x, s')"
begin

lemma drain_tail:
  assumes "ok s" "vw s = (p, d, st)" "NL \<notin> set p"
  shows "\<exists>s'. ok s' \<and> mx s' = mx s \<and> vw s' = tail_view (mx s) d p st \<and>
    drain nxt s = Some (tail_out (mx s) d p, s')"
proof -
  from tail_law [OF assms] obtain s1 where s1: "ok s1" "mx s1 = mx s"
    "vw s1 = tail_view (mx s) d p st"
    "nxt s = Some (case tail_out (mx s) d p of [] \<Rightarrow> None | x # _ \<Rightarrow> Some x, s1)" by blast
  show ?thesis
  proof (cases "tail_out (mx s) d p")
    case Nil
    with s1 show ?thesis by (subst drain.simps) auto
  next
    case (Cons x xs)
    then have x: "xs = []" "\<not> d" "mx s < length p" by (auto simp: tail_out_def split: if_splits)
    with s1 have v1: "vw s1 = ([], True, count_oversize (length p) st)"
      by (simp add: tail_view_def)
    from tail_law [OF s1(1) v1] obtain s2 where s2: "ok s2" "mx s2 = mx s1"
      "vw s2 = tail_view (mx s1) True [] (count_oversize (length p) st)" "nxt s1 = Some (None, s2)"
      by (auto simp: tail_out_def)
    from s2(3) v1 have "vw s2 = vw s1" by (simp add: tail_view_def count_defs)
    moreover have "drain nxt s1 = Some ([], s2)" by (subst drain.simps) (simp add: s2)
    ultimately show ?thesis using s1 s2 Cons x
      by (subst drain.simps) auto
  qed
qed

lemma drain_spec:
  "ok s \<Longrightarrow> vw s = (p, d, st) \<Longrightarrow>
   \<exists>s'. ok s' \<and> mx s' = mx s \<and>
     drain nxt s = Some (fst (lines_out (mx s) (p, d, st)), s') \<and>
     vw s' = snd (lines_out (mx s) (p, d, st))"
proof (induction "mx s" "(p, d, st)" arbitrary: p d st s rule: lines_out.induct)
  case (1 p d st)
  show ?case
  proof (cases "NL \<in> set p")
    case False
    from drain_tail [OF 1(2,3) False] show ?thesis
      by (auto simp: lines_out_tail [OF False])
  next
    case True
    note sp = line_split [OF True]
    from 1(3) sp have v: "vw s = (line_of p @ NL # rest_of p, d, st)" by simp
    from line_law [OF 1(2) v] sp obtain s1 where s1: "ok s1" "mx s1 = mx s"
      "vw s1 = (rest_of p, False, line_stats (mx s) d (line_of p) st)"
      "nxt s = (case line_out (mx s) d (line_of p) of [] \<Rightarrow> nxt s1 | x # _ \<Rightarrow> Some (Some x, s1))"
      by blast
    from 1(1) [OF True] s1(1-3) obtain s2 where s2: "ok s2" "mx s2 = mx s"
      "drain nxt s1 = Some (fst (lines_out (mx s) (rest_of p, False,
         line_stats (mx s) d (line_of p) st)), s2)"
      "vw s2 = snd (lines_out (mx s) (rest_of p, False, line_stats (mx s) d (line_of p) st))"
      by (metis (no_types, lifting))
    have lo: "lines_out (mx s) (p, d, st) =
        (let (os, v) = lines_out (mx s) (rest_of p, False, line_stats (mx s) d (line_of p) st)
         in (line_out (mx s) d (line_of p) @ os, v))"
      using True by (subst lines_out.simps) simp
    have "drain nxt s = Some (line_out (mx s) d (line_of p) @ fst (lines_out (mx s) (rest_of p, False,
         line_stats (mx s) d (line_of p) st)), s2)"
    proof (cases "line_out (mx s) d (line_of p)")
      case Nil
      with s1(4) have "nxt s = nxt s1" by simp
      then have "drain nxt s = drain nxt s1"
        by (subst (1 2) drain.simps) simp
      with s2(3) Nil show ?thesis by simp
    next
      case (Cons x xs)
      then have "xs = []" by (auto simp: line_out_def split: if_splits)
      with Cons s1(4) s2(3) show ?thesis by (subst drain.simps) simp
    qed
    with s2 lo show ?thesis by (auto simp: case_prod_beta)
  qed
qed

lemma feed_spec:
  "ok s \<Longrightarrow> vw s = (p, d, st) \<Longrightarrow> lines_out (mx s) (p, d, st) = ([], p, d, st) \<Longrightarrow>
   \<exists>s'. ok s' \<and> mx s' = mx s \<and>
     feed psh nxt cs s =
       Some (fst (lines_out (mx s) (p @ concat cs, d, add_in (length (concat cs)) st)), s') \<and>
     vw s' = snd (lines_out (mx s) (p @ concat cs, d, add_in (length (concat cs)) st))"
proof (induction cs arbitrary: s p d st)
  case Nil
  then show ?case by (auto simp: count_defs)
next
  case (Cons c cs)
  let ?n = "length (concat cs)"
  from push_law [OF Cons.prems(1,2), of c] have psh: "ok (psh c s)" "mx (psh c s) = mx s"
    "vw (psh c s) = (p @ c, d, add_in (length c) st)" by auto
  obtain os q e st' where lo: "lines_out (mx s) (p @ c, d, add_in (length c) st) = (os, q, e, st')"
    by (metis prod_cases4)
  from drain_spec [OF psh(1,3)] psh(2) lo obtain s1 where s1: "ok s1" "mx s1 = mx s"
    "drain nxt (psh c s) = Some (os, s1)" "vw s1 = (q, e, st')" by auto
  have stable: "lines_out (mx s) (q, e, st') = ([], q, e, st')"
    using lines_out_append [OF lo, of "[]"] lo by (auto split: prod.splits)
  from Cons.IH [OF s1(1,4)] stable s1(2) obtain s2 where s2: "ok s2" "mx s2 = mx s"
    "feed psh nxt cs s1 = Some (fst (lines_out (mx s) (q @ concat cs, e, add_in ?n st')), s2)"
    "vw s2 = snd (lines_out (mx s) (q @ concat cs, e, add_in ?n st'))" by auto
  have lo': "lines_out (mx s) (p @ c, d, add_in (length (concat (c # cs))) st) =
      (os, q, e, add_in ?n st')"
    using lines_out_add_in [of "mx s" "p @ c" d ?n "add_in (length c) st"] lo
    by (simp add: count_defs ac_simps)
  from lines_out_append [OF lo', of "concat cs"] s1(3) s2 show ?case
    by (auto simp: case_prod_beta)
qed

end


section \<open>The splitter satisfies the interface\<close>

text \<open>
  The representation invariant: the indices are ordered and in range, and no newline lies in the
  part already searched.  \<open>pending\<close> is what has been received and not yet consumed.
\<close>

definition pending :: "splitter \<Rightarrow> bytes" where
  "pending s = drop (fs_start s) (fs_buf s)"

definition splitter_inv :: "splitter \<Rightarrow> bool" where
  "splitter_inv s \<longleftrightarrow> fs_start s \<le> fs_scanned s \<and> fs_scanned s \<le> length (fs_buf s) \<and>
     NL \<notin> set (slice (fs_start s) (fs_scanned s) (fs_buf s))"

definition splitter_view :: "splitter \<Rightarrow> view" where
  "splitter_view s = (pending s, fs_discarding s, fs_stats s)"

lemma consume_to_view [simp]:
  "pos \<le> length (fs_buf s) \<Longrightarrow> splitter_inv (consume_to pos s)"
  "pos \<le> length (fs_buf s) \<Longrightarrow> pending (consume_to pos s) = drop pos (fs_buf s)"
  "fs_discarding (consume_to pos s) = fs_discarding s"
  "fs_stats (consume_to pos s) = fs_stats s"
  "fs_max (consume_to pos s) = fs_max s"
  by (auto simp: consume_to_def splitter_inv_def pending_def slice_def COMPACT_THRESHOLD_def)

lemma splitter_inv_new: "splitter_inv (splitter_new n)"
  by (simp add: splitter_new_def splitter_inv_def slice_def)

lemma splitter_view_new: "splitter_view (splitter_new n) = ([], False, stats_default)"
  by (simp add: splitter_new_def splitter_view_def pending_def)

lemma push_inv:
  "splitter_inv s \<Longrightarrow> splitter_view s = (p, d, st) \<Longrightarrow>
   splitter_inv (push c s) \<and> fs_max (push c s) = fs_max s \<and>
   splitter_view (push c s) = (p @ c, d, add_in (length c) st)"
  by (auto simp: push_def splitter_inv_def splitter_view_def pending_def slice_def add_in_def)

text \<open>Where the newline is, in terms of the buffer.\<close>

lemma scan_split:
  assumes "splitter_inv s"
  obtains b0 b1 where "fs_buf s = b0 @ b1 @ drop (fs_scanned s) (fs_buf s)"
    and "length b0 = fs_start s" and "length b0 + length b1 = fs_scanned s" and "NL \<notin> set b1"
proof
  let ?b = "fs_buf s"
  show "?b = take (fs_start s) ?b @ slice (fs_start s) (fs_scanned s) ?b @ drop (fs_scanned s) ?b"
    using assms unfolding splitter_inv_def slice_def
    by (metis append_take_drop_id drop_drop le_add_diff_inverse2)
qed (use assms in \<open>auto simp: splitter_inv_def slice_def\<close>)

lemma newline_found:
  assumes inv: "splitter_inv s" and p: "pending s = l @ NL # r" and l: "NL \<notin> set l"
  obtains b0 off where "fs_buf s = b0 @ l @ NL # r" and "length b0 = fs_start s"
    and "first_index NL (drop (fs_scanned s) (fs_buf s)) = Some off"
    and "fs_scanned s + off = fs_start s + length l"
proof -
  from scan_split [OF inv] obtain b0 b1 where b: "fs_buf s = b0 @ b1 @ drop (fs_scanned s) (fs_buf s)"
    "length b0 = fs_start s" "length b0 + length b1 = fs_scanned s" "NL \<notin> set b1" by blast
  define t where "t = drop (fs_scanned s) (fs_buf s)"
  from b(1) have bt: "fs_buf s = b0 @ b1 @ t" by (simp add: t_def)
  have eq: "b1 @ t = l @ NL # r"
    using p b(2) unfolding pending_def bt by simp
  then have "NL \<in> set (b1 @ t)" by simp
  with b(4) have "NL \<in> set t" by simp
  then obtain off where off: "first_index NL t = Some off" by (cases "first_index NL t") auto
  from first_index_Some [OF off] obtain u v where t: "t = u @ NL # v" "length u = off" "NL \<notin> set u"
    by blast
  from b(4) t(3) have "NL \<notin> set (b1 @ u)" by simp
  then have "line_of ((b1 @ u) @ NL # v) = b1 @ u" by (metis line_split_unique)
  moreover have "line_of (l @ NL # r) = l" using l by (metis line_split_unique)
  moreover have "(b1 @ u) @ NL # v = l @ NL # r" using eq t(1) by simp
  ultimately have lu: "l = b1 @ u" by metis
  show thesis
  proof (rule that [of b0 off])
    show "fs_buf s = b0 @ l @ NL # r" using bt eq by simp
    show "first_index NL (drop (fs_scanned s) (fs_buf s)) = Some off" using off by (simp add: t_def)
    show "fs_scanned s + off = fs_start s + length l" using b(2,3) lu t(2) by simp
  qed (rule b(2))
qed

lemma ends_cr_line:
  "b = b0 @ l @ t \<Longrightarrow> ends_cr b (length b0) (length b0 + length l) = (l \<noteq> [] \<and> last l = CR)"
  by (cases l rule: rev_cases) (auto simp: ends_cr_def nth_append)

text \<open>One line of the loop, on the concrete state.\<close>

lemma next_frame_line:
  assumes mc: "memchr_ok mc" and inv: "splitter_inv s"
    and v: "splitter_view s = (l @ NL # r, d, st)" and l: "NL \<notin> set l"
  shows "\<exists>s'. splitter_inv s' \<and> fs_max s' = fs_max s \<and>
    splitter_view s' = (r, False, line_stats (fs_max s) d l st) \<and>
    next_frame mc s =
      (case line_out (fs_max s) d l of [] \<Rightarrow> next_frame mc s' | x # _ \<Rightarrow> Some (Some x, s'))"
proof -
  from v have p: "pending s = l @ NL # r" and d: "fs_discarding s = d" and st: "fs_stats s = st"
    by (simp_all add: splitter_view_def)
  from newline_found [OF inv p l] obtain b0 off where
    b: "fs_buf s = b0 @ l @ NL # r" and len: "length b0 = fs_start s"
    and off: "first_index NL (drop (fs_scanned s) (fs_buf s)) = Some off"
    and pos: "fs_scanned s + off = fs_start s + length l" .
  have mcs: "mc NL (drop (fs_scanned s) (fs_buf s)) = Some off"
    using mc off by (simp add: memchr_ok_def)
  have cr: "ends_cr (fs_buf s) (fs_start s) (fs_start s + length l) = (l \<noteq> [] \<and> last l = CR)"
    using ends_cr_line [OF b] len by simp
  have sl: "slice (fs_start s) (Suc (fs_start s + length l)) (fs_buf s) = l @ [NL]"
    by (simp add: b slice_def flip: len)
  have dr: "drop (Suc (fs_start s + length l)) (fs_buf s) = r"
    by (simp add: b flip: len)
  have nlen: "Suc (fs_start s + length l) \<le> length (fs_buf s)"
    by (simp add: b flip: len)
  define s' where "s' = consume_to (Suc (fs_start s + length l))
      (s\<lparr>fs_stats := line_stats (fs_max s) d l st, fs_discarding := False\<rparr>)"
  have "next_frame mc s =
      (case line_out (fs_max s) d l of [] \<Rightarrow> next_frame mc s' | x # _ \<Rightarrow> Some (Some x, s'))"
  proof (cases d)
    case True
    then show ?thesis
      by (subst next_frame.simps) (simp add: mcs d st pos s'_def line_out_def line_stats_def)
  next
    case False
    have s'_eq: "s' = consume_to (Suc (fs_start s + length l))
        (s\<lparr>fs_stats := line_stats (fs_max s) d l st\<rparr>)"
      using False d by (cases s) (simp add: s'_def)
    have e: "(if l \<noteq> [] \<and> last l = CR then fs_start s + length l - 1 else fs_start s + length l)
        - fs_start s = strip_cr_len l"
      by (simp add: strip_cr_len_def)
    show ?thesis
      using False d
      by (subst next_frame.simps)
        (simp only: mcs st pos cr e s'_eq line_out_def line_stats_def line_frame_def sl
          Suc_eq_plus1 [symmetric] option.case if_False diff_add_inverse list.case split: if_split,
         simp)
  qed
  moreover have "splitter_inv s'" "fs_max s' = fs_max s"
    "splitter_view s' = (r, False, line_stats (fs_max s) d l st)"
    using nlen dr by (simp_all add: s'_def splitter_view_def)
  ultimately show ?thesis by blast
qed

lemma next_frame_tail:
  assumes mc: "memchr_ok mc" and inv: "splitter_inv s"
    and v: "splitter_view s = (p, d, st)" and p: "NL \<notin> set p"
  shows "\<exists>s'. splitter_inv s' \<and> fs_max s' = fs_max s \<and>
    splitter_view s' = tail_view (fs_max s) d p st \<and>
    next_frame mc s = Some (case tail_out (fs_max s) d p of [] \<Rightarrow> None | x # _ \<Rightarrow> Some x, s')"
proof -
  from v have v: "pending s = p" "fs_discarding s = d" "fs_stats s = st"
    by (simp_all add: splitter_view_def)
  from inv have i: "fs_start s \<le> fs_scanned s" "fs_scanned s \<le> length (fs_buf s)"
    by (simp_all add: splitter_inv_def)
  have "drop (fs_scanned s) (fs_buf s) = drop (fs_scanned s - fs_start s) p"
    using i v(1) by (simp add: pending_def flip: v(1))
  then have "set (drop (fs_scanned s) (fs_buf s)) \<subseteq> set p"
    by (simp add: set_drop_subset)
  with p mc have mcs: "mc NL (drop (fs_scanned s) (fs_buf s)) = None"
    by (auto simp: memchr_ok_def)
  have blen: "buffered s = length p" "length (fs_buf s) - fs_start s = length p"
    using v(1) by (auto simp: buffered_def pending_def)
  have keep: "splitter_inv (s\<lparr>fs_scanned := length (fs_buf s)\<rparr>)"
    using i p v(1) by (auto simp: splitter_inv_def slice_def pending_def dest: in_set_takeD)
  have pend: "pending (s\<lparr>fs_scanned := length (fs_buf s)\<rparr>) = p"
    using v(1) by (simp add: pending_def)
  consider "d" | "\<not> d" "fs_max s < length p" | "\<not> d" "\<not> fs_max s < length p" by blast
  then show ?thesis
  proof cases
    case 1
    with v(2,3) show ?thesis
      by (subst next_frame.simps) (simp add: mcs blen tail_out_def tail_view_def splitter_view_def)
  next
    case 2
    with v(2,3) show ?thesis
      by (subst next_frame.simps) (simp add: mcs blen tail_out_def tail_view_def splitter_view_def)
  next
    case 3
    with v(2,3) keep pend show ?thesis
      by (subst next_frame.simps) (simp add: mcs blen tail_out_def tail_view_def splitter_view_def)
  qed
qed

locale memchr_contract =
  fixes mc :: "char \<Rightarrow> bytes \<Rightarrow> nat option"
  assumes mc_ok: "memchr_ok mc"
begin

lemma next_frame_step:
  "splitter_inv s \<Longrightarrow> splitter_view s = (l @ NL # r, d, st) \<Longrightarrow> NL \<notin> set l \<Longrightarrow>
   \<exists>s'. splitter_inv s' \<and> fs_max s' = fs_max s \<and>
    splitter_view s' = (r, False, line_stats (fs_max s) d l st) \<and>
    next_frame mc s =
      (case line_out (fs_max s) d l of [] \<Rightarrow> next_frame mc s' | x # _ \<Rightarrow> Some (Some x, s'))"
  by (rule next_frame_line [OF mc_ok])

end

sublocale memchr_contract \<subseteq> splitter: frame_source push "next_frame mc" splitter_view splitter_inv fs_max
  by unfold_locales (use push_inv next_frame_line [OF mc_ok] next_frame_tail [OF mc_ok] in blast)+

interpretation reference_memchr: memchr_contract first_index
  by unfold_locales simp


section \<open>Properties\<close>

text \<open>What a run yields: the frames and the errors among the outputs.\<close>

definition oks :: "('e + 'a) list \<Rightarrow> 'a list" where
  "oks os = concat (map (case_sum (\<lambda>_. []) (\<lambda>f. [f])) os)"

definition errs :: "('e + 'a) list \<Rightarrow> 'e list" where
  "errs os = concat (map (case_sum (\<lambda>e. [e]) (\<lambda>_. [])) os)"

lemma oks_simps [simp]:
  "oks [] = []" "oks (Inl e # os) = oks os" "oks (Inr f # os) = f # oks os"
  "oks (xs @ ys) = oks xs @ oks ys"
  by (simp_all add: oks_def)

lemma errs_simps [simp]:
  "errs [] = []" "errs (Inl e # os) = e # errs os" "errs (Inr f # os) = errs os"
  "errs (xs @ ys) = errs xs @ errs ys"
  by (simp_all add: errs_def)

text \<open>The lines of a stream: all that ends in a newline, then the residue.\<close>

abbreviation lines :: "bytes \<Rightarrow> bytes list" where
  "lines xs \<equiv> split_on (\<lambda>c. c = NL) xs"

definition good_line :: "nat \<Rightarrow> bytes \<Rightarrow> bool" where
  "good_line mx l \<longleftrightarrow> length l \<le> mx \<and> strip_cr_len l \<noteq> 0"

definition over :: "nat \<Rightarrow> bytes list \<Rightarrow> nat" where
  "over mx ls = sum_list (map (\<lambda>l. if mx < length l then length l else 0) ls)"

lemma lines_cons: "NL \<notin> set l \<Longrightarrow> lines (l @ NL # r) = l # lines r"
  by (rule split_on_app) auto

lemma lines_single: "NL \<notin> set p \<Longrightarrow> lines p = [p]"
  by (rule split_on_none) auto

lemma lines_out_frames:
  "oks (fst (lines_out mx (p, False, st))) = map line_frame (filter (good_line mx) (butlast (lines p)))"
proof (induction mx "(p, False, st)" arbitrary: p st rule: lines_out.induct)
  case (1 mx p st)
  show ?case
  proof (cases "NL \<in> set p")
    case True
    note sp = line_split [OF True]
    show ?thesis
      using 1 [OF True] sp lines_cons [of "line_of p" "rest_of p"]
      by (subst lines_out.simps) (auto simp: True case_prod_beta line_out_def good_line_def)
  qed (simp add: lines_out_tail lines_single tail_out_def)
qed

lemma lines_out_stats:
  "lines_out mx (p, d, st) = (os, q, e, st') \<Longrightarrow>
     frames st' = frames st + length (oks os) \<and>
     oversize st' = oversize st + length (errs os) \<and>
     bytes_in st' = bytes_in st \<and>
     bytes_discarded st' = bytes_discarded st +
       (if d then length (hd (lines p)) + over mx (tl (lines p)) else over mx (lines p)) \<and>
     length q \<le> mx"
proof (induction mx "(p, d, st)" arbitrary: p d st os rule: lines_out.induct)
  case (1 mx p d st)
  show ?case
  proof (cases "NL \<in> set p")
    case True
    note sp = line_split [OF True]
    obtain os1 where os1: "lines_out mx (rest_of p, False, line_stats mx d (line_of p) st) = (os1, q, e, st')"
      and os: "os = line_out mx d (line_of p) @ os1"
      using "1.prems" True by (subst (asm) lines_out.simps) (auto split: prod.splits)
    from lines_cons [of "line_of p" "rest_of p"] sp have "lines p = line_of p # lines (rest_of p)" by simp
    with "1.hyps" [OF True os1] os show ?thesis
      by (auto simp: line_out_def line_stats_def count_defs over_def)
  next
    case False
    then show ?thesis
      using "1.prems"
      by (auto simp: lines_out_tail lines_single tail_out_def tail_view_def count_defs over_def
          split: if_splits)
  qed
qed

context memchr_contract begin

lemma feed_outcome:
  "\<exists>s. feed push (next_frame mc) cs (splitter_new mx) =
      Some (fst (lines_out mx (concat cs, False, add_in (length (concat cs)) stats_default)), s) \<and>
    splitter_inv s \<and> fs_max s = mx \<and>
    splitter_view s = snd (lines_out mx (concat cs, False, add_in (length (concat cs)) stats_default))"
proof -
  have "fs_max (splitter_new mx) = mx" by (simp add: splitter_new_def)
  with splitter.feed_spec [OF splitter_inv_new splitter_view_new, of mx cs] show ?thesis
    by (auto simp: lines_out_tail tail_out_def tail_view_def)
qed

end

text \<open>The abstract run over a whole stream, from a fresh splitter.\<close>

definition run_of :: "nat \<Rightarrow> bytes \<Rightarrow> (frame_error + frame) list \<times> view" where
  "run_of mx xs = lines_out mx (xs, False, add_in (length xs) stats_default)"

lemma feed_run:
  assumes "memchr_ok mc"
  obtains s where "feed push (next_frame mc) cs (splitter_new mx) = Some (fst (run_of mx (concat cs)), s)"
    and "splitter_inv s" and "fs_max s = mx" and "splitter_view s = snd (run_of mx (concat cs))"
  using memchr_contract.feed_outcome [OF memchr_contract.intro [OF assms], of cs mx]
  by (auto simp: run_of_def)

lemma feed_runE:
  assumes "memchr_ok mc" and "feed push (next_frame mc) cs (splitter_new mx) = Some (os, s)"
  shows "run_of mx (concat cs) = (os, splitter_view s) \<and> splitter_inv s \<and> fs_max s = mx"
  using feed_run [OF assms(1), of cs mx] assms(2) by (metis option.inject prod.collapse prod.inject)

text \<open>
  C13: splitting does not depend on how the reads cut the stream.  For any two ways of
  chunking the same bytes, the caller's loop ends, yields the same frames and \<open>Oversize\<close> errors
  in the same order, and leaves the splitter with the same residue, discard flag and counters.\<close>

theorem chunking_is_invisible:
  assumes "memchr_ok mc" and "concat cs = concat cs'"
  shows "\<exists>os s s'. feed push (next_frame mc) cs (splitter_new mx) = Some (os, s) \<and>
    feed push (next_frame mc) cs' (splitter_new mx) = Some (os, s') \<and>
    pending s = pending s' \<and> fs_discarding s = fs_discarding s' \<and> fs_stats s = fs_stats s'"
proof -
  obtain s where s: "feed push (next_frame mc) cs (splitter_new mx) = Some (fst (run_of mx (concat cs)), s)"
    "splitter_view s = snd (run_of mx (concat cs))" using feed_run [OF assms(1)] by blast
  obtain s' where s': "feed push (next_frame mc) cs' (splitter_new mx) = Some (fst (run_of mx (concat cs')), s')"
    "splitter_view s' = snd (run_of mx (concat cs'))" using feed_run [OF assms(1)] by blast
  from s(2) s'(2) assms(2) have "splitter_view s = splitter_view s'" by simp
  with s(1) s'(1) assms(2) show ?thesis by (auto simp: splitter_view_def)
qed

theorem chunking_is_invisible_witness:
  "\<exists>os s s'. feed push (next_frame first_index) [''ab'', ''c'' @ [NL] @ ''d''] (splitter_new 10) = Some (os, s) \<and>
    feed push (next_frame first_index) [''abc'' @ [NL], ''d''] (splitter_new 10) = Some (os, s') \<and>
    pending s = pending s' \<and> fs_discarding s = fs_discarding s' \<and> fs_stats s = fs_stats s'"
  by (rule chunking_is_invisible) simp_all

text \<open>
  C12: the frames handed to the relay are exactly the complete lines of the stream that are not
  blank and not over the ceiling, in order, each with its raw bytes (delimiter included)
  untouched.\<close>

theorem frames_are_the_lines:
  assumes "memchr_ok mc" and "feed push (next_frame mc) cs (splitter_new mx) = Some (os, s)"
  shows "map raw (oks os) =
    map (\<lambda>l. l @ [NL]) (filter (good_line mx) (butlast (lines (concat cs))))"
proof -
  from feed_runE [OF assms] have "oks os = map line_frame (filter (good_line mx) (butlast (lines (concat cs))))"
    using lines_out_frames [of mx "concat cs" "add_in (length (concat cs)) stats_default"]
    by (simp add: run_of_def)
  then show ?thesis by (simp add: line_frame_def)
qed

theorem frames_are_the_lines_witness:
  "\<exists>os s. feed push (next_frame first_index) [''ab'' @ [NL, CR, NL] @ ''toolong'', [NL] @ ''c'' @ [CR, NL] @ ''d'']
      (splitter_new 4) = Some (os, s) \<and> map raw (oks os) = [''ab'' @ [NL], ''c'' @ [CR, NL]]"
proof -
  let ?cs = "[''ab'' @ [NL, CR, NL] @ ''toolong'', [NL] @ ''c'' @ [CR, NL] @ ''d'']"
  obtain s where s: "feed push (next_frame first_index) ?cs (splitter_new 4) = Some (fst (run_of 4 (concat ?cs)), s)"
    using feed_run [OF memchr_ok_first_index] by blast
  have "map (\<lambda>l. l @ [NL]) (filter (good_line 4) (butlast (lines (concat ?cs)))) = [''ab'' @ [NL], ''c'' @ [CR, NL]]"
    by (simp add: good_line_def strip_cr_len_def)
  with s frames_are_the_lines [OF memchr_ok_first_index s] show ?thesis by auto
qed

text \<open>
  C39: the counters are true to the run and memory stays bounded.  \<open>frames\<close> and \<open>oversize\<close> count
  the frames and errors handed out, \<open>bytes_in\<close> the bytes received, \<open>bytes_discarded\<close> exactly the
  bytes of the lines over the ceiling (the unfinished one included), and once drained the splitter
  never holds more than the ceiling.\<close>

theorem counters_are_true:
  assumes "memchr_ok mc" and "feed push (next_frame mc) cs (splitter_new mx) = Some (os, s)"
  shows "frames (fs_stats s) = length (oks os) \<and> oversize (fs_stats s) = length (errs os) \<and>
    bytes_in (fs_stats s) = length (concat cs) \<and>
    bytes_discarded (fs_stats s) = over mx (lines (concat cs)) \<and> buffered s \<le> mx"
proof -
  obtain q e st' where lo: "lines_out mx (concat cs, False, add_in (length (concat cs)) stats_default)
      = (os, q, e, st')" and v: "splitter_view s = (q, e, st')"
    using feed_runE [OF assms] by (metis prod_cases3 run_of_def)
  from v have "buffered s = length q" by (auto simp: splitter_view_def pending_def buffered_def)
  with lines_out_stats [OF lo] v show ?thesis
    by (simp add: splitter_view_def add_in_def stats_default_def)
qed

theorem counters_are_true_witness:
  "\<exists>os s. feed push (next_frame first_index) [''ab'' @ [NL] @ ''toolong'', [NL] @ ''c''] (splitter_new 4) = Some (os, s) \<and>
    frames (fs_stats s) = length (oks os) \<and> oversize (fs_stats s) = length (errs os) \<and>
    bytes_in (fs_stats s) = 12 \<and> bytes_discarded (fs_stats s) = 7 \<and> buffered s \<le> 4"
proof -
  let ?cs = "[''ab'' @ [NL] @ ''toolong'', [NL] @ ''c'']"
  obtain s where s: "feed push (next_frame first_index) ?cs (splitter_new 4) = Some (fst (run_of 4 (concat ?cs)), s)"
    using feed_run [OF memchr_ok_first_index] by blast
  have "length (concat ?cs) = 12" "over 4 (lines (concat ?cs)) = 7" by (simp_all add: over_def)
  with s counters_are_true [OF memchr_ok_first_index s] show ?thesis by auto
qed

lemma lines_out_residue:
  "lines_out mx (p, False, st) = (os, q, e, st') \<Longrightarrow>
   (if mx < length (last (lines p)) then q = [] \<and> e else q = last (lines p) \<and> \<not> e)"
proof (induction mx "(p, False, st)" arbitrary: p st os rule: lines_out.induct)
  case (1 mx p st)
  show ?case
  proof (cases "NL \<in> set p")
    case True
    note sp = line_split [OF True]
    obtain os1 where os1: "lines_out mx (rest_of p, False, line_stats mx False (line_of p) st) = (os1, q, e, st')"
      using "1.prems" True by (subst (asm) lines_out.simps) (auto split: prod.splits)
    from lines_cons [of "line_of p" "rest_of p"] sp have "lines p = line_of p # lines (rest_of p)" by simp
    with "1.hyps" [OF True os1] show ?thesis by simp
  next
    case False
    with "1.prems" show ?thesis
      by (auto simp: lines_out_tail lines_single tail_view_def split: if_splits)
  qed
qed

lemma finish_pending:
  "splitter_inv s \<Longrightarrow> \<not> fs_discarding s \<Longrightarrow> length (pending s) \<le> fs_max s \<Longrightarrow>
   fst (finish s) = (if strip_cr_len (pending s) = 0 then None
      else Some \<lparr>raw = pending s, content_len = strip_cr_len (pending s)\<rparr>)"
proof -
  assume inv: "splitter_inv s" and d: "\<not> fs_discarding s" and le: "length (pending s) \<le> fs_max s"
  let ?b = "fs_buf s" let ?l = "pending s"
  have st: "fs_start s \<le> length ?b" using inv by (simp add: splitter_inv_def)
  have b: "?b = take (fs_start s) ?b @ ?l @ []" by (simp add: pending_def)
  have len: "length (take (fs_start s) ?b) = fs_start s" "fs_start s + length ?l = length ?b"
    using st by (auto simp: pending_def)
  from ends_cr_line [OF b] len
  have cr: "ends_cr ?b (fs_start s) (length ?b) = (?l \<noteq> [] \<and> last ?l = CR)" by simp
  have e: "(if ?l \<noteq> [] \<and> last ?l = CR then length ?b - 1 else length ?b) - fs_start s = strip_cr_len ?l"
    using len(2) by (auto simp: strip_cr_len_def)
  have bl: "buffered s = length ?l" by (simp add: buffered_def pending_def)
  show ?thesis
    using d le unfolding finish_def Let_def cr e bl
    by (simp add: frame_is_empty_def pending_def)
qed

lemma finish_residue:
  assumes "memchr_ok mc" and "feed push (next_frame mc) cs (splitter_new mx) = Some (os, s)"
    and "r = last (lines (concat cs))"
  shows "fst (finish s) = (if mx < length r \<or> strip_cr_len r = 0 then None
    else Some \<lparr>raw = r, content_len = strip_cr_len r\<rparr>)"
proof -
  from feed_runE [OF assms(1,2)] obtain st where
    lo: "lines_out mx (concat cs, False, add_in (length (concat cs)) stats_default)
         = (os, pending s, fs_discarding s, st)" and inv: "splitter_inv s" and mx: "fs_max s = mx"
    by (auto simp: run_of_def splitter_view_def)
  from lines_out_residue [OF lo] assms(3)
  have r: "if mx < length r then fs_discarding s else pending s = r \<and> \<not> fs_discarding s"
    by (simp split: if_splits)
  show ?thesis
  proof (cases "mx < length r")
    case True
    with r show ?thesis by (simp add: finish_def)
  next
    case False
    with r mx finish_pending [OF inv] show ?thesis by simp
  qed
qed

text \<open>
  Nothing is lost at end of stream.  After any run, \<open>finish\<close> hands back the bytes after the
  last newline as one frame (their trailing carriage return outside the content), unless they are
  blank or over the ceiling.\<close>

theorem finish_returns_the_residue:
  assumes "memchr_ok mc" and "feed push (next_frame mc) cs (splitter_new mx) = Some (os, s)"
    and "r = last (lines (concat cs))"
  shows "fst (finish s) = (if mx < length r \<or> strip_cr_len r = 0 then None
    else Some \<lparr>raw = r, content_len = strip_cr_len r\<rparr>)"
  by (rule finish_residue [OF assms])

theorem finish_returns_the_residue_witness:
  "\<exists>os s. feed push (next_frame first_index) [''ab'' @ [NL] @ ''c'', ''d'' @ [CR]] (splitter_new 4) = Some (os, s) \<and>
    fst (finish s) = Some \<lparr>raw = ''cd'' @ [CR], content_len = 2\<rparr>"
proof -
  let ?cs = "[''ab'' @ [NL] @ ''c'', ''d'' @ [CR]]"
  obtain s where s: "feed push (next_frame first_index) ?cs (splitter_new 4) = Some (fst (run_of 4 (concat ?cs)), s)"
    using feed_run [OF memchr_ok_first_index] by blast
  have r: "''cd'' @ [CR] = last (lines (concat ?cs))" by simp
  have "strip_cr_len (''cd'' @ [CR]) = 2" by (simp add: strip_cr_len_def)
  with s finish_returns_the_residue [OF memchr_ok_first_index s r] show ?thesis by auto
qed

end
