(* ===== verification/Scope.thy ===== *)
theory Scope
  imports Prelude
begin

text \<open>
  \<open>protocol/scope.rs\<close>: which project a session belongs to, and how far that is to be trusted.  A
  Unix \<open>Path\<close> is its bytes; its equality and order are those of its components, as in the standard
  library.  Canonicalisation reads the disk and is an argument where it is used.
\<close>

section \<open>Paths\<close>

datatype component = RootDir | CurDir | ParentDir | Normal bytes

fun comp_rank :: "component \<Rightarrow> nat" where
  "comp_rank RootDir = 1"
| "comp_rank CurDir = 2"
| "comp_rank ParentDir = 3"
| "comp_rank (Normal _) = 4"

fun comp_name :: "component \<Rightarrow> bytes" where
  "comp_name (Normal n) = n"
| "comp_name _ = []"

text \<open>The derived order of \<open>std::path::Component\<close>: by variant, then by name.\<close>

instantiation component :: linorder
begin

definition less_eq_component :: "component \<Rightarrow> component \<Rightarrow> bool" where
  "less_eq_component c d \<longleftrightarrow>
     comp_rank c < comp_rank d \<or> (comp_rank c = comp_rank d \<and> comp_name c \<le> comp_name d)"

definition less_component :: "component \<Rightarrow> component \<Rightarrow> bool" where
  "less_component c d \<longleftrightarrow>
     comp_rank c < comp_rank d \<or> (comp_rank c = comp_rank d \<and> comp_name c < comp_name d)"

instance
proof
  fix c d e :: component
  show "(c < d) = (c \<le> d \<and> \<not> d \<le> c)"
    by (auto simp: less_eq_component_def less_component_def)
  show "c \<le> c" by (simp add: less_eq_component_def)
  show "c \<le> d \<Longrightarrow> d \<le> e \<Longrightarrow> c \<le> e" by (auto simp: less_eq_component_def)
  show "c \<le> d \<Longrightarrow> d \<le> c \<Longrightarrow> c = d"
    by (cases c; cases d) (auto simp: less_eq_component_def)
  show "c \<le> d \<or> d \<le> c" by (auto simp: less_eq_component_def)
qed

end

definition is_absolute :: "bytes \<Rightarrow> bool" where
  "is_absolute p \<longleftrightarrow> starts_with p ''/''"

definition segments :: "bytes \<Rightarrow> bytes list" where
  "segments p = split_on (\<lambda>c. c = CHR ''/'') p"

definition seg_component :: "bytes \<Rightarrow> component list" where
  "seg_component n =
     (if n = [] \<or> n = ''.'' then [] else if n = ''..'' then [ParentDir] else [Normal n])"

text \<open>\<open>Path::components\<close>: repeated and trailing slashes and inner dots vanish, \<open>..\<close> stays.\<close>

definition components :: "bytes \<Rightarrow> component list" where
  "components p =
     (if is_absolute p then [RootDir] else if hd (segments p) = ''.'' then [CurDir] else []) @
     concat (map seg_component (segments p))"

definition path_starts_with :: "bytes \<Rightarrow> bytes \<Rightarrow> bool" where
  "path_starts_with p base \<longleftrightarrow>
     take (length (components base)) (components p) = components base"

section \<open>Provenance and scope\<close>

datatype scope_source = Injected | Roots | Cwd | Unknown

fun source_rank :: "scope_source \<Rightarrow> nat" where
  "source_rank Injected = 1"
| "source_rank Roots = 2"
| "source_rank Cwd = 3"
| "source_rank Unknown = 4"

fun source_str :: "scope_source \<Rightarrow> bytes" where
  "source_str Injected = ''injected''"
| "source_str Roots = ''roots''"
| "source_str Cwd = ''cwd''"
| "source_str Unknown = ''unknown''"

record scope =
  scope_src :: scope_source
  scope_paths :: "bytes list"

definition scope_unknown :: scope where
  "scope_unknown = \<lparr>scope_src = Unknown, scope_paths = []\<rparr>"

definition scope_new :: "scope_source \<Rightarrow> bytes list \<Rightarrow> scope" where
  "scope_new src ps =
     (let paths = dedup_by components (sort_key components ps) in
      if paths = [] \<or> src = Unknown then scope_unknown
      else \<lparr>scope_src = src, scope_paths = paths\<rparr>)"

definition KEY_SEP :: char where
  "KEY_SEP = CHR 0x1F"

definition scope_key :: "scope \<Rightarrow> bytes" where
  "scope_key s =
     (if scope_paths s = [] then ''unknown''
      else ''project:'' @ join_with [KEY_SEP] (map utf8_lossy (scope_paths s)))"

definition scope_display :: "scope \<Rightarrow> bytes" where
  "scope_display s =
     (if scope_paths s = [] then ''unknown project''
      else join_with '', '' (map utf8_lossy (scope_paths s)))"

definition allows_forever :: "scope \<Rightarrow> bool" where
  "allows_forever s \<longleftrightarrow> scope_src s \<in> {Injected, Roots}"

section \<open>Precedence chain\<close>

record scope_resolver =
  sr_injected :: "bytes option"
  sr_roots :: "bytes list"
  sr_cwd :: "bytes option"

definition resolver_new :: scope_resolver where
  "resolver_new = \<lparr>sr_injected = None, sr_roots = [], sr_cwd = None\<rparr>"

definition set_injected :: "bytes \<Rightarrow> scope_resolver \<Rightarrow> scope_resolver" where
  "set_injected p r = r\<lparr>sr_injected := Some p\<rparr>"

definition set_cwd :: "bytes \<Rightarrow> scope_resolver \<Rightarrow> scope_resolver" where
  "set_cwd p r = r\<lparr>sr_cwd := Some p\<rparr>"

definition observe_roots :: "bytes list \<Rightarrow> scope_resolver \<Rightarrow> scope_resolver" where
  "observe_roots ps r = r\<lparr>sr_roots := ps\<rparr>"

definition resolve :: "scope_resolver \<Rightarrow> scope" where
  "resolve r =
     (case sr_injected r of
        Some p \<Rightarrow> scope_new Injected [p]
      | None \<Rightarrow>
          if sr_roots r \<noteq> [] then scope_new Roots (sr_roots r)
          else (case sr_cwd r of Some p \<Rightarrow> scope_new Cwd [p] | None \<Rightarrow> scope_unknown))"

section \<open>Root URIs\<close>

definition hex_digit :: "char \<Rightarrow> nat option" where
  "hex_digit c =
     (if is_ascii_digit c then Some (byte c - 48)
      else if 97 \<le> byte c \<and> byte c \<le> 102 then Some (byte c - 87)
      else if 65 \<le> byte c \<and> byte c \<le> 70 then Some (byte c - 55)
      else None)"

fun percent_decode :: "bytes \<Rightarrow> bytes option" where
  "percent_decode [] = Some []"
| "percent_decode (c # cs) =
     (if c = CHR ''%'' then
        (case cs of
           hi # lo # cs' \<Rightarrow>
             Option.bind (hex_digit hi) (\<lambda>h. Option.bind (hex_digit lo) (\<lambda>l.
             map_option (\<lambda>out. char_of (h * 16 + l) # out) (percent_decode cs')))
         | _ \<Rightarrow> None)
      else map_option (\<lambda>out. c # out) (percent_decode cs))"

definition file_rest :: "bytes \<Rightarrow> bytes option" where
  "file_rest uri =
     (case strip_prefix ''file://'' uri of
        Some rest \<Rightarrow> Some rest
      | None \<Rightarrow>
          (case split_once ''://'' uri of
             None \<Rightarrow> None
           | Some (scheme, rest) \<Rightarrow>
               if eq_ignore_ascii_case scheme ''file'' then Some rest else None))"

definition local_path :: "bytes \<Rightarrow> bytes option" where
  "local_path rest =
     (case strip_prefix ''/'' rest of
        Some p \<Rightarrow> Some (''/'' @ p)
      | None \<Rightarrow>
          (case split_once ''/'' rest of
             None \<Rightarrow> None
           | Some (authority, p) \<Rightarrow>
               if eq_ignore_ascii_case authority ''localhost'' then Some (''/'' @ p) else None))"

definition parse_root_uri :: "bytes \<Rightarrow> bytes option" where
  "parse_root_uri uri =
     Option.bind (file_rest uri) (\<lambda>rest0.
     let rest = hd (split_on (\<lambda>c. c = CHR ''?'' \<or> c = CHR ''#'') rest0) in
     Option.bind (local_path rest) (\<lambda>path.
     Option.bind (percent_decode path) (\<lambda>decoded.
       if \<not> utf8_valid decoded then None
       else if CHR 0x00 \<in> set decoded then None
       else
         (let trimmed = trim_end_matches (CHR ''/'') decoded in
          Some (if trimmed = [] then ''/'' else trimmed)))))"

text \<open>\<open>canonicalize_for_scope\<close>: \<open>fs\<close> is \<open>std::fs::canonicalize\<close>, the path itself on failure.\<close>

definition canonicalize_for_scope :: "(bytes \<Rightarrow> bytes option) \<Rightarrow> bytes \<Rightarrow> bytes" where
  "canonicalize_for_scope fs p = (case fs p of Some q \<Rightarrow> q | None \<Rightarrow> p)"

section \<open>Scopes are normalised\<close>

definition scope_wf :: "scope \<Rightarrow> bool" where
  "scope_wf s \<longleftrightarrow> (scope_src s = Unknown \<longleftrightarrow> scope_paths s = []) \<and>
     sorted_wrt (<) (map components (scope_paths s))"

lemma scope_wf_unknown [simp]: "scope_wf scope_unknown"
  by (simp add: scope_wf_def scope_unknown_def)

lemma scope_wf_new: "scope_wf (scope_new src ps)"
proof -
  have "sorted_wrt (<) (map components (dedup_by components (sort_key components ps)))"
    by (rule dedup_by_sorted) simp
  then show ?thesis by (auto simp: scope_new_def Let_def scope_wf_def scope_unknown_def)
qed

lemma scope_new_paths: "set (scope_paths (scope_new src ps)) \<subseteq> set ps"
  using dedup_by_set [of components "sort_key components ps"]
  by (auto simp: scope_new_def scope_unknown_def Let_def)

lemma scope_new_src: "scope_src (scope_new src ps) = (if ps = [] then Unknown else src)"
  by (auto simp: scope_new_def scope_unknown_def Let_def)

lemma resolve_wf: "scope_wf (resolve r)"
  by (auto simp: resolve_def scope_wf_new split: option.splits)

section \<open>Properties\<close>

text \<open>
  Scope keys do not collide.  For well-formed scopes over text paths without the
  separator byte, two scopes have the same key exactly when they cover the same paths: a decision
  stored under a key cannot apply to another set of directories.\<close>

theorem scope_key_injective:
  assumes "scope_wf s" "scope_wf s'"
    and "\<forall>p \<in> set (scope_paths s) \<union> set (scope_paths s'). utf8_valid p \<and> KEY_SEP \<notin> set p"
  shows "scope_key s = scope_key s' \<longleftrightarrow> scope_paths s = scope_paths s'"
proof
  assume eq: "scope_key s = scope_key s'"
  have l: "map utf8_lossy (scope_paths t) = scope_paths t" if "t = s \<or> t = s'" for t
    using that assms(3) by (intro map_idI utf8_lossy_valid) blast
  consider "scope_paths s = []" | "scope_paths s' = []" | "scope_paths s \<noteq> []" "scope_paths s' \<noteq> []"
    by blast
  then show "scope_paths s = scope_paths s'"
  proof cases
    case 3
    with eq l have "join_with [KEY_SEP] (scope_paths s) = join_with [KEY_SEP] (scope_paths s')"
      by (simp add: scope_key_def)
    then show ?thesis using 3 assms(3) by (intro join_with_inject) auto
  qed (use eq in \<open>auto simp: scope_key_def split: if_splits\<close>)
qed (simp add: scope_key_def)

theorem scope_key_injective_witness:
  "scope_key (scope_new Cwd [''/b'', ''/a'', ''/b/'']) = scope_key (scope_new Roots [''/a'', ''/b'']) \<longleftrightarrow>
   scope_paths (scope_new Cwd [''/b'', ''/a'', ''/b/'']) = scope_paths (scope_new Roots [''/a'', ''/b''])"
proof (rule scope_key_injective [OF scope_wf_new scope_wf_new])
  have "set (scope_paths (scope_new Cwd [''/b'', ''/a'', ''/b/''])) \<subseteq> {''/b'', ''/a'', ''/b/''}"
    "set (scope_paths (scope_new Roots [''/a'', ''/b''])) \<subseteq> {''/a'', ''/b''}"
    using scope_new_paths by fastforce+
  moreover have "\<forall>p \<in> {''/b'', ''/a'', ''/b/''}. utf8_valid p \<and> KEY_SEP \<notin> set p"
    by (auto simp: KEY_SEP_def byte_def intro!: utf8_valid_ascii)
  ultimately show "\<forall>p \<in> set (scope_paths (scope_new Cwd [''/b'', ''/a'', ''/b/''])) \<union>
      set (scope_paths (scope_new Roots [''/a'', ''/b''])). utf8_valid p \<and> KEY_SEP \<notin> set p"
    by blast
qed

text \<open>
  A permanent permission needs a trusted provenance.  A resolved scope offers \<open>forever\<close>
  exactly when a project was injected or roots were observed, and then every path in it is the
  injected one or an observed root; the inherited working directory never enters.\<close>

theorem forever_only_from_trusted_signals:
  "if allows_forever (resolve r)
   then (case sr_injected r of
           Some p \<Rightarrow> set (scope_paths (resolve r)) \<subseteq> {p}
         | None \<Rightarrow> sr_roots r \<noteq> [] \<and> set (scope_paths (resolve r)) \<subseteq> set (sr_roots r))
   else sr_injected r = None \<and> sr_roots r = []"
proof (cases "sr_injected r")
  case (Some p)
  with scope_new_paths [of Injected "[p]"] show ?thesis
    by (simp add: resolve_def allows_forever_def scope_new_src)
next
  case None
  show ?thesis
  proof (cases "sr_roots r = []")
    case True
    with None show ?thesis
      by (simp add: resolve_def allows_forever_def scope_new_src scope_unknown_def split: option.splits)
  next
    case False
    with None scope_new_paths [of Roots "sr_roots r"] show ?thesis
      by (simp add: resolve_def allows_forever_def scope_new_src)
  qed
qed

section \<open>Root URIs: soundness and round trip\<close>

lemma nth_in_snoc: "byte c < lo \<Longrightarrow> nth_in lo hi n (s @ [c]) = nth_in lo hi n s"
proof (induction lo hi n s rule: nth_in.induct)
  case (1 lo hi n)
  then show ?case by (cases n) auto
qed auto

lemma utf8_step_snoc: "byte c < 128 \<Longrightarrow> s \<noteq> [] \<Longrightarrow> utf8_step (s @ [c]) = utf8_step s"
proof -
  assume c: "byte c < 128" and s: "s \<noteq> []"
  have lo: "128 \<le> second_lo b" for b by (simp add: second_lo_def)
  have "nth_in (second_lo b) hi n (s @ [c]) = nth_in (second_lo b) hi n s" for b hi n
    using c lo [of b] by (intro nth_in_snoc) simp
  moreover have "nth_in 128 hi n (s @ [c]) = nth_in 128 hi n s" for hi n
    using c by (rule nth_in_snoc)
  ultimately show ?thesis using s by (simp add: utf8_step_def)
qed

lemma utf8_valid_snoc: "byte c < 128 \<Longrightarrow> utf8_valid (s @ [c]) \<Longrightarrow> utf8_valid s"
proof (induction s rule: utf8_valid.induct)
  case (1 s)
  show ?case
  proof (cases "s = []")
    case False
    with 1 have st: "fst (utf8_step s)" "utf8_valid (drop (snd (utf8_step s)) (s @ [c]))"
      by (auto simp: utf8_valid.simps [of "s @ [c]"] utf8_step_snoc)
    with False have "snd (utf8_step s) \<le> length s" by (simp add: utf8_step_len)
    with st have "utf8_valid (drop (snd (utf8_step s)) s @ [c])" by simp
    with 1 False have "utf8_valid (drop (snd (utf8_step s)) s)" by blast
    with st(1) False show ?thesis by (subst utf8_valid.simps) simp
  qed simp
qed

lemma utf8_valid_replicate: "byte c < 128 \<Longrightarrow> utf8_valid (s @ replicate n c) \<Longrightarrow> utf8_valid s"
proof (induction n)
  case (Suc n)
  have "s @ replicate (Suc n) c = (s @ replicate n c) @ [c]"
    by (simp add: replicate_append_same)
  with Suc.prems have "utf8_valid (s @ replicate n c)"
    by (metis utf8_valid_snoc)
  with Suc show ?case by blast
qed simp

lemma local_path_root: "local_path r = Some p \<Longrightarrow> \<exists>q. p = CHR ''/'' # q"
  by (auto simp: local_path_def split: option.splits if_splits)

text \<open>
  A root that becomes a permission key is a clean local path: whatever the URI, a path that
  \<open>parse_root_uri\<close> returns is absolute, well-formed text, free of NUL bytes, and has no trailing
  slash unless it is the root directory itself.\<close>

theorem parse_root_uri_sound:
  assumes "parse_root_uri uri = Some p"
  shows "is_absolute p \<and> utf8_valid p \<and> CHR 0x00 \<notin> set p \<and> (p = ''/'' \<or> last p \<noteq> CHR ''/'')"
proof -
  obtain rest path dec where d: "local_path rest = Some path" "percent_decode path = Some dec"
    "utf8_valid dec" "CHR 0x00 \<notin> set dec"
    and p: "p = (if trim_end_matches (CHR ''/'') dec = [] then ''/'' else trim_end_matches (CHR ''/'') dec)"
    using assms by (auto simp: parse_root_uri_def Let_def bind_eq_Some_conv split: if_splits)
  define t where "t = trim_end_matches (CHR ''/'') dec"
  obtain q where "path = CHR ''/'' # q" using local_path_root [OF d(1)] by blast
  then obtain dq where dec: "dec = CHR ''/'' # dq" using d(2) by auto
  obtain n where n: "dec = t @ replicate n (CHR ''/'')"
    using trim_end_prefix unfolding t_def by blast
  show ?thesis
  proof (cases "t = []")
    case True
    have "utf8_valid ''/''" by (rule utf8_valid_ascii) (simp add: byte_def)
    with True p show ?thesis by (simp add: t_def is_absolute_def starts_with_def)
  next
    case False
    have "byte (CHR ''/'') < 128" by (simp add: byte_def)
    then have "utf8_valid t" using d(3) n by (metis utf8_valid_replicate)
    moreover have "is_absolute t"
      using False dec n by (cases t) (auto simp: is_absolute_def starts_with_def)
    moreover have "CHR 0x00 \<notin> set t" using d(4) n by auto
    moreover have "last t \<noteq> CHR ''/''" using False trim_end_last unfolding t_def by blast
    ultimately show ?thesis using False p by (simp add: t_def)
  qed
qed

theorem parse_root_uri_sound_witness:
  "parse_root_uri ''FILE://localhost/a%20b/?x'' = Some ''/a b'' \<and> is_absolute ''/a b'' \<and> utf8_valid ''/a b'' \<and>
   CHR 0x00 \<notin> set ''/a b'' \<and> last ''/a b'' \<noteq> CHR ''/''"
proof -
  have p: "parse_root_uri ''FILE://localhost/a%20b/?x'' = Some ''/a b''" by code_simp
  from parse_root_uri_sound [OF p] p show ?thesis by simp
qed

text \<open>The encoder of the URI specification, to state the round trip: unreserved bytes and slashes as
  they are, every other byte as two upper-case hexadecimal digits.\<close>

definition hex_char :: "nat \<Rightarrow> char" where
  "hex_char n = (if n < 10 then char_of (48 + n) else char_of (55 + n))"

definition unreserved :: "char \<Rightarrow> bool" where
  "unreserved c \<longleftrightarrow> is_ascii_alphanumeric c \<or> c \<in> set ''/-_.~''"

definition percent_encode :: "bytes \<Rightarrow> bytes" where
  "percent_encode s = concat (map (\<lambda>c. if unreserved c then [c]
     else [CHR ''%'', hex_char (byte c div 16), hex_char (byte c mod 16)]) s)"

lemma byte_less [simp]: "byte c < 256"
  by (simp add: byte_def)

lemma byte_char_of: "n < 256 \<Longrightarrow> byte (char_of n) = n"
  by (simp add: byte_def)

lemma hex_digit_char: "n < 16 \<Longrightarrow> hex_digit (hex_char n) = Some n"
  by (auto simp: hex_char_def hex_digit_def is_ascii_digit_def byte_char_of)

lemma unreserved_not_special: "unreserved c \<Longrightarrow> c \<notin> {CHR ''%'', CHR ''?'', CHR ''#''}"
  by (auto simp: unreserved_def is_ascii_alphanumeric_def is_ascii_upper_def is_ascii_lower_def
      is_ascii_digit_def byte_def)

lemma percent_decode_encode: "percent_decode (percent_encode s) = Some s"
proof (induction s)
  case (Cons c s)
  have b: "byte c div 16 < 16" by (simp add: less_mult_imp_div_less)
  show ?case
  proof (cases "unreserved c")
    case True
    with Cons unreserved_not_special [OF True] show ?thesis by (simp add: percent_encode_def)
  next
    case False
    have "char_of (byte c div 16 * 16 + byte c mod 16) = c"
      by (simp add: byte_def)
    with Cons False b show ?thesis by (simp add: percent_encode_def hex_digit_char)
  qed
qed (simp add: percent_encode_def)

lemma hex_char_not_special: "n < 16 \<Longrightarrow> hex_char n \<notin> {CHR ''?'', CHR ''#''}"
proof -
  assume "n < 16"
  then have "byte (hex_char n) \<notin> {63, 35}" by (auto simp: hex_char_def byte_char_of)
  then show ?thesis by (auto simp: byte_def)
qed

lemma percent_encode_clean: "c \<in> set (percent_encode s) \<Longrightarrow> c \<noteq> CHR ''?'' \<and> c \<noteq> CHR ''#''"
proof (induction s)
  case (Cons x s)
  have "byte x div 16 < 16" by (simp add: less_mult_imp_div_less)
  then have "c \<in> {CHR ''%'', hex_char (byte x div 16), hex_char (byte x mod 16)} \<Longrightarrow> c \<noteq> CHR ''?'' \<and> c \<noteq> CHR ''#''"
    using hex_char_not_special [of "byte x div 16"] hex_char_not_special [of "byte x mod 16"] by auto
  with Cons unreserved_not_special [of x] show ?case
    by (auto simp: percent_encode_def split: if_splits)
qed (simp add: percent_encode_def)

text \<open>
  Root URIs round-trip.  The \<open>file://\<close> URI of any absolute text path (percent-encoded as the
  URI specification says) is read back as that very path.\<close>

theorem root_uri_roundtrip:
  assumes "utf8_valid p" and "CHR 0x00 \<notin> set p" and "is_absolute p" and "last p \<noteq> CHR ''/''"
  shows "parse_root_uri (''file://'' @ percent_encode p) = Some p"
proof -
  obtain q where p: "p = CHR ''/'' # q" using assms(3) by (auto simp: is_absolute_def starts_with_iff)
  have e: "percent_encode p = ''/'' @ percent_encode q"
    by (simp add: p percent_encode_def unreserved_def)
  have f: "file_rest (''file://'' @ percent_encode p) = Some (percent_encode p)"
    by (simp add: file_rest_def strip_prefix_def starts_with_def)
  have h: "split_on (\<lambda>c. c = CHR ''?'' \<or> c = CHR ''#'') (percent_encode p) = [percent_encode p]"
    using percent_encode_clean by (intro split_on_none) blast
  have l: "local_path (percent_encode p) = Some (percent_encode p)"
    by (simp add: local_path_def e strip_prefix_def starts_with_def)
  have t: "trim_end_matches (CHR ''/'') p = p"
  proof -
    have "p \<noteq> []" by (simp add: p)
    then obtain r z where "p = r @ [z]" by (metis rev_exhaust)
    with assms(4) show ?thesis by (simp add: trim_end_matches_def)
  qed
  show ?thesis
    using assms(1,2) f h l t p by (simp add: parse_root_uri_def percent_decode_encode)
qed

theorem root_uri_roundtrip_witness:
  "parse_root_uri (''file://'' @ percent_encode ''/a b?c'') = Some ''/a b?c''"
  by (rule root_uri_roundtrip) (auto simp: is_absolute_def starts_with_def byte_def intro!: utf8_valid_ascii)

end
