(* ===== verification/Drift.thy ===== *)
theory Drift
  imports Json "HOL-Library.Multiset"
begin

text \<open>
  \<open>protocol/drift.rs\<close>: what a tool's advertisement hashes to, and the rendering under the hash.
  SHA-256 (rendered as hex) and the printer of JSON scalars are parameters.
\<close>

section \<open>Definitions\<close>

record tool_digest =
  td_name :: bytes
  td_sha256 :: bytes

function canonical :: "printer \<Rightarrow> json \<Rightarrow> bytes" where
  "canonical render (JObject m) =
     ''{'' @ join_with '','' (map (\<lambda>(k, v). render (JString k) @ '':'' @ canonical render v) (sort_key fst m)) @ ''}''"
| "canonical render (JArray items) = ''['' @ join_with '','' (map (canonical render) items) @ '']''"
| "canonical render JNull = render JNull"
| "canonical render (JBool b) = render (JBool b)"
| "canonical render (JNumber n) = render (JNumber n)"
| "canonical render (JString s) = render (JString s)"
  by pat_completeness auto

termination canonical
  by (relation "measure (\<lambda>(r, v). size v)")
    (auto simp: less_Suc_eq_le size_list_estimation' dest: size_object)

definition text_of :: "json option \<Rightarrow> bytes" where
  "text_of v = (case Option.bind v as_str of Some s \<Rightarrow> s | None \<Rightarrow> [])"

text \<open>The bytes fed to the hash, in the order of the \<open>update\<close> calls.\<close>

definition digest_input :: "printer \<Rightarrow> json \<Rightarrow> bytes" where
  "digest_input render tool =
     ''mcpwall/tool/v1'' @ [NL] @ text_of (jget ''name'' tool) @ [NL] @
     text_of (jget ''description'' tool) @ [NL] @
     (case jget ''inputSchema'' tool of Some schema \<Rightarrow> canonical render schema | None \<Rightarrow> [])"

definition digest :: "(bytes \<Rightarrow> bytes) \<Rightarrow> printer \<Rightarrow> json \<Rightarrow> bytes" where
  "digest sha render tool = sha (digest_input render tool)"

definition tool_entry :: "(bytes \<Rightarrow> bytes) \<Rightarrow> printer \<Rightarrow> json \<Rightarrow> tool_digest option" where
  "tool_entry sha render t =
     (case Option.bind (jget ''name'' t) as_str of
        None \<Rightarrow> None
      | Some name \<Rightarrow> Some \<lparr>td_name = name, td_sha256 = digest sha render t\<rparr>)"

definition tools_in_response :: "parser \<Rightarrow> (bytes \<Rightarrow> bytes) \<Rightarrow> printer \<Rightarrow> bytes \<Rightarrow> tool_digest list option" where
  "tools_in_response parse sha render frame =
     (case Option.bind (parse frame) (jpath [''result'', ''tools'']) of
        None \<Rightarrow> None
      | Some v \<Rightarrow>
          (case as_array v of
             None \<Rightarrow> None
           | Some tools \<Rightarrow>
               (let out = List.map_filter (tool_entry sha render) tools in
                if out = [] then None else Some out)))"

section \<open>The order of object keys does not matter\<close>

text \<open>Two values that differ only in the order of the keys of their objects, at any depth.\<close>

inductive reordered :: "json \<Rightarrow> json \<Rightarrow> bool" where
  scalar: "reordered v v"
| array: "list_all2 reordered xs ys \<Longrightarrow> reordered (JArray xs) (JArray ys)"
| object: "list_all2 (\<lambda>x y. fst x = fst y \<and> reordered (snd x) (snd y)) m m' \<Longrightarrow> distinct (map fst m) \<Longrightarrow>
    mset m' = mset m'' \<Longrightarrow> reordered (JObject m) (JObject m'')"
  monos list_all2_mono

lemma sort_key_mset:
  assumes "distinct (map fst xs)" "mset xs = mset ys"
  shows "sort_key fst xs = sort_key fst ys"
proof (rule properties_for_sort_key)
  show "mset (sort_key fst ys) = mset xs" using assms by simp
  show "sorted (map fst (sort_key fst ys))" by simp
  fix k assume k: "k \<in> set (sort_key fst ys)"
  have d: "distinct (map fst ys)"
    using assms by (metis mset_eq_imp_distinct_iff mset_map)
  have one: "distinct (map fst zs) \<Longrightarrow> k \<in> set zs \<Longrightarrow> filter (\<lambda>x. fst k = fst x) zs = [k]" for zs
    by (induction zs) (auto simp: filter_empty_conv rev_image_eqI)
  have "k \<in> set xs" using k assms(2) by (metis set_mset_mset set_sort)
  moreover have "distinct (map fst (sort_key fst ys))"
    using d by (metis mset_eq_imp_distinct_iff mset_map mset_sort)
  ultimately show "filter (\<lambda>x. fst k = fst x) (sort_key fst ys) = filter (\<lambda>x. fst k = fst x) xs"
    using one assms(1) k by simp
qed

lemma insort_key_map_snd:
  "insort_key fst (fst x, g x) (map (\<lambda>y. (fst y, g y)) ys) = map (\<lambda>y. (fst y, g y)) (insort_key fst x ys)"
  by (induction ys) auto

lemma sort_key_map_snd:
  "sort_key fst (map (\<lambda>y. (fst y, g y)) xs) = map (\<lambda>y. (fst y, g y)) (sort_key fst xs)"
  by (induction xs) (simp_all add: insort_key_map_snd)

definition member_text :: "printer \<Rightarrow> bytes \<times> json \<Rightarrow> bytes" where
  "member_text render = (\<lambda>(k, v). render (JString k) @ '':'' @ canonical render v)"

lemma canonical_object:
  "canonical render (JObject m) = ''{'' @ join_with '','' (map (\<lambda>(k, c). render (JString k) @ '':'' @ c)
     (sort_key fst (map (\<lambda>y. (fst y, canonical render (snd y))) m))) @ ''}''"
  by (simp add: sort_key_map_snd split_def comp_def)

text \<open>
  The rendering that is hashed does not depend on the order in which a JSON library hands over
  the keys of an object: two values that agree up to the order of object keys, at any depth, have
  the same canonical text, hence two advertisements with such schemas the same digest.
\<close>

theorem canonical_ignores_key_order:
  assumes "reordered v w"
  shows "canonical render v = canonical render w"
  using assms
proof (induction rule: reordered.induct)
  case (array xs ys)
  then have "map (canonical render) xs = map (canonical render) ys"
    by (auto simp: list_all2_conv_all_nth intro: nth_equalityI)
  then show ?case by simp
next
  case (object m m' m'')
  let ?g = "\<lambda>y. (fst y, canonical render (snd y))"
  have "map ?g m = map ?g m'"
    using object(1) by (fastforce simp: list_all2_conv_all_nth split_def intro: nth_equalityI)
  moreover have "map fst m = map fst m'"
    using object(1) by (fastforce simp: list_all2_conv_all_nth split_def intro: nth_equalityI)
  moreover have "sort_key fst m' = sort_key fst m''"
    using sort_key_mset object calculation(2) by metis
  ultimately show ?case unfolding canonical_object by (simp add: sort_key_map_snd)
qed simp

theorem canonical_ignores_key_order_witness:
  "canonical (\<lambda>_. ''x'') (JObject [(''b'', JArray [JObject [(''q'', JNull), (''p'', JBool True)]]), (''a'', JNull)]) =
   canonical (\<lambda>_. ''x'') (JObject [(''a'', JNull), (''b'', JArray [JObject [(''p'', JBool True), (''q'', JNull)]])])"
proof (rule canonical_ignores_key_order)
  have "reordered (JObject [(''q'', JNull), (''p'', JBool True)]) (JObject [(''p'', JBool True), (''q'', JNull)])"
    by (rule object [where m' = "[(''q'', JNull), (''p'', JBool True)]"]) (auto intro: scalar)
  then have "reordered (JArray [JObject [(''q'', JNull), (''p'', JBool True)]])
      (JArray [JObject [(''p'', JBool True), (''q'', JNull)]])"
    by (intro array) simp
  then show "reordered (JObject [(''b'', JArray [JObject [(''q'', JNull), (''p'', JBool True)]]), (''a'', JNull)])
    (JObject [(''a'', JNull), (''b'', JArray [JObject [(''p'', JBool True), (''q'', JNull)]])])"
    by (intro object [where m' = "[(''b'', JArray [JObject [(''p'', JBool True), (''q'', JNull)]]), (''a'', JNull)]"])
      (auto intro: scalar)
qed

section \<open>What a digest tells apart\<close>

definition schema_text :: "printer \<Rightarrow> json \<Rightarrow> bytes" where
  "schema_text render tool =
     (case jget ''inputSchema'' tool of Some schema \<Rightarrow> canonical render schema | None \<Rightarrow> [])"

definition description_text :: "json \<Rightarrow> bytes" where
  "description_text tool = text_of (jget ''description'' tool)"

lemma set_join_with: "set (join_with sep xss) \<subseteq> set sep \<union> \<Union> (set ` set xss)"
  by (induction sep xss rule: join_with.induct) auto

lemma canonical_one_line:
  assumes "\<And>v. NL \<notin> set (render v)"
  shows "NL \<notin> set (canonical render v)"
  using assms
proof (induction render v rule: canonical.induct)
  case (1 render m)
  have "NL \<notin> set (member_text render (k, v))" if "(k, v) \<in> set m" for k v
    using 1(1) [of "(k, v)" k v] 1(2) that by (simp add: member_text_def)
  then have "NL \<notin> set (join_with '','' (map (member_text render) (sort_key fst m)))"
    using set_join_with [of "'',''" "map (member_text render) (sort_key fst m)"] by fastforce
  then show ?case by (simp add: member_text_def)
next
  case (2 render items)
  have "NL \<notin> set (join_with '','' (map (canonical render) items))"
    using set_join_with [of "'',''" "map (canonical render) items"] 2 by fastforce
  then show ?case by simp
qed simp_all

lemma digest_pins:
  assumes "\<And>v. NL \<notin> set (render v)"
    and "sha (digest_input render t) = sha (digest_input render t') \<Longrightarrow>
         digest_input render t = digest_input render t'"
    and "text_of (jget ''name'' t) = text_of (jget ''name'' t')"
    and "digest sha render t = digest sha render t'"
  shows "description_text t = description_text t' \<and> schema_text render t = schema_text render t'"
proof -
  have line: "NL \<notin> set (schema_text render u)" for u
    using canonical_one_line [OF assms(1)] by (simp add: schema_text_def split: option.splits)
  have "description_text t @ [NL] @ schema_text render t = description_text t' @ [NL] @ schema_text render t'"
    using assms(2-4) by (simp add: digest_def digest_input_def schema_text_def description_text_def)
  then show ?thesis
    using last_separator [of NL "schema_text render t" "schema_text render t'"] line by simp
qed

text \<open>
  No change of the description or of the input schema goes unseen: two advertisements of the
  same tool name whose digests agree carry the same description and the same canonical schema,
  provided the hash does not collide on the two inputs and the JSON printer emits no raw newline
  (it escapes control characters).
\<close>

theorem drift_is_visible:
  assumes "\<And>v. NL \<notin> set (render v)"
    and "sha (digest_input render t) = sha (digest_input render t') \<Longrightarrow>
         digest_input render t = digest_input render t'"
    and "text_of (jget ''name'' t) = text_of (jget ''name'' t')"
    and "digest sha render t = digest sha render t'"
  shows "description_text t = description_text t' \<and> schema_text render t = schema_text render t'"
  using assms by (rule digest_pins)

theorem drift_is_visible_witness:
  "description_text (jobject [(''name'', JString ''t''), (''description'', JString (''a'' @ [NL] @ ''b'')),
       (''inputSchema'', jobject [(''x'', JNull), (''y'', JNull)])]) =
     description_text (jobject [(''inputSchema'', JObject [(''y'', JNull), (''x'', JNull)]), (''name'', JString ''t''),
       (''description'', JString (''a'' @ [NL] @ ''b''))]) \<and>
   schema_text (\<lambda>v. case v of JString s \<Rightarrow> ''$'' @ filter (\<lambda>c. c \<noteq> NL) s | _ \<Rightarrow> ''null'')
     (jobject [(''name'', JString ''t''), (''description'', JString (''a'' @ [NL] @ ''b'')),
       (''inputSchema'', jobject [(''x'', JNull), (''y'', JNull)])]) =
   schema_text (\<lambda>v. case v of JString s \<Rightarrow> ''$'' @ filter (\<lambda>c. c \<noteq> NL) s | _ \<Rightarrow> ''null'')
     (jobject [(''inputSchema'', JObject [(''y'', JNull), (''x'', JNull)]), (''name'', JString ''t''),
       (''description'', JString (''a'' @ [NL] @ ''b''))])"
  by (rule drift_is_visible [where sha = "\<lambda>x. x"])
    (simp_all add: digest_def jget_jobject text_of_def digest_input_def jobject_def less_list_code
      split: json.splits)

text \<open>
  A digest does not pin the name: since a newline separates the fields and a JSON string may
  contain one, moving the text after a newline of the name into the description gives another tool
  with the very same digest, whatever the hash.
\<close>

theorem digest_replays_across_names:
  "digest sha render (jobject [(''name'', JString (a @ [NL] @ b)), (''description'', JString c)]) =
   digest sha render (jobject [(''name'', JString a), (''description'', JString (b @ [NL] @ c))])"
  by (simp add: digest_def digest_input_def jget_jobject text_of_def)

end
