(* ===== verification/Taint.thy ===== *)
theory Taint
  imports Prelude
begin

unbundle bit_operations_syntax

text \<open>
  \<open>protocol/taint.rs\<close>: fingerprints of what local reads returned, and their recognition in what is
  about to leave.  Hashes are \<open>u64\<close> words.  An \<open>Instant\<close> is a number of nanoseconds; its
  \<open>duration_since\<close> saturates at zero, as subtraction on naturals does.  A \<open>HashMap\<close> is an
  association list with distinct keys (its iteration order is never used).
\<close>

section \<open>Fingerprints\<close>

definition SHINGLE_WORDS :: nat where "SHINGLE_WORDS = 8"
definition TTL :: nat where "TTL = 600 * 1000000000"
definition MIN_NGRAM_OVERLAP :: nat where "MIN_NGRAM_OVERLAP = 2"
definition MIN_TOKEN_LEN :: nat where "MIN_TOKEN_LEN = 24"
definition MAX_NGRAMS :: nat where "MAX_NGRAMS = 4000"
definition USIZE_MAX :: nat where "USIZE_MAX = 2 ^ 64 - 1"

definition fnv1a :: "bytes \<Rightarrow> u64" where
  "fnv1a bs = fold (\<lambda>b h. (h XOR word_of_nat (byte b)) * 0x00000100000001b3) bs 0xcbf29ce484222325"

record fingerprint =
  ngrams :: "u64 list"
  tokens :: "u64 list"

definition fp_is_empty :: "fingerprint \<Rightarrow> bool" where
  "fp_is_empty fp \<longleftrightarrow> ngrams fp = [] \<and> tokens fp = []"

definition capped :: "fingerprint \<Rightarrow> fingerprint" where
  "capped fp = fp\<lparr>ngrams := take MAX_NGRAMS (ngrams fp)\<rparr>"

text \<open>
  \<open>candidate_tokens\<close> splits a \<open>str\<close> by character; since every byte of a non-ASCII character is a
  separator and empty pieces are dropped, splitting by byte gives the same tokens.
\<close>

definition token_char :: "char \<Rightarrow> bool" where
  "token_char c \<longleftrightarrow> is_ascii_alphanumeric c \<or> c \<in> {CHR ''_'', CHR ''-'', CHR ''.'', CHR ''+'', CHR ''/''}"

definition candidate_tokens :: "bytes \<Rightarrow> bytes list" where
  "candidate_tokens text = filter (\<lambda>t. t \<noteq> []) (split_on (\<lambda>c. \<not> token_char c) text)"

definition split_whitespace :: "bytes \<Rightarrow> bytes list" where
  "split_whitespace text =
     filter (\<lambda>w. w \<noteq> []) (map concat (split_on (\<lambda>ch. ch \<in> set ws_chars) (utf8_chars text)))"

definition dedup :: "u64 list \<Rightarrow> u64 list" where
  "dedup xs = dedup_by (\<lambda>x. x) xs"

definition fingerprint_of :: "bytes \<Rightarrow> fingerprint" where
  "fingerprint_of text =
     (let words = split_whitespace text in
      \<lparr>ngrams = dedup (sort (if SHINGLE_WORDS \<le> length words
                   then map (\<lambda>w. fnv1a (join_with '' '' w)) (windows SHINGLE_WORDS words) else [])),
       tokens = dedup (sort (map fnv1a (filter (\<lambda>t. MIN_TOKEN_LEN \<le> length t) (candidate_tokens text))))\<rparr>)"

section \<open>The store\<close>

record origin =
  o_label :: bytes
  o_at :: nat

record taint_match =
  m_origin :: bytes
  m_strength :: nat

record taint_store =
  ts_ngrams :: "(u64 \<times> origin) list"
  ts_tokens :: "(u64 \<times> origin) list"

definition taint_new :: taint_store where
  "taint_new = \<lparr>ts_ngrams = [], ts_tokens = []\<rparr>"

definition fresh :: "nat \<Rightarrow> origin \<Rightarrow> bool" where
  "fresh now o' \<longleftrightarrow> now - o_at o' < TTL"

definition prune :: "nat \<Rightarrow> taint_store \<Rightarrow> taint_store" where
  "prune now st = \<lparr>ts_ngrams = filter (\<lambda>(h, o'). fresh now o') (ts_ngrams st),
     ts_tokens = filter (\<lambda>(h, o'). fresh now o') (ts_tokens st)\<rparr>"

definition insert_all :: "origin \<Rightarrow> u64 list \<Rightarrow> (u64 \<times> origin) list \<Rightarrow> (u64 \<times> origin) list" where
  "insert_all o' hs m = fold (\<lambda>h. AList.update h o') hs m"

definition taint_record :: "fingerprint \<Rightarrow> bytes \<Rightarrow> nat \<Rightarrow> taint_store \<Rightarrow> taint_store" where
  "taint_record fp lbl now st =
     (let st' = prune now st; o' = \<lparr>o_label = lbl, o_at = now\<rparr> in
      \<lparr>ts_ngrams = insert_all o' (ngrams fp) (ts_ngrams st'),
       ts_tokens = insert_all o' (tokens fp) (ts_tokens st')\<rparr>)"

definition fresh_hit :: "nat \<Rightarrow> (u64 \<times> origin) list \<Rightarrow> u64 \<Rightarrow> origin option" where
  "fresh_hit now m h = (case map_of m h of Some o' \<Rightarrow> if fresh now o' then Some o' else None | None \<Rightarrow> None)"

definition overlap :: "taint_store \<Rightarrow> fingerprint \<Rightarrow> nat \<Rightarrow> taint_match option" where
  "overlap st fp now =
     (case find_map (fresh_hit now (ts_tokens st)) (tokens fp) of
        Some o' \<Rightarrow> Some \<lparr>m_origin = o_label o', m_strength = USIZE_MAX\<rparr>
      | None \<Rightarrow>
          (let hits = List.map_filter (fresh_hit now (ts_ngrams st)) (ngrams fp) in
           if MIN_NGRAM_OVERLAP \<le> length hits
           then Some \<lparr>m_origin = o_label (hd hits), m_strength = length hits\<rparr> else None))"

definition store_len :: "taint_store \<Rightarrow> nat" where
  "store_len st = length (ts_ngrams st) + length (ts_tokens st)"

definition store_is_empty :: "taint_store \<Rightarrow> bool" where
  "store_is_empty st \<longleftrightarrow> store_len st = 0"

definition is_local_read :: "bytes \<Rightarrow> bytes option \<Rightarrow> bool" where
  "is_local_read meth tool =
     (if meth = ''resources/read'' then True
      else (case tool of
              None \<Rightarrow> False
            | Some t \<Rightarrow> (let l = to_ascii_lowercase t in
                contains_sub l ''read'' \<or> contains_sub l ''file'' \<or> contains_sub l ''exec'')))"

section \<open>Lemmas\<close>

lemma set_dedup [simp]: "set (dedup xs) = set xs"
  using dedup_by_map [of "\<lambda>x. x" xs] by (simp add: dedup_def)

lemma sorted_dedup: "sorted xs \<Longrightarrow> sorted_wrt (<) (dedup xs)"
  using dedup_by_sorted [of "\<lambda>x. x" xs] by (simp add: dedup_def)

lemma tokens_fingerprint:
  "set (tokens (fingerprint_of text)) = fnv1a ` {t \<in> set (candidate_tokens text). MIN_TOKEN_LEN \<le> length t}"
  by (simp add: fingerprint_of_def Let_def)

lemma ngrams_fingerprint:
  "SHINGLE_WORDS \<le> length (split_whitespace text) \<Longrightarrow>
   set (ngrams (fingerprint_of text)) =
     (\<lambda>w. fnv1a (join_with '' '' w)) ` set (windows SHINGLE_WORDS (split_whitespace text))"
  by (simp add: fingerprint_of_def Let_def)

lemma length_dedup: "length (dedup xs) \<le> length xs"
  unfolding dedup_def by (induction "\<lambda>x :: u64. x" xs rule: dedup_by.induct) auto

lemma length_ngrams: "length (ngrams (fingerprint_of text)) \<le> length (split_whitespace text)"
  by (auto simp: fingerprint_of_def Let_def windows_def SHINGLE_WORDS_def
      intro: order_trans [OF length_dedup])

lemma map_of_insert_all:
  "map_of (insert_all o' hs m) h = (if h \<in> set hs then Some o' else map_of m h)"
  unfolding insert_all_def
  by (induction hs arbitrary: m) (auto simp: update_conv')

lemma map_of_pruned:
  "distinct (map fst m) \<Longrightarrow>
   map_of (filter (\<lambda>(h, o'). fresh now o') m) h =
     (case map_of m h of Some o' \<Rightarrow> if fresh now o' then Some o' else None | None \<Rightarrow> None)"
proof (induction m)
  case (Cons a m)
  obtain k o' where a: "a = (k, o')" by force
  have "h = k \<Longrightarrow> map_of m h = None" using Cons.prems a by (simp add: map_of_eq_None_iff)
  with Cons a show ?case by (auto split: option.splits)
qed simp

text \<open>The store is a map: its keys are distinct, and every operation keeps them so.\<close>

definition store_wf :: "taint_store \<Rightarrow> bool" where
  "store_wf st \<longleftrightarrow> distinct (map fst (ts_ngrams st)) \<and> distinct (map fst (ts_tokens st))"

lemma distinct_pruned:
  "distinct (map fst m) \<Longrightarrow> distinct (map fst (filter P m))"
  by (induction m) (auto simp: image_iff)

lemma distinct_insert_all:
  "distinct (map fst m) \<Longrightarrow> distinct (map fst (insert_all o' hs m))"
  unfolding insert_all_def by (induction hs arbitrary: m) (auto simp: distinct_update)

lemma store_wf_new [simp]: "store_wf taint_new"
  by (simp add: store_wf_def taint_new_def)

lemma store_wf_prune: "store_wf st \<Longrightarrow> store_wf (prune now st)"
  by (simp add: store_wf_def prune_def distinct_pruned)

lemma store_wf_record: "store_wf st \<Longrightarrow> store_wf (taint_record fp l now st)"
  using store_wf_prune [of st now]
  by (simp add: store_wf_def taint_record_def distinct_insert_all Let_def)

section \<open>The contract of a taint memory, and what follows from it\<close>

text \<open>
  What the daemon relies on, over either of the two maps: a report at a time makes all its hashes
  known with that time, forgets nothing that is still fresh, and invents nothing.
\<close>

locale taint_memory =
  fixes recd :: "fingerprint \<Rightarrow> bytes \<Rightarrow> nat \<Rightarrow> 's \<Rightarrow> 's"
    and known :: "'s \<Rightarrow> u64 \<Rightarrow> origin option"
    and hashes :: "fingerprint \<Rightarrow> u64 list"
    and wf :: "'s \<Rightarrow> bool"
    and empty :: 's
  assumes wf_empty: "wf empty" and known_empty: "known empty h = None"
    and wf_recd: "wf s \<Longrightarrow> wf (recd fp l t s)"
    and known_recd: "wf s \<Longrightarrow> known (recd fp l t s) h =
      (if h \<in> set (hashes fp) then Some \<lparr>o_label = l, o_at = t\<rparr>
       else (case known s h of Some o' \<Rightarrow> if fresh t o' then Some o' else None | None \<Rightarrow> None))"
begin

definition replay :: "(fingerprint \<times> bytes \<times> nat) list \<Rightarrow> 's" where
  "replay hist = fold (\<lambda>(fp, l, t). recd fp l t) hist empty"

lemma replay_wf: "wf (replay hist)"
  by (induction hist rule: rev_induct) (auto simp: replay_def wf_empty wf_recd split: prod.splits)

lemma replay_snoc: "replay (hist @ [(fp, l, t)]) = recd fp l t (replay hist)"
  by (simp add: replay_def)

lemma known_origin:
  "known (replay hist) h = Some o' \<Longrightarrow>
   \<exists>fp. (fp, o_label o', o_at o') \<in> set hist \<and> h \<in> set (hashes fp)"
proof (induction hist arbitrary: o' rule: rev_induct)
  case Nil
  then show ?case by (simp add: replay_def known_empty)
next
  case (snoc e hist)
  obtain fp l t where e: "e = (fp, l, t)" by (cases e)
  from snoc show ?case
    by (fastforce simp: e replay_snoc known_recd [OF replay_wf] split: if_splits option.splits)
qed

lemma known_stays:
  "\<forall>(fp', l', t') \<in> set hist. t0 \<le> t' \<and> t' - t0 < TTL \<Longrightarrow> wf s \<Longrightarrow>
   known s h = Some o0 \<Longrightarrow> t0 \<le> o_at o0 \<Longrightarrow>
   \<exists>o'. known (fold (\<lambda>(fp, l, t). recd fp l t) hist s) h = Some o' \<and> t0 \<le> o_at o'"
proof (induction hist arbitrary: s o0)
  case (Cons e hist)
  obtain fp l t where e: "e = (fp, l, t)" by (cases e)
  have t: "t0 \<le> t" "t - t0 < TTL" and wf: "wf s" and k: "known s h = Some o0" "t0 \<le> o_at o0"
    using Cons.prems by (auto simp: e)
  then have f: "fresh t o0" by (simp add: fresh_def)
  obtain o1 where "known (recd fp l t s) h = Some o1" "t0 \<le> o_at o1"
  proof (cases "h \<in> set (hashes fp)")
    case True
    then show ?thesis using that t by (simp add: known_recd [OF wf])
  next
    case False
    then show ?thesis using that k f by (simp add: known_recd [OF wf])
  qed
  with Cons.IH [of "recd fp l t s" o1] Cons.prems wf_recd show ?case by (auto simp: e)
qed auto

end

interpretation token_memory: taint_memory taint_record "\<lambda>st. map_of (ts_tokens st)" tokens store_wf taint_new
  by unfold_locales
    (simp_all add: store_wf_record taint_new_def store_wf_def taint_record_def prune_def Let_def
      map_of_insert_all map_of_pruned distinct_pruned distinct_insert_all)

interpretation ngram_memory: taint_memory taint_record "\<lambda>st. map_of (ts_ngrams st)" ngrams store_wf taint_new
  by unfold_locales
    (simp_all add: store_wf_record taint_new_def store_wf_def taint_record_def prune_def Let_def
      map_of_insert_all map_of_pruned distinct_pruned distinct_insert_all)

section \<open>Detection\<close>

text \<open>The store after a history of reports, oldest first: what the shim measured, its label, when.\<close>

type_synonym report = "fingerprint \<times> bytes \<times> nat"

definition record_all :: "report list \<Rightarrow> taint_store" where
  "record_all hist = fold (\<lambda>(fp, l, t). taint_record fp l t) hist taint_new"

lemma token_replay: "token_memory.replay hist = record_all hist"
  by (simp add: token_memory.replay_def record_all_def)

lemma ngram_replay: "ngram_memory.replay hist = record_all hist"
  by (simp add: ngram_memory.replay_def record_all_def)

lemma record_all_split:
  "record_all (bef @ (fp, l, t0) # later) =
     fold (\<lambda>(fp, l, t). taint_record fp l t) later (taint_record fp l t0 (record_all bef))"
  by (simp add: record_all_def)

lemma record_all_wf [simp]: "store_wf (record_all hist)"
  using token_memory.replay_wf [of hist] by (simp add: token_replay)

lemma fresh_hit_Some: "fresh_hit now m h = Some o' \<longleftrightarrow> map_of m h = Some o' \<and> fresh now o'"
  by (auto simp: fresh_hit_def split: option.splits)

lemma recorded_hit:
  assumes "\<forall>(fp', l', t') \<in> set later. t0 \<le> t' \<and> t' \<le> now" and "now - t0 < TTL"
  shows "h \<in> set (tokens fp) \<Longrightarrow>
      \<exists>o'. fresh_hit now (ts_tokens (record_all (bef @ (fp, l, t0) # later))) h = Some o'"
    and "h \<in> set (ngrams fp) \<Longrightarrow>
      \<exists>o'. fresh_hit now (ts_ngrams (record_all (bef @ (fp, l, t0) # later))) h = Some o'"
proof -
  have later: "\<forall>(fp', l', t') \<in> set later. t0 \<le> t' \<and> t' - t0 < TTL"
    using assms by fastforce
  have wf: "store_wf (taint_record fp l t0 (record_all bef))" by (simp add: store_wf_record)
  have fr: "t0 \<le> o_at o' \<Longrightarrow> fresh now o'" for o'
    using assms(2) by (simp add: fresh_def)
  show "\<exists>o'. fresh_hit now (ts_tokens (record_all (bef @ (fp, l, t0) # later))) h = Some o'"
    if "h \<in> set (tokens fp)"
    using token_memory.known_stays [OF later wf, of h "\<lparr>o_label = l, o_at = t0\<rparr>"] that
      token_memory.known_recd [OF record_all_wf, of fp l t0 bef h] fr
    by (auto simp: record_all_split fresh_hit_Some)
  show "\<exists>o'. fresh_hit now (ts_ngrams (record_all (bef @ (fp, l, t0) # later))) h = Some o'"
    if "h \<in> set (ngrams fp)"
    using ngram_memory.known_stays [OF later wf, of h "\<lparr>o_label = l, o_at = t0\<rparr>"] that
      ngram_memory.known_recd [OF record_all_wf, of fp l t0 bef h] fr
    by (auto simp: record_all_split fresh_hit_Some)
qed

lemma overlap_token:
  assumes "h \<in> set (tokens fp)" "fresh_hit now (ts_tokens st) h = Some o'"
  shows "\<exists>m. overlap st fp now = Some m \<and> m_strength m = USIZE_MAX"
proof (cases "find_map (fresh_hit now (ts_tokens st)) (tokens fp)")
  case None
  then show ?thesis using assms by (simp add: find_map_None)
next
  case (Some o'')
  then show ?thesis by (simp add: overlap_def)
qed

text \<open>
  C15: a credential that was read and is about to leave is always recognised: if a token of at least
  24 bytes occurs among the tokens of a text whose (capped) fingerprint was recorded at \<open>t0\<close>, and
  among those of an outgoing text less than ten minutes later, then whatever was recorded before
  and in between, \<open>overlap\<close> answers with the strength of a token hit.
\<close>

theorem token_leak_is_caught:
  assumes "tok \<in> set (candidate_tokens text)" and "tok \<in> set (candidate_tokens out)"
    and "MIN_TOKEN_LEN \<le> length tok"
    and "\<forall>(fp', l', t') \<in> set later. t0 \<le> t' \<and> t' \<le> now" and "now - t0 < TTL"
  shows "\<exists>m. overlap (record_all (bef @ (capped (fingerprint_of text), l, t0) # later))
           (fingerprint_of out) now = Some m \<and> m_strength m = USIZE_MAX"
proof -
  have "fnv1a tok \<in> set (tokens (capped (fingerprint_of text)))"
    using assms(1,3) by (simp add: capped_def tokens_fingerprint)
  then obtain o' where
    "fresh_hit now (ts_tokens (record_all (bef @ (capped (fingerprint_of text), l, t0) # later))) (fnv1a tok)
      = Some o'"
    using recorded_hit(1) [OF assms(4,5)] by blast
  moreover have "fnv1a tok \<in> set (tokens (fingerprint_of out))"
    using assms(2,3) by (simp add: tokens_fingerprint)
  ultimately show ?thesis by (rule overlap_token [rotated])
qed

theorem token_leak_is_caught_witness:
  "\<exists>m. overlap (record_all ([(fingerprint_of ''hello'', ''a'', 1)] @
        (capped (fingerprint_of ''KEY=sk_live_abcdefghijklmnopqrst''), ''.env'', 5) #
        [(fingerprint_of ''x'', ''b'', 7)]))
      (fingerprint_of ''{\"q\":\"sk_live_abcdefghijklmnopqrst\"}'') 9 = Some m \<and> m_strength m = USIZE_MAX"
proof (rule token_leak_is_caught)
  show "''sk_live_abcdefghijklmnopqrst'' \<in> set (candidate_tokens ''KEY=sk_live_abcdefghijklmnopqrst'')"
    by code_simp
  show "''sk_live_abcdefghijklmnopqrst'' \<in> set (candidate_tokens ''{\"q\":\"sk_live_abcdefghijklmnopqrst\"}'')"
    by code_simp
qed (simp_all add: MIN_TOKEN_LEN_def TTL_def)

text \<open>A read recorded less than the TTL ago that carries a hash.\<close>

definition recent_token :: "report list \<Rightarrow> nat \<Rightarrow> bytes \<Rightarrow> u64 \<Rightarrow> bool" where
  "recent_token hist now l h \<longleftrightarrow>
     (\<exists>fp t. (fp, l, t) \<in> set hist \<and> now - t < TTL \<and> h \<in> set (tokens fp))"

definition recent_ngram :: "report list \<Rightarrow> nat \<Rightarrow> bytes \<Rightarrow> u64 \<Rightarrow> bool" where
  "recent_ngram hist now l h \<longleftrightarrow>
     (\<exists>fp t. (fp, l, t) \<in> set hist \<and> now - t < TTL \<and> h \<in> set (ngrams fp))"

lemma hit_is_recent:
  "fresh_hit now (ts_tokens (record_all hist)) h = Some o' \<Longrightarrow> recent_token hist now (o_label o') h"
  "fresh_hit now (ts_ngrams (record_all hist)) h = Some o' \<Longrightarrow> recent_ngram hist now (o_label o') h"
  using token_memory.known_origin [of hist h o'] ngram_memory.known_origin [of hist h o']
  by (auto simp: fresh_hit_Some token_replay ngram_replay recent_token_def recent_ngram_def fresh_def)

lemma map_filter_Cons_hd:
  "List.map_filter f xs = y # ys \<Longrightarrow> \<exists>x \<in> set xs. f x = Some y"
proof -
  assume "List.map_filter f xs = y # ys"
  then have "y \<in> set (List.map_filter f xs)" by simp
  then show ?thesis by (auto simp: List.map_filter_def)
qed

lemma length_map_filter: "length (List.map_filter f xs) = length (filter (\<lambda>x. f x \<noteq> None) xs)"
  by (simp add: List.map_filter_def)

text \<open>
  An overlap is never invented: it names the label of a read that was recorded less than ten
  minutes ago and that shares a hash with the outgoing text; if no token is shared, at least two
  different shingles of the outgoing text occur in such reads, and the strength counts them.
\<close>

theorem overlap_has_a_cause:
  assumes "overlap (record_all hist) (fingerprint_of out) now = Some m"
  shows "(\<exists>h \<in> set (tokens (fingerprint_of out)). recent_token hist now (m_origin m) h) \<or>
    (2 \<le> m_strength m \<and>
     (\<exists>h \<in> set (ngrams (fingerprint_of out)). recent_ngram hist now (m_origin m) h) \<and>
     m_strength m \<le> card {h \<in> set (ngrams (fingerprint_of out)). \<exists>l. recent_ngram hist now l h})"
proof (cases "find_map (fresh_hit now (ts_tokens (record_all hist))) (tokens (fingerprint_of out))")
  case (Some o')
  then obtain h where "h \<in> set (tokens (fingerprint_of out))"
    "fresh_hit now (ts_tokens (record_all hist)) h = Some o'"
    using in_set_conv_decomp by (fastforce simp: find_map_Some)
  moreover have "m_origin m = o_label o'" using assms Some by (simp add: overlap_def) (metis taint_match.select_convs(1))
  ultimately show ?thesis using hit_is_recent(1) by (intro disjI1) metis
next
  case None
  let ?f = "fresh_hit now (ts_ngrams (record_all hist))" and ?ns = "ngrams (fingerprint_of out)"
  let ?hits = "List.map_filter ?f ?ns"
  have m: "2 \<le> length ?hits" "m = \<lparr>m_origin = o_label (hd ?hits), m_strength = length ?hits\<rparr>"
    using assms None by (auto simp: overlap_def Let_def MIN_NGRAM_OVERLAP_def split: if_splits)
  then obtain y ys where hits: "?hits = y # ys" by (cases ?hits) auto
  obtain h where h: "h \<in> set ?ns" "?f h = Some y" using map_filter_Cons_hd [OF hits] by auto
  have dist: "distinct ?ns"
    using sorted_dedup by (simp add: fingerprint_of_def Let_def strict_sorted_iff)
  have "length ?hits = card {h \<in> set ?ns. ?f h \<noteq> None}"
    using distinct_card [OF distinct_filter [OF dist, of "\<lambda>h. ?f h \<noteq> None"]]
    by (simp add: length_map_filter)
  also have "\<dots> \<le> card {h \<in> set ?ns. \<exists>l. recent_ngram hist now l h}"
  proof (rule card_mono)
    show "{h \<in> set ?ns. ?f h \<noteq> None} \<subseteq> {h \<in> set ?ns. \<exists>l. recent_ngram hist now l h}"
    proof
      fix h assume "h \<in> {h \<in> set ?ns. ?f h \<noteq> None}"
      then obtain o' where "h \<in> set ?ns" "?f h = Some o'" by blast
      then show "h \<in> {h \<in> set ?ns. \<exists>l. recent_ngram hist now l h}"
        using hit_is_recent(2) by blast
    qed
  qed simp
  finally have card: "length ?hits \<le> card {h \<in> set ?ns. \<exists>l. recent_ngram hist now l h}" .
  have "recent_ngram hist now (m_origin m) h"
    using hit_is_recent(2) [OF h(2)] m(2) hits by simp
  then show ?thesis using m card h(1) by (intro disjI2 conjI) auto
qed

theorem overlap_has_a_cause_witness:
  "\<exists>m. overlap (record_all [(fingerprint_of ''KEY=sk_live_abcdefghijklmnopqrst'', ''.env'', 5)])
      (fingerprint_of ''q=sk_live_abcdefghijklmnopqrst'') 9 = Some m \<and>
    ((\<exists>h \<in> set (tokens (fingerprint_of ''q=sk_live_abcdefghijklmnopqrst'')).
        recent_token [(fingerprint_of ''KEY=sk_live_abcdefghijklmnopqrst'', ''.env'', 5)] 9 (m_origin m) h) \<or>
     (2 \<le> m_strength m \<and>
      (\<exists>h \<in> set (ngrams (fingerprint_of ''q=sk_live_abcdefghijklmnopqrst'')).
         recent_ngram [(fingerprint_of ''KEY=sk_live_abcdefghijklmnopqrst'', ''.env'', 5)] 9 (m_origin m) h) \<and>
      m_strength m \<le> card {h \<in> set (ngrams (fingerprint_of ''q=sk_live_abcdefghijklmnopqrst'')).
        \<exists>l. recent_ngram [(fingerprint_of ''KEY=sk_live_abcdefghijklmnopqrst'', ''.env'', 5)] 9 l h}))"
proof -
  let ?r = "fingerprint_of ''KEY=sk_live_abcdefghijklmnopqrst''" and ?o = "fingerprint_of ''q=sk_live_abcdefghijklmnopqrst''"
  have hit: "fnv1a ''sk_live_abcdefghijklmnopqrst'' \<in> set (tokens ?r)"
    "fnv1a ''sk_live_abcdefghijklmnopqrst'' \<in> set (tokens ?o)"
    unfolding tokens_fingerprint by (rule imageI, code_simp)+
  have "\<exists>o'. fresh_hit 9 (ts_tokens (record_all ([] @ (?r, ''.env'', 5) # []))) (fnv1a ''sk_live_abcdefghijklmnopqrst'') = Some o'"
    by (rule recorded_hit(1)) (simp_all add: hit TTL_def)
  then obtain m where "overlap (record_all [(?r, ''.env'', 5)]) ?o 9 = Some m"
    using overlap_token [OF hit(2)] by force
  then show ?thesis using overlap_has_a_cause by blast
qed

lemma two_hits:
  assumes "distinct ns" "h1 \<in> set ns" "h2 \<in> set ns" "h1 \<noteq> h2" "f h1 \<noteq> None" "f h2 \<noteq> None"
  shows "2 \<le> length (List.map_filter f ns)"
proof -
  have "card {h1, h2} \<le> card (set (filter (\<lambda>x. f x \<noteq> None) ns))"
    by (rule card_mono) (use assms in auto)
  also have "\<dots> = length (filter (\<lambda>x. f x \<noteq> None) ns)"
    using distinct_card [OF distinct_filter [OF assms(1)]] .
  finally show ?thesis using assms(4) by (simp add: length_map_filter)
qed

lemma overlap_ngrams:
  assumes "distinct (ngrams fp)" "h1 \<in> set (ngrams fp)" "h2 \<in> set (ngrams fp)" "h1 \<noteq> h2"
    and "fresh_hit now (ts_ngrams st) h1 \<noteq> None" "fresh_hit now (ts_ngrams st) h2 \<noteq> None"
  shows "overlap st fp now \<noteq> None"
  using two_hits [OF assms]
  by (auto simp: overlap_def Let_def MIN_NGRAM_OVERLAP_def split: option.splits)

lemma shingles_of_run:
  assumes "split_whitespace text = a @ ws @ b" "length ws = Suc SHINGLE_WORDS"
  shows "fnv1a (join_with '' '' (butlast ws)) \<in> set (ngrams (fingerprint_of text))"
    and "fnv1a (join_with '' '' (tl ws)) \<in> set (ngrams (fingerprint_of text))"
proof -
  let ?w = "split_whitespace text"
  have n: "SHINGLE_WORDS \<le> length ?w" using assms by simp
  have "take SHINGLE_WORDS (drop (length a) ?w) = butlast ws"
    using assms by (simp add: butlast_conv_take)
  moreover have "take SHINGLE_WORDS (drop (Suc (length a)) ?w) = tl ws"
    using assms by (simp add: drop_Suc tl_append split: list.splits)
  ultimately have "butlast ws \<in> set (windows SHINGLE_WORDS ?w)" "tl ws \<in> set (windows SHINGLE_WORDS ?w)"
    using windows_nth [of "length a" SHINGLE_WORDS ?w] windows_nth [of "Suc (length a)" SHINGLE_WORDS ?w]
      assms by (simp_all add: SHINGLE_WORDS_def)
  then show "fnv1a (join_with '' '' (butlast ws)) \<in> set (ngrams (fingerprint_of text))"
    and "fnv1a (join_with '' '' (tl ws)) \<in> set (ngrams (fingerprint_of text))"
    using ngrams_fingerprint [OF n] by auto
qed

text \<open>
  Nine identical words in a row betray a read: if the words of a recorded text (of at most
  4000 shingles) and of an outgoing text less than ten minutes later both contain the same run of
  nine words, and its two shingles do not collide under FNV-1a, then \<open>overlap\<close> answers, whatever
  surrounds the run and whatever else was recorded.
\<close>

theorem nine_words_are_caught:
  assumes "split_whitespace text = a @ ws @ b" and "split_whitespace out = c @ ws @ d"
    and "length ws = Suc SHINGLE_WORDS"
    and "fnv1a (join_with '' '' (butlast ws)) \<noteq> fnv1a (join_with '' '' (tl ws))"
    and "length (ngrams (fingerprint_of text)) \<le> MAX_NGRAMS"
    and "\<forall>(fp', l', t') \<in> set later. t0 \<le> t' \<and> t' \<le> now" and "now - t0 < TTL"
  shows "overlap (record_all (bef @ (capped (fingerprint_of text), l, t0) # later))
           (fingerprint_of out) now \<noteq> None"
proof (rule overlap_ngrams)
  have cap: "capped (fingerprint_of text) = fingerprint_of text"
    using assms(5) by (simp add: capped_def)
  show "distinct (ngrams (fingerprint_of out))"
    using sorted_dedup by (simp add: fingerprint_of_def Let_def strict_sorted_iff)
  show "fnv1a (join_with '' '' (butlast ws)) \<in> set (ngrams (fingerprint_of out))"
    and "fnv1a (join_with '' '' (tl ws)) \<in> set (ngrams (fingerprint_of out))"
    by (rule shingles_of_run [OF assms(2,3)])+
  show "fresh_hit now (ts_ngrams (record_all (bef @ (capped (fingerprint_of text), l, t0) # later)))
      (fnv1a (join_with '' '' (butlast ws))) \<noteq> None"
    and "fresh_hit now (ts_ngrams (record_all (bef @ (capped (fingerprint_of text), l, t0) # later)))
      (fnv1a (join_with '' '' (tl ws))) \<noteq> None"
    using recorded_hit(2) [OF assms(6,7)] shingles_of_run [OF assms(1,3)] by (auto simp: cap)
qed (rule assms(4))

theorem nine_words_are_caught_witness:
  "overlap (record_all ([] @ (capped (fingerprint_of ''z a b c d e f g h i''),
       ''notes'', 5) # [])) (fingerprint_of ''y a b  c d e f g h i !'') 9 \<noteq> None"
proof (rule nine_words_are_caught [where a = "[''z'']" and b = "[]" and c = "[''y'']" and d = "[''!'']"
      and ws = "[''a'', ''b'', ''c'', ''d'', ''e'', ''f'', ''g'', ''h'', ''i'']"])
  show "split_whitespace ''z a b c d e f g h i'' =
    [''z''] @ [''a'', ''b'', ''c'', ''d'', ''e'', ''f'', ''g'', ''h'', ''i''] @ []"
    by code_simp
  show "split_whitespace ''y a b  c d e f g h i !'' =
    [''y''] @ [''a'', ''b'', ''c'', ''d'', ''e'', ''f'', ''g'', ''h'', ''i''] @ [''!'']"
    by code_simp
  show "fnv1a (join_with '' '' (butlast [''a'', ''b'', ''c'', ''d'', ''e'', ''f'', ''g'', ''h'', ''i'']))
    \<noteq> fnv1a (join_with '' '' (tl [''a'', ''b'', ''c'', ''d'', ''e'', ''f'', ''g'', ''h'', ''i'']))"
    by code_simp
  have "length (split_whitespace ''z a b c d e f g h i'') = 10"
    by code_simp
  then show "length (ngrams (fingerprint_of ''z a b c d e f g h i'')) \<le> MAX_NGRAMS"
    by (intro order_trans [OF length_ngrams]) (simp add: MAX_NGRAMS_def)
qed (simp_all add: SHINGLE_WORDS_def TTL_def)

text \<open>
  Capping keeps every token, at most 4000 shingle hashes, and among the shingles it keeps
  exactly those with the numerically smallest hashes: every hash that is dropped is larger than
  every hash that is kept.  Since hashes are sorted by value before the cut, what a large read loses
  is scattered over the text, not its tail.
\<close>

theorem capped_keeps_smallest:
  "tokens (capped (fingerprint_of text)) = tokens (fingerprint_of text) \<and>
   length (ngrams (capped (fingerprint_of text))) = min MAX_NGRAMS (length (ngrams (fingerprint_of text))) \<and>
   set (ngrams (capped (fingerprint_of text))) =
     {h \<in> set (ngrams (fingerprint_of text)).
        card {h' \<in> set (ngrams (fingerprint_of text)). h' < h} < MAX_NGRAMS}"
proof -
  let ?ns = "ngrams (fingerprint_of text)"
  have s: "sorted_wrt (<) ?ns"
    using sorted_dedup by (simp add: fingerprint_of_def Let_def)
  have rank: "card {h' \<in> set ?ns. h' < ?ns ! i} = i" if "i < length ?ns" for i
  proof -
    have "{h' \<in> set ?ns. h' < ?ns ! i} = set (take i ?ns)"
    proof (rule set_eqI, rule iffI)
      fix h assume "h \<in> {h' \<in> set ?ns. h' < ?ns ! i}"
      then obtain j where j: "j < length ?ns" "h = ?ns ! j" "?ns ! j < ?ns ! i"
        by (auto simp: in_set_conv_nth)
      then have "j < i" using s that sorted_wrt_nth_less [OF s] by (metis linorder_neqE_nat less_asym)
      then show "h \<in> set (take i ?ns)" using j that by (auto simp: in_set_conv_nth)
    next
      fix h assume "h \<in> set (take i ?ns)"
      then obtain j where "j < i" "h = ?ns ! j" using that by (auto simp: in_set_conv_nth)
      then show "h \<in> {h' \<in> set ?ns. h' < ?ns ! i}"
        using sorted_wrt_nth_less [OF s, of j i] that by simp
    qed
    moreover have "distinct (take i ?ns)" using s by (simp add: strict_sorted_iff)
    ultimately show ?thesis using distinct_card [of "take i ?ns"] that by simp
  qed
  have "set (take MAX_NGRAMS ?ns) = {h \<in> set ?ns. card {h' \<in> set ?ns. h' < h} < MAX_NGRAMS}"
  proof (rule set_eqI, rule iffI)
    fix h assume "h \<in> set (take MAX_NGRAMS ?ns)"
    then obtain j where "j < MAX_NGRAMS" "j < length ?ns" "h = ?ns ! j" by (auto simp: in_set_conv_nth)
    then show "h \<in> {h \<in> set ?ns. card {h' \<in> set ?ns. h' < h} < MAX_NGRAMS}" using rank by simp
  next
    fix h assume h: "h \<in> {h \<in> set ?ns. card {h' \<in> set ?ns. h' < h} < MAX_NGRAMS}"
    then obtain j where "j < length ?ns" "h = ?ns ! j" by (auto simp: in_set_conv_nth)
    with h rank [of j] show "h \<in> set (take MAX_NGRAMS ?ns)" by (auto simp: in_set_conv_nth)
  qed
  then show ?thesis by (simp add: capped_def min.commute)
qed

end
