(* ===== verification/Ipc.thy ===== *)
theory Ipc
  imports Json "HOL-Library.Monad_Syntax"
begin

text \<open>
  \<open>ipc/mod.rs\<close>: the messages on the Unix socket, one JSON object per line, and the handshake.  The
  codecs are what the \<open>Serialize\<close> and \<open>Deserialize\<close> derives of these types stand for: an internal
  \<open>type\<close> tag, lower-case names, options that are \<open>null\<close> or missing, unknown fields ignored.
\<close>

section \<open>The handshake\<close>

definition IPC_VERSION :: nat where "IPC_VERSION = 2"

record hello =
  h_version :: nat
  h_build :: bytes
  h_ask_timeout :: "nat option"

definition hello_default :: "bytes \<Rightarrow> hello" where
  "hello_default build = \<lparr>h_version = IPC_VERSION, h_build = build, h_ask_timeout = None\<rparr>"

definition compatible :: "hello \<Rightarrow> bool" where
  "compatible h \<longleftrightarrow> h_version h = IPC_VERSION"

section \<open>The messages\<close>

datatype ipc_until = UOnce | USession | UForever

datatype ipc_outcome = OAllow | ODeny

record tools_report =
  tr_server :: bytes
  tr_tools :: "(bytes \<times> bytes) list"

record taint_report =
  tn_origin :: bytes
  tn_ngrams :: "nat list"
  tn_tokens :: "nat list"

record decide_request =
  dq_method :: bytes
  dq_frame :: bytes
  dq_scope_key :: bytes
  dq_scope_source :: bytes
  dq_scope_paths :: "bytes list"
  dq_server :: "bytes option"
  dq_session :: int

record answer =
  an_prompt :: nat
  an_allow :: bool
  an_until :: ipc_until

datatype client_message =
  CDecide decide_request | CSubscribe | CAnswer answer | CStatus | CTaint taint_report | CTools tools_report

record decide_response =
  dr_outcome :: ipc_outcome
  dr_rule :: "bytes option"
  dr_message :: bytes
  dr_forever :: bool

record prompt =
  pr_id :: nat
  pr_method :: bytes
  pr_tool :: "bytes option"
  pr_server :: "bytes option"
  pr_preview :: bytes
  pr_rule :: "bytes option"
  pr_severity :: bytes
  pr_message :: bytes
  pr_findings :: "bytes list"
  pr_scope_key :: bytes
  pr_scope_source :: bytes
  pr_forever :: bool
  pr_timeout :: nat

record status =
  su_calls :: int
  su_blocked :: int
  su_sessions :: int
  su_pending :: int
  su_dropped :: nat
  su_policy_path :: bytes
  su_ui :: bool

datatype server_message = SVerdict decide_response | SPrompt prompt | SWithdraw nat | SStatus status

section \<open>Encoding\<close>

definition jopt :: "('a \<Rightarrow> json) \<Rightarrow> 'a option \<Rightarrow> json" where
  "jopt enc v = (case v of None \<Rightarrow> JNull | Some x \<Rightarrow> enc x)"

definition jstrs :: "bytes list \<Rightarrow> json" where
  "jstrs xs = JArray (map JString xs)"

definition jnums :: "nat list \<Rightarrow> json" where
  "jnums xs = JArray (map ju64 xs)"

definition enc_hello :: "hello \<Rightarrow> json" where
  "enc_hello h = jobject ([(''mcpwall_ipc'', ju64 (h_version h)), (''build'', JString (h_build h))] @
     (case h_ask_timeout h of None \<Rightarrow> [] | Some t \<Rightarrow> [(''ask_timeout_seconds'', ju64 t)]))"

fun until_str :: "ipc_until \<Rightarrow> bytes" where
  "until_str UOnce = ''once''"
| "until_str USession = ''session''"
| "until_str UForever = ''forever''"

fun outcome_str :: "ipc_outcome \<Rightarrow> bytes" where
  "outcome_str OAllow = ''allow''"
| "outcome_str ODeny = ''deny''"

fun enc_client :: "client_message \<Rightarrow> json" where
  "enc_client (CDecide q) = jobject [(''type'', JString ''decide''), (''method'', JString (dq_method q)),
     (''frame'', JString (dq_frame q)), (''scope_key'', JString (dq_scope_key q)),
     (''scope_source'', JString (dq_scope_source q)), (''scope_paths'', jstrs (dq_scope_paths q)),
     (''server'', jopt JString (dq_server q)), (''session_id'', ji64 (dq_session q))]"
| "enc_client CSubscribe = jobject [(''type'', JString ''subscribe'')]"
| "enc_client (CAnswer a) = jobject [(''type'', JString ''answer''), (''prompt_id'', ju64 (an_prompt a)),
     (''allow'', JBool (an_allow a)), (''until'', JString (until_str (an_until a)))]"
| "enc_client CStatus = jobject [(''type'', JString ''status'')]"
| "enc_client (CTaint t) = jobject [(''type'', JString ''taint''), (''origin'', JString (tn_origin t)),
     (''ngrams'', jnums (tn_ngrams t)), (''tokens'', jnums (tn_tokens t))]"
| "enc_client (CTools t) = jobject [(''type'', JString ''tools''), (''server'', JString (tr_server t)),
     (''tools'', JArray (map (\<lambda>(a, b). JArray [JString a, JString b]) (tr_tools t)))]"

fun enc_server :: "server_message \<Rightarrow> json" where
  "enc_server (SVerdict r) = jobject [(''type'', JString ''verdict''), (''outcome'', JString (outcome_str (dr_outcome r))),
     (''rule'', jopt JString (dr_rule r)), (''message'', JString (dr_message r)),
     (''forever_allowed'', JBool (dr_forever r))]"
| "enc_server (SPrompt p) = jobject [(''type'', JString ''prompt''), (''prompt_id'', ju64 (pr_id p)),
     (''method'', JString (pr_method p)), (''tool'', jopt JString (pr_tool p)), (''server'', jopt JString (pr_server p)),
     (''preview'', JString (pr_preview p)), (''rule'', jopt JString (pr_rule p)),
     (''severity'', JString (pr_severity p)), (''message'', JString (pr_message p)),
     (''findings'', jstrs (pr_findings p)), (''scope_key'', JString (pr_scope_key p)),
     (''scope_source'', JString (pr_scope_source p)), (''forever_allowed'', JBool (pr_forever p)),
     (''timeout_seconds'', ju64 (pr_timeout p))]"
| "enc_server (SWithdraw i) = jobject [(''type'', JString ''withdraw''), (''prompt_id'', ju64 i)]"
| "enc_server (SStatus s) = jobject [(''type'', JString ''status''), (''calls_today'', ji64 (su_calls s)),
     (''blocked_today'', ji64 (su_blocked s)), (''active_sessions'', ji64 (su_sessions s)),
     (''pending_prompts'', ji64 (su_pending s)), (''dropped_entries'', ju64 (su_dropped s)),
     (''policy_path'', JString (su_policy_path s)), (''ui_connected'', JBool (su_ui s))]"

section \<open>Decoding\<close>

definition need :: "bytes \<Rightarrow> (json \<Rightarrow> 'a option) \<Rightarrow> json \<Rightarrow> 'a option" where
  "need k de v = Option.bind (jget k v) de"

definition maybe :: "bytes \<Rightarrow> (json \<Rightarrow> 'a option) \<Rightarrow> json \<Rightarrow> 'a option option" where
  "maybe k de v = (case jget k v of None \<Rightarrow> Some None | Some x \<Rightarrow>
     if x = JNull then Some None else map_option Some (de x))"

definition fallback :: "bytes \<Rightarrow> (json \<Rightarrow> 'a option) \<Rightarrow> 'a \<Rightarrow> json \<Rightarrow> 'a option" where
  "fallback k de d v = (case jget k v of None \<Rightarrow> Some d | Some x \<Rightarrow> de x)"

fun all_some :: "('a \<Rightarrow> 'b option) \<Rightarrow> 'a list \<Rightarrow> 'b list option" where
  "all_some f [] = Some []"
| "all_some f (x # xs) = do { y \<leftarrow> f x; ys \<leftarrow> all_some f xs; Some (y # ys) }"

definition as_list :: "(json \<Rightarrow> 'a option) \<Rightarrow> json \<Rightarrow> 'a list option" where
  "as_list de v = Option.bind (as_array v) (all_some de)"

definition as_u32 :: "json \<Rightarrow> nat option" where
  "as_u32 v = (case as_u64 v of Some n \<Rightarrow> if n < 2 ^ 32 then Some n else None | None \<Rightarrow> None)"

definition dec_hello :: "json \<Rightarrow> hello option" where
  "dec_hello v = do {
     n \<leftarrow> need ''mcpwall_ipc'' as_u32 v; b \<leftarrow> need ''build'' as_str v;
     t \<leftarrow> maybe ''ask_timeout_seconds'' as_u64 v;
     Some \<lparr>h_version = n, h_build = b, h_ask_timeout = t\<rparr> }"

definition as_until :: "json \<Rightarrow> ipc_until option" where
  "as_until v = Option.bind (as_str v) (map_of [(''once'', UOnce), (''session'', USession), (''forever'', UForever)])"

definition as_outcome :: "json \<Rightarrow> ipc_outcome option" where
  "as_outcome v = Option.bind (as_str v) (map_of [(''allow'', OAllow), (''deny'', ODeny)])"

definition as_pair :: "json \<Rightarrow> (bytes \<times> bytes) option" where
  "as_pair v = (case v of JArray [a, b] \<Rightarrow> do { x \<leftarrow> as_str a; y \<leftarrow> as_str b; Some (x, y) } | _ \<Rightarrow> None)"

definition dec_decide :: "json \<Rightarrow> decide_request option" where
  "dec_decide v = do {
     m \<leftarrow> need ''method'' as_str v; f \<leftarrow> need ''frame'' as_str v; k \<leftarrow> need ''scope_key'' as_str v;
     src \<leftarrow> need ''scope_source'' as_str v; ps \<leftarrow> need ''scope_paths'' (as_list as_str) v;
     srv \<leftarrow> maybe ''server'' as_str v; i \<leftarrow> need ''session_id'' as_i64 v;
     Some \<lparr>dq_method = m, dq_frame = f, dq_scope_key = k, dq_scope_source = src, dq_scope_paths = ps,
       dq_server = srv, dq_session = i\<rparr> }"

definition dec_answer :: "json \<Rightarrow> answer option" where
  "dec_answer v = do {
     i \<leftarrow> need ''prompt_id'' as_u64 v; a \<leftarrow> need ''allow'' as_bool v; u \<leftarrow> need ''until'' as_until v;
     Some \<lparr>an_prompt = i, an_allow = a, an_until = u\<rparr> }"

definition dec_taint :: "json \<Rightarrow> taint_report option" where
  "dec_taint v = do {
     l \<leftarrow> need ''origin'' as_str v; ns \<leftarrow> need ''ngrams'' (as_list as_u64) v;
     ts \<leftarrow> need ''tokens'' (as_list as_u64) v;
     Some \<lparr>tn_origin = l, tn_ngrams = ns, tn_tokens = ts\<rparr> }"

definition dec_tools :: "json \<Rightarrow> tools_report option" where
  "dec_tools v = do {
     s \<leftarrow> need ''server'' as_str v; ts \<leftarrow> need ''tools'' (as_list as_pair) v;
     Some \<lparr>tr_server = s, tr_tools = ts\<rparr> }"

definition dec_client :: "json \<Rightarrow> client_message option" where
  "dec_client v = do {
     t \<leftarrow> need ''type'' as_str v;
     if t = ''decide'' then map_option CDecide (dec_decide v)
     else if t = ''subscribe'' then Some CSubscribe
     else if t = ''answer'' then map_option CAnswer (dec_answer v)
     else if t = ''status'' then Some CStatus
     else if t = ''taint'' then map_option CTaint (dec_taint v)
     else if t = ''tools'' then map_option CTools (dec_tools v)
     else None }"

definition dec_response :: "json \<Rightarrow> decide_response option" where
  "dec_response v = do {
     out \<leftarrow> need ''outcome'' as_outcome v; r \<leftarrow> maybe ''rule'' as_str v; m \<leftarrow> need ''message'' as_str v;
     f \<leftarrow> fallback ''forever_allowed'' as_bool False v;
     Some \<lparr>dr_outcome = out, dr_rule = r, dr_message = m, dr_forever = f\<rparr> }"

definition dec_prompt :: "json \<Rightarrow> prompt option" where
  "dec_prompt v = do {
     i \<leftarrow> need ''prompt_id'' as_u64 v; m \<leftarrow> need ''method'' as_str v; t \<leftarrow> maybe ''tool'' as_str v;
     srv \<leftarrow> maybe ''server'' as_str v; pv \<leftarrow> need ''preview'' as_str v; r \<leftarrow> maybe ''rule'' as_str v;
     sev \<leftarrow> need ''severity'' as_str v; msg \<leftarrow> need ''message'' as_str v;
     fs \<leftarrow> fallback ''findings'' (as_list as_str) [] v; k \<leftarrow> need ''scope_key'' as_str v;
     src \<leftarrow> need ''scope_source'' as_str v; fv \<leftarrow> need ''forever_allowed'' as_bool v;
     n \<leftarrow> need ''timeout_seconds'' as_u64 v;
     Some \<lparr>pr_id = i, pr_method = m, pr_tool = t, pr_server = srv, pr_preview = pv, pr_rule = r,
       pr_severity = sev, pr_message = msg, pr_findings = fs, pr_scope_key = k, pr_scope_source = src,
       pr_forever = fv, pr_timeout = n\<rparr> }"

definition dec_status :: "json \<Rightarrow> status option" where
  "dec_status v = do {
     c \<leftarrow> need ''calls_today'' as_i64 v; b \<leftarrow> need ''blocked_today'' as_i64 v;
     s \<leftarrow> need ''active_sessions'' as_i64 v; p \<leftarrow> need ''pending_prompts'' as_i64 v;
     d \<leftarrow> need ''dropped_entries'' as_u64 v; pp \<leftarrow> need ''policy_path'' as_str v;
     u \<leftarrow> need ''ui_connected'' as_bool v;
     Some \<lparr>su_calls = c, su_blocked = b, su_sessions = s, su_pending = p, su_dropped = d,
       su_policy_path = pp, su_ui = u\<rparr> }"

definition dec_server :: "json \<Rightarrow> server_message option" where
  "dec_server v = do {
     t \<leftarrow> need ''type'' as_str v;
     if t = ''verdict'' then map_option SVerdict (dec_response v)
     else if t = ''prompt'' then map_option SPrompt (dec_prompt v)
     else if t = ''withdraw'' then map_option SWithdraw (need ''prompt_id'' as_u64 v)
     else if t = ''status'' then map_option SStatus (dec_status v)
     else None }"

section \<open>What one side writes the other reads\<close>

definition is_u64 :: "nat \<Rightarrow> bool" where "is_u64 n \<longleftrightarrow> n < 2 ^ 64"
definition is_i64 :: "int \<Rightarrow> bool" where "is_i64 i \<longleftrightarrow> - (2 ^ 63) \<le> i \<and> i < 2 ^ 63"

fun client_wf :: "client_message \<Rightarrow> bool" where
  "client_wf (CDecide q) \<longleftrightarrow> is_i64 (dq_session q)"
| "client_wf (CAnswer a) \<longleftrightarrow> is_u64 (an_prompt a)"
| "client_wf (CTaint t) \<longleftrightarrow> list_all is_u64 (tn_ngrams t) \<and> list_all is_u64 (tn_tokens t)"
| "client_wf _ \<longleftrightarrow> True"

fun server_wf :: "server_message \<Rightarrow> bool" where
  "server_wf (SVerdict r) \<longleftrightarrow> True"
| "server_wf (SPrompt p) \<longleftrightarrow> is_u64 (pr_id p) \<and> is_u64 (pr_timeout p)"
| "server_wf (SWithdraw i) \<longleftrightarrow> is_u64 i"
| "server_wf (SStatus s) \<longleftrightarrow> is_i64 (su_calls s) \<and> is_i64 (su_blocked s) \<and> is_i64 (su_sessions s) \<and>
     is_i64 (su_pending s) \<and> is_u64 (su_dropped s)"

lemma need_jobject: "need k de (jobject kvs) = Option.bind (map_of (rev kvs) k) de"
  by (simp add: need_def jget_jobject)

lemma maybe_jobject:
  "map_of (rev kvs) k = Some (jopt JString v) \<Longrightarrow> maybe k as_str (jobject kvs) = Some v"
  by (cases v) (simp_all add: maybe_def jget_jobject jopt_def)

lemma fallback_jobject: "map_of (rev kvs) k = Some x \<Longrightarrow> fallback k de d (jobject kvs) = de x"
  by (simp add: fallback_def jget_jobject)

lemma all_some_map: "(\<And>x. x \<in> set xs \<Longrightarrow> f (g x) = Some x) \<Longrightarrow> all_some f (map g xs) = Some xs"
  by (induction xs) auto

lemma as_list_strs [simp]: "as_list as_str (jstrs xs) = Some xs"
  by (simp add: as_list_def jstrs_def all_some_map)

lemma as_list_nums [simp]: "list_all is_u64 xs \<Longrightarrow> as_list as_u64 (jnums xs) = Some xs"
  by (simp add: as_list_def jnums_def all_some_map is_u64_def list_all_iff)

lemma as_list_pairs [simp]:
  "as_list as_pair (JArray (map (\<lambda>(a, b). JArray [JString a, JString b]) xs)) = Some xs"
  by (simp add: as_list_def all_some_map as_pair_def split_def)

lemma as_until_str [simp]: "as_until (JString (until_str u)) = Some u"
  by (cases u) (simp_all add: as_until_def)

lemma as_outcome_str [simp]: "as_outcome (JString (outcome_str out)) = Some out"
  by (cases out) (simp_all add: as_outcome_def)

lemma as_u64_num [simp]: "is_u64 n \<Longrightarrow> as_u64 (ju64 n) = Some n"
  by (simp add: is_u64_def)

lemma as_i64_num [simp]: "is_i64 i \<Longrightarrow> as_i64 (ji64 i) = Some i"
  by (simp add: is_i64_def)

lemmas codec_simps = need_jobject maybe_jobject fallback_jobject dec_client_def dec_server_def
  dec_decide_def dec_answer_def dec_taint_def dec_tools_def dec_response_def dec_prompt_def dec_status_def

lemma dec_enc_client: "client_wf m \<Longrightarrow> dec_client (enc_client m) = Some m"
  by (cases m) (simp_all add: codec_simps)

lemma dec_enc_server: "server_wf m \<Longrightarrow> dec_server (enc_server m) = Some m"
  by (cases m) (simp_all add: codec_simps)

definition hello_wf :: "hello \<Rightarrow> bool" where
  "hello_wf h \<longleftrightarrow> h_version h < 2 ^ 32 \<and> (case h_ask_timeout h of Some n \<Rightarrow> is_u64 n | None \<Rightarrow> True)"

lemma ju64_not_null [simp]: "ju64 n \<noteq> JNull"
  by (simp add: ju64_def)

lemma as_u32_num [simp]: "n < 2 ^ 32 \<Longrightarrow> as_u32 (ju64 n) = Some n"
  by (simp add: as_u32_def)

lemma dec_enc_hello: "hello_wf h \<Longrightarrow> dec_hello (enc_hello h) = Some h"
  by (cases h; cases "h_ask_timeout h")
    (simp_all add: hello_wf_def dec_hello_def enc_hello_def codec_simps maybe_def jget_jobject)

text \<open>
  C38: both sides of the socket read the same message: a handshake, a client message and a daemon
  message whose integers fit their machine types decode to themselves, so no field is lost, no
  optional field confused with its absence and no message taken for another.
\<close>

theorem messages_survive_the_wire:
  assumes "hello_wf h" and "client_wf c" and "server_wf s"
  shows "dec_hello (enc_hello h) = Some h \<and> dec_client (enc_client c) = Some c \<and>
    dec_server (enc_server s) = Some s"
  using dec_enc_hello [OF assms(1)] dec_enc_client [OF assms(2)] dec_enc_server [OF assms(3)] by simp

theorem messages_survive_the_wire_witness:
  "dec_hello (enc_hello \<lparr>h_version = 2, h_build = ''0.1'', h_ask_timeout = Some 60\<rparr>) =
     Some \<lparr>h_version = 2, h_build = ''0.1'', h_ask_timeout = Some 60\<rparr> \<and>
   dec_client (enc_client (CAnswer \<lparr>an_prompt = 7, an_allow = True, an_until = UForever\<rparr>)) =
     Some (CAnswer \<lparr>an_prompt = 7, an_allow = True, an_until = UForever\<rparr>) \<and>
   dec_server (enc_server (SVerdict \<lparr>dr_outcome = ODeny, dr_rule = None, dr_message = ''no'', dr_forever = False\<rparr>)) =
     Some (SVerdict \<lparr>dr_outcome = ODeny, dr_rule = None, dr_message = ''no'', dr_forever = False\<rparr>)"
  by (rule messages_survive_the_wire) (simp_all add: is_u64_def hello_wf_def)

end
