(* ===== verification/Client.thy ===== *)
theory Client
  imports Mcp Scope Drift Taint Ipc
begin

text \<open>
  \<open>ipc/client.rs\<close>: the shim's end of the socket.  The IPC thread and the channels to it are the
  fields \<open>cl_thread\<close> (is it still there to receive) and \<open>cl_sent\<close> (what it has written, in order);
  what the daemon answers to a request, if anything, is an argument.
\<close>

section \<open>Connecting\<close>

definition FALLBACK_TIMEOUT :: nat where "FALLBACK_TIMEOUT = 180"
definition TIMEOUT_MARGIN :: nat where "TIMEOUT_MARGIN = 30"
definition MAX_INFLIGHT_READS :: nat where "MAX_INFLIGHT_READS = 256"
definition CLIENT_UNNAMED_SERVER :: bytes where "CLIENT_UNNAMED_SERVER = ''(unnamed)''"

record session_info =
  si_scope_key :: bytes
  si_scope_source :: bytes
  si_scope_paths :: "bytes list"
  si_server :: "bytes option"
  si_session_id :: int

definition session_from_scope :: "scope \<Rightarrow> int \<Rightarrow> session_info" where
  "session_from_scope sc sid = \<lparr>si_scope_key = scope_key sc, si_scope_source = source_str (scope_src sc),
     si_scope_paths = scope_paths sc, si_server = None, si_session_id = sid\<rparr>"

record client =
  cl_thread :: bool
  cl_sent :: "client_message list"
  cl_inflight :: "(bytes \<times> bytes) list"
  cl_degraded :: bool
  cl_fail_closed :: bool
  cl_server :: "bytes option"
  cl_session :: session_info
  cl_timeout :: nat

text \<open>Adding the margin to an announced timeout panics when the seconds leave the \<open>u64\<close>.\<close>

definition verdict_timeout :: "nat option \<Rightarrow> nat outcome" where
  "verdict_timeout announced =
     (case announced of
        None \<Rightarrow> Returned FALLBACK_TIMEOUT
      | Some s \<Rightarrow> if s + TIMEOUT_MARGIN < 2 ^ 64 then Returned (s + TIMEOUT_MARGIN) else Panicked)"

definition connect :: "parser \<Rightarrow> bool \<Rightarrow> bytes option \<Rightarrow> bool \<Rightarrow> session_info \<Rightarrow> client option outcome" where
  "connect parse connected reply fc session =
     (if \<not> connected then Returned None
      else case Option.bind (Option.bind reply parse) dec_hello of
             None \<Rightarrow> Returned None
           | Some peer \<Rightarrow>
               if \<not> compatible peer then Returned None
               else obind (verdict_timeout (h_ask_timeout peer)) (\<lambda>t. Returned (Some
                 \<lparr>cl_thread = True, cl_sent = [], cl_inflight = [], cl_degraded = False, cl_fail_closed = fc,
                  cl_server = si_server session, cl_session = session, cl_timeout = t\<rparr>)))"

section \<open>What is remembered of a call\<close>

definition server_name :: "client \<Rightarrow> bytes" where
  "server_name c = (case cl_server c of Some n \<Rightarrow> n | None \<Rightarrow> CLIENT_UNNAMED_SERVER)"

definition note_server_name :: "parser \<Rightarrow> bytes \<Rightarrow> client \<Rightarrow> client" where
  "note_server_name parse frame c =
     (case Option.bind (Option.bind (parse frame) (jpath [''result'', ''serverInfo'', ''name''])) as_str of
        Some name \<Rightarrow> c\<lparr>cl_server := Some name\<rparr>
      | None \<Rightarrow> c)"

definition frame_id :: "parser \<Rightarrow> bytes \<Rightarrow> bytes option" where
  "frame_id parse frame =
     (case Option.bind (parse frame) (jget ''id'') of
        Some (JString s) \<Rightarrow> Some s
      | Some (JNumber n) \<Rightarrow> Some n
      | _ \<Rightarrow> None)"

definition call_tool :: "json \<Rightarrow> bytes option" where
  "call_tool v = Option.bind (jpath [''params'', ''name''] v) as_str"

definition read_origin :: "bytes \<Rightarrow> json \<Rightarrow> bytes" where
  "read_origin meth v =
     (let named = Option.bind (jget ''params'' v) (\<lambda>p.
            Option.bind (case jget ''uri'' p of Some u \<Rightarrow> Some u | None \<Rightarrow> jpath [''arguments'', ''path''] p) as_str)
      in case named of
           Some s \<Rightarrow> s
         | None \<Rightarrow> (case call_tool v of Some t \<Rightarrow> t | None \<Rightarrow> meth))"

definition note_if_local_read :: "parser \<Rightarrow> call_context \<Rightarrow> client \<Rightarrow> client" where
  "note_if_local_read parse ctx c =
     (case parse (ctx_frame ctx) of
        None \<Rightarrow> c
      | Some v \<Rightarrow>
          if \<not> is_local_read (ctx_method ctx) (call_tool v) then c
          else (case frame_id parse (ctx_frame ctx) of
                  None \<Rightarrow> c
                | Some i \<Rightarrow>
                    (let m = (if MAX_INFLIGHT_READS \<le> length (cl_inflight c) then [] else cl_inflight c)
                     in c\<lparr>cl_inflight := AList.update i (read_origin (ctx_method ctx) v) m\<rparr>)))"

section \<open>The decision point\<close>

text \<open>What comes back for a request: a line, nothing because the connection ended, or nothing in time.\<close>

datatype reply = Line bytes | Closed | Late

definition verdict_in :: "parser \<Rightarrow> bytes \<Rightarrow> decide_response option" where
  "verdict_in parse line =
     (case Option.bind (parse line) dec_server of Some (SVerdict r) \<Rightarrow> Some r | _ \<Rightarrow> None)"

definition client_error :: "client \<Rightarrow> bytes \<Rightarrow> decision_error" where
  "client_error c why = \<lparr>reason = why, err_fail_closed = cl_fail_closed c\<rparr>"

definition decide_message :: "call_context \<Rightarrow> client \<Rightarrow> decide_request" where
  "decide_message ctx c =
     \<lparr>dq_method = ctx_method ctx, dq_frame = utf8_lossy (ctx_frame ctx),
      dq_scope_key = si_scope_key (cl_session c), dq_scope_source = si_scope_source (cl_session c),
      dq_scope_paths = si_scope_paths (cl_session c), dq_server = Some (server_name c),
      dq_session = si_session_id (cl_session c)\<rparr>"

text \<open>
  \<open>serde\<close> refuses to write a path that is not UTF-8, so that such a request never leaves: the IPC thread
  takes that for a dead connection, and ends.
\<close>

definition sendable :: "decide_request \<Rightarrow> bool" where
  "sendable q \<longleftrightarrow> list_all utf8_valid (dq_scope_paths q)"

definition verdict_of :: "decide_response \<Rightarrow> verdict" where
  "verdict_of r = (case dr_outcome r of
     OAllow \<Rightarrow> Allow
   | ODeny \<Rightarrow> Deny (case dr_rule r of Some n \<Rightarrow> n | None \<Rightarrow> ''policy'') (dr_message r))"

definition client_decide :: "parser \<Rightarrow> reply \<Rightarrow> client \<Rightarrow> call_context \<Rightarrow> (decision_error + verdict) \<times> client" where
  "client_decide parse net c ctx =
     (if cl_degraded c then (Inl (client_error c ''daemon unreachable (degraded state)''), c)
      else
        (let req = decide_message ctx c; c1 = note_if_local_read parse ctx c in
         if \<not> cl_thread c1
         then (Inl (client_error c1 ''connection to the daemon closed''), c1\<lparr>cl_degraded := True\<rparr>)
         else if \<not> sendable req
         then (Inl (client_error c1 ''unreadable response from the daemon''), c1\<lparr>cl_degraded := True, cl_thread := False\<rparr>)
         else
           (let c2 = c1\<lparr>cl_sent := cl_sent c1 @ [CDecide req]\<rparr>;
                broken = (Inl (client_error c2 ''unreadable response from the daemon''),
                          c2\<lparr>cl_degraded := True, cl_thread := False\<rparr>)
            in case net of
                 Line l \<Rightarrow> (case verdict_in parse l of Some r \<Rightarrow> (Inr (verdict_of r), c2) | None \<Rightarrow> broken)
               | Closed \<Rightarrow> broken
               | Late \<Rightarrow> (Inl (client_error c2 ''timed out waiting for the verdict''), c2\<lparr>cl_degraded := True\<rparr>))))"

definition send_only :: "client_message \<Rightarrow> client \<Rightarrow> client" where
  "send_only m c = (if cl_thread c then c\<lparr>cl_sent := cl_sent c @ [m]\<rparr> else c)"

definition taint_message :: "bytes \<Rightarrow> fingerprint \<Rightarrow> client_message" where
  "taint_message origin fp =
     CTaint \<lparr>tn_origin = origin, tn_ngrams = map unat (ngrams fp), tn_tokens = map unat (tokens fp)\<rparr>"

definition observe_response :: "parser \<Rightarrow> (bytes \<Rightarrow> bytes) \<Rightarrow> printer \<Rightarrow> bytes \<Rightarrow> client \<Rightarrow> client" where
  "observe_response parse sha render frame c0 =
     (let c = note_server_name parse frame c0 in
      case tools_in_response parse sha render frame of
        Some tools \<Rightarrow>
          send_only (CTools \<lparr>tr_server = server_name c,
            tr_tools = map (\<lambda>t. (td_name t, td_sha256 t)) tools\<rparr>) c
      | None \<Rightarrow>
          (case frame_id parse frame of
             None \<Rightarrow> c
           | Some i \<Rightarrow>
               (case map_of (cl_inflight c) i of
                  None \<Rightarrow> c
                | Some origin \<Rightarrow>
                    (let c' = c\<lparr>cl_inflight := AList.delete i (cl_inflight c)\<rparr>;
                         fp = capped (fingerprint_of (utf8_lossy frame))
                     in if fp_is_empty fp then c' else send_only (taint_message origin fp) c'))))"

definition report_taint :: "bytes \<Rightarrow> bytes \<Rightarrow> client \<Rightarrow> client" where
  "report_taint origin text c =
     (let fp = capped (fingerprint_of text) in
      if fp_is_empty fp then c else send_only (taint_message origin fp) c)"

text \<open>A session with a daemon, for the instances of theorems.\<close>

definition an_agent :: client where
  "an_agent = \<lparr>cl_thread = True, cl_sent = [], cl_inflight = [], cl_degraded = False, cl_fail_closed = False,
     cl_server = None, cl_session = \<lparr>si_scope_key = [], si_scope_source = [], si_scope_paths = [],
     si_server = None, si_session_id = 1\<rparr>, cl_timeout = 90\<rparr>"

section \<open>What a verdict means\<close>

lemma note_read_keeps [simp]:
  "cl_sent (note_if_local_read parse ctx c) = cl_sent c"
  "cl_thread (note_if_local_read parse ctx c) = cl_thread c"
  "cl_fail_closed (note_if_local_read parse ctx c) = cl_fail_closed c"
  "cl_server (note_if_local_read parse ctx c) = cl_server c"
  "cl_degraded (note_if_local_read parse ctx c) = cl_degraded c"
  by (simp_all add: note_if_local_read_def Let_def split: option.splits)

text \<open>
  The shim invents no verdict: a call is answered \<open>allow\<close> or \<open>deny\<close> only when exactly this request
  was sent and the daemon answered it with that outcome; in every other case the result is an error
  that carries the session's \<open>fail_closed\<close>, the shim is degraded from then on, and a degraded shim
  sends nothing and errs at once.
\<close>

theorem verdicts_come_from_the_daemon:
  "case client_decide parse net c ctx of
     (Inr v, c') \<Rightarrow> \<not> cl_degraded c \<and> cl_sent c' = cl_sent c @ [CDecide (decide_message ctx c)] \<and>
       (\<exists>l r. net = Line l \<and> verdict_in parse l = Some r \<and> v = verdict_of r \<and>
          (v = Allow) = (dr_outcome r = OAllow))
   | (Inl e, c') \<Rightarrow> cl_degraded c' \<and> err_fail_closed e = cl_fail_closed c \<and>
       (if cl_degraded c then cl_sent c' = cl_sent c else True)"
  by (auto simp: client_decide_def client_error_def verdict_of_def Let_def
      split: reply.split option.split ipc_outcome.split)

section \<open>What is reported of a read\<close>

lemma read_reported:
  assumes "parse (ctx_frame ctx) = Some v" and "is_local_read (ctx_method ctx) (call_tool v)"
    and "frame_id parse (ctx_frame ctx) = Some i" and "frame_id parse resp = Some i"
    and "tools_in_response parse sha render resp = None"
    and "\<not> fp_is_empty (capped (fingerprint_of (utf8_lossy resp)))"
    and "client_decide parse (Line l) c ctx = (Inr x, c')" and "cl_thread c"
  shows "cl_sent (observe_response parse sha render resp c') = cl_sent c @
    [CDecide (decide_message ctx c),
     taint_message (read_origin (ctx_method ctx) v) (capped (fingerprint_of (utf8_lossy resp)))]"
proof -
  let ?c1 = "note_if_local_read parse ctx c"
  have nd: "\<not> cl_degraded c" using assms(7) by (auto simp: client_decide_def)
  then have c': "c' = ?c1\<lparr>cl_sent := cl_sent c @ [CDecide (decide_message ctx c)]\<rparr>"
    using assms(7,8) by (auto simp: client_decide_def Let_def split: option.splits if_splits)
  have "map_of (cl_inflight ?c1) i = Some (read_origin (ctx_method ctx) v)"
    using assms(1-3) by (simp add: note_if_local_read_def Let_def update_conv')
  then have "map_of (cl_inflight (note_server_name parse resp c')) i = Some (read_origin (ctx_method ctx) v)"
    by (auto simp: c' note_server_name_def split: option.splits)
  moreover have "cl_thread (note_server_name parse resp c')" "cl_sent (note_server_name parse resp c') = cl_sent c'"
    using assms(8) by (auto simp: c' note_server_name_def split: option.splits)
  ultimately show ?thesis
    using assms(4-6) by (simp add: observe_response_def Let_def send_only_def c')
qed

text \<open>
  What a local read returned reaches the daemon under a name the user can check: when a call that
  is a local read was decided and the response with its id comes back, the next message sent is the
  capped fingerprint of that response, named after the path, else the tool, of the call.
\<close>

theorem read_is_reported:
  assumes "parse (ctx_frame ctx) = Some v" and "is_local_read (ctx_method ctx) (call_tool v)"
    and "frame_id parse (ctx_frame ctx) = Some i" and "frame_id parse resp = Some i"
    and "tools_in_response parse sha render resp = None"
    and "\<not> fp_is_empty (capped (fingerprint_of (utf8_lossy resp)))"
    and "client_decide parse (Line l) c ctx = (Inr x, c')" and "cl_thread c"
  shows "cl_sent (observe_response parse sha render resp c') = cl_sent c @
    [CDecide (decide_message ctx c),
     taint_message (read_origin (ctx_method ctx) v) (capped (fingerprint_of (utf8_lossy resp)))]"
  using assms by (rule read_reported)

theorem read_is_reported_witness:
  "\<exists>c'. client_decide (\<lambda>s. if s = ''q'' then Some (JObject [(''id'', JNumber ''1''),
        (''params'', JObject [(''uri'', JString ''file:///p/.env'')])])
      else if s = ''v'' then Some (enc_server (SVerdict \<lparr>dr_outcome = OAllow, dr_rule = None, dr_message = [], dr_forever = False\<rparr>))
      else Some (JObject [(''id'', JNumber ''1'')])) (Line ''v'') \<lparr>cl_thread = True, cl_sent = [], cl_inflight = [], cl_degraded = False, cl_fail_closed = False, cl_server = None, cl_session = \<lparr>si_scope_key = [], si_scope_source = [], si_scope_paths = [], si_server = None, si_session_id = 1\<rparr>, cl_timeout = 90\<rparr>
      \<lparr>ctx_method = ''resources/read'', ctx_frame = ''q''\<rparr> = (Inr Allow, c') \<and>
    length (cl_sent (observe_response (\<lambda>s. if s = ''q'' then Some (JObject [(''id'', JNumber ''1''),
        (''params'', JObject [(''uri'', JString ''file:///p/.env'')])])
      else if s = ''v'' then Some (enc_server (SVerdict \<lparr>dr_outcome = OAllow, dr_rule = None, dr_message = [], dr_forever = False\<rparr>))
      else Some (JObject [(''id'', JNumber ''1'')])) (\<lambda>x. x) (\<lambda>_. [])
      ''sk_live_abcdefghijklmnopqrst'' c')) = 2"
proof -
  let ?v = "JObject [(''id'', JNumber ''1''), (''params'', JObject [(''uri'', JString ''file:///p/.env'')])]"
  let ?ok = "SVerdict \<lparr>dr_outcome = OAllow, dr_rule = None, dr_message = [], dr_forever = False\<rparr>"
  let ?parse = "\<lambda>s. if s = ''q'' then Some ?v else if s = ''v'' then Some (enc_server ?ok)
      else Some (JObject [(''id'', JNumber ''1'')])"
  let ?ctx = "\<lparr>ctx_method = ''resources/read'', ctx_frame = ''q''\<rparr>"
  let ?resp = "''sk_live_abcdefghijklmnopqrst''"
  have "dec_server (enc_server ?ok) = Some ?ok" by (rule dec_enc_server) simp
  then have "verdict_in ?parse ''v'' = Some \<lparr>dr_outcome = OAllow, dr_rule = None, dr_message = [], dr_forever = False\<rparr>"
    by (simp add: verdict_in_def del: enc_server.simps)
  then obtain c' where c': "client_decide ?parse (Line ''v'') \<lparr>cl_thread = True, cl_sent = [], cl_inflight = [], cl_degraded = False, cl_fail_closed = False, cl_server = None, cl_session = \<lparr>si_scope_key = [], si_scope_source = [], si_scope_paths = [], si_server = None, si_session_id = 1\<rparr>, cl_timeout = 90\<rparr> ?ctx = (Inr Allow, c')"
    by (simp add: client_decide_def sendable_def decide_message_def Let_def verdict_of_def del: enc_server.simps)
  have lossy: "utf8_lossy ?resp = ?resp"
    by (rule utf8_lossy_valid, rule utf8_valid_ascii) (auto simp: byte_def)
  have "fnv1a ?resp \<in> set (tokens (fingerprint_of ?resp))"
    unfolding tokens_fingerprint by (rule imageI) code_simp
  then have fp: "\<not> fp_is_empty (capped (fingerprint_of (utf8_lossy ?resp)))"
    unfolding lossy by (auto simp: fp_is_empty_def capped_def)
  have "cl_sent (observe_response ?parse (\<lambda>x. x) (\<lambda>_. []) ?resp c') = cl_sent \<lparr>cl_thread = True, cl_sent = [], cl_inflight = [], cl_degraded = False, cl_fail_closed = False, cl_server = None, cl_session = \<lparr>si_scope_key = [], si_scope_source = [], si_scope_paths = [], si_server = None, si_session_id = 1\<rparr>, cl_timeout = 90\<rparr> @
    [CDecide (decide_message ?ctx \<lparr>cl_thread = True, cl_sent = [], cl_inflight = [], cl_degraded = False, cl_fail_closed = False, cl_server = None, cl_session = \<lparr>si_scope_key = [], si_scope_source = [], si_scope_paths = [], si_server = None, si_session_id = 1\<rparr>, cl_timeout = 90\<rparr>),
     taint_message (read_origin (ctx_method ?ctx) ?v) (capped (fingerprint_of (utf8_lossy ?resp)))]"
    by (rule read_is_reported [OF _ _ _ _ _ fp c'])
      (simp_all add: is_local_read_def frame_id_def tools_in_response_def del: enc_server.simps)
  then show ?thesis using c' by (simp del: enc_server.simps)
qed

section \<open>What is missed of a read\<close>

text \<open>
  The shim fingerprints the response as it travels, JSON escapes included, while the daemon
  fingerprints the decoded arguments.
\<close>

lemma candidate_tokens_split:
  "\<not> token_char d \<Longrightarrow> candidate_tokens (xs @ d # ys) = candidate_tokens xs @ candidate_tokens ys"
  by (simp add: candidate_tokens_def split_on_append)

lemma candidate_tokens_one: "list_all token_char tok \<Longrightarrow> tok \<noteq> [] \<Longrightarrow> candidate_tokens tok = [tok]"
  by (simp add: candidate_tokens_def list_all_iff)

lemma utf8_chars_ascii: "list_all (\<lambda>c. byte c < 128) s \<Longrightarrow> utf8_chars s = map (\<lambda>c. [c]) s"
proof (induction s)
  case (Cons c s)
  then show ?case by (subst utf8_chars.simps) (simp add: utf8_step_ascii)
qed (simp add: utf8_chars.simps)

lemma token_char_ascii: "token_char c \<Longrightarrow> byte c < 128 \<and> [c] \<notin> set ws_chars"
  by (auto simp: token_char_def is_ascii_alphanumeric_def is_ascii_upper_def is_ascii_lower_def is_ascii_digit_def
      ws_chars_def byte_def)

lemma one_word:
  assumes "list_all token_char tok"
  shows "length (split_whitespace tok) \<le> 1"
proof -
  have "utf8_chars tok = map (\<lambda>c. [c]) tok"
    using assms token_char_ascii by (intro utf8_chars_ascii) (auto simp: list_all_iff)
  then have "split_on (\<lambda>ch. ch \<in> set ws_chars) (utf8_chars tok) = [map (\<lambda>c. [c]) tok]"
    using assms token_char_ascii by (simp add: list_all_iff) (rule split_on_none, auto)
  then show ?thesis by (simp add: split_whitespace_def)
qed

text \<open>Nothing overlaps when no token is shared and what goes out is too short for a shingle.\<close>

lemma nothing_shared:
  assumes "set (tokens (fingerprint_of out)) \<inter> set (tokens (fingerprint_of text)) = {}" and "ngrams (fingerprint_of out) = []"
  shows "overlap (record_all [(capped (fingerprint_of text), l, t0)]) (fingerprint_of out) now = None"
proof -
  have "\<forall>h \<in> set (tokens (fingerprint_of out)).
      fresh_hit now (ts_tokens (record_all [(capped (fingerprint_of text), l, t0)])) h = None"
    using assms(1) by (auto simp: record_all_def taint_record_def taint_new_def prune_def Let_def map_of_insert_all
        fresh_hit_def capped_def)
  then have "find_map (fresh_hit now (ts_tokens (record_all [(capped (fingerprint_of text), l, t0)])))
      (tokens (fingerprint_of out)) = None"
    unfolding find_map_None .
  then show ?thesis by (simp add: overlap_def Let_def List.map_filter_def MIN_NGRAM_OVERLAP_def assms(2))
qed

text \<open>
  A credential at the start of a line is missed: in the JSON text of a response it follows the
  escape \<open>\n\<close>, whose letter is glued to it, so that the fingerprint holds the hash of another token;
  when the credential alone is on its way out, nothing overlaps (unless hashes collide or it also
  stands elsewhere in the response).
\<close>

theorem line_start_token_is_missed:
  assumes "list_all token_char tok" and "tok \<noteq> []"
    and "frame = a @ [BSLASH] @ ''n'' @ tok @ [QUOTE] @ b"
    and "\<forall>t \<in> set (candidate_tokens a @ [''n'' @ tok] @ candidate_tokens b). fnv1a t \<noteq> fnv1a tok"
  shows "overlap (record_all [(capped (fingerprint_of frame), l, t0)]) (fingerprint_of tok) now = None"
proof -
  have nt: "\<not> token_char BSLASH" "\<not> token_char QUOTE" "token_char (CHR ''n'')"
    by (simp_all add: token_char_def is_ascii_alphanumeric_def is_ascii_upper_def is_ascii_lower_def
        is_ascii_digit_def byte_def)
  have "candidate_tokens frame = candidate_tokens a @ candidate_tokens ((''n'' @ tok) @ QUOTE # b)"
    using candidate_tokens_split [OF nt(1), of a] by (simp add: assms(3))
  also have "candidate_tokens ((''n'' @ tok) @ QUOTE # b) = [''n'' @ tok] @ candidate_tokens b"
    unfolding candidate_tokens_split [OF nt(2)]
    using candidate_tokens_one [of "''n'' @ tok"] assms(1) nt(3) by simp
  finally have "fnv1a tok \<notin> set (tokens (fingerprint_of frame))"
    unfolding tokens_fingerprint using assms(4) by fastforce
  moreover have "set (tokens (fingerprint_of tok)) \<subseteq> {fnv1a tok}"
    unfolding tokens_fingerprint using candidate_tokens_one [OF assms(1,2)] by auto
  moreover have "ngrams (fingerprint_of tok) = []"
    using one_word [OF assms(1)] length_ngrams [of tok]
    by (simp add: fingerprint_of_def Let_def SHINGLE_WORDS_def dedup_def)
  ultimately show ?thesis by (intro nothing_shared) auto
qed

theorem line_start_token_is_missed_witness:
  "overlap (record_all [(capped (fingerprint_of (''{\"text\":\"a'' @ [BSLASH] @ ''n'' @ ''MIIEpAIBAAKCAQEAabcdefgh'' @ [QUOTE] @ ''}'')),
     ''id_rsa'', 5)]) (fingerprint_of ''MIIEpAIBAAKCAQEAabcdefgh'') 9 = None"
proof (rule line_start_token_is_missed [OF _ _ refl])
  show "list_all token_char ''MIIEpAIBAAKCAQEAabcdefgh''" by code_simp
  show "\<forall>t \<in> set (candidate_tokens ''{\"text\":\"a'' @ [''n'' @ ''MIIEpAIBAAKCAQEAabcdefgh''] @ candidate_tokens ''}'').
      fnv1a t \<noteq> fnv1a ''MIIEpAIBAAKCAQEAabcdefgh''"
    by code_simp
qed simp

end
