(* ===== verification/Relay.thy ===== *)
theory Relay
  imports Frame Client
begin

text \<open>
  \<open>transport/stdio.rs\<close>: the pump between the client and the upstream.  The writer is the bytes
  written so far, the return path and the observer are the lists of what was handed to them; writes
  are taken to succeed.  The decision point is a record of its two operations over its own state.
\<close>

section \<open>What the pump works with\<close>

datatype direction = ToServer | ToClient

fun direction_str :: "direction \<Rightarrow> bytes" where
  "direction_str ToServer = ''to_server''"
| "direction_str ToClient = ''to_client''"

record frame_event =
  ev_direction :: direction
  ev_disposition :: disposition
  ev_method :: "bytes option"
  ev_scan :: method_scan
  ev_verdict :: "verdict option"
  ev_frame :: frame

datatype anomaly =
  OversizeFrame direction nat
| Unterminated direction
| DeniedWithoutId direction
| DecisionUnavailable direction bytes bool

datatype notice = OnFrame frame_event | OnAnomaly anomaly | OnEof direction splitter_stats

record 'd point =
  pt_decide :: "'d \<Rightarrow> call_context \<Rightarrow> (decision_error + verdict) \<times> 'd"
  pt_observe :: "bytes \<Rightarrow> 'd \<Rightarrow> 'd"

record 'd pump =
  pu_direction :: direction
  pu_max :: nat
  pu_point :: "'d point"
  pu_return :: bool

record 'd relay =
  rl_out :: bytes
  rl_denied :: "bytes list"
  rl_notes :: "notice list"
  rl_state :: 'd

definition note_down :: "notice \<Rightarrow> 'd relay \<Rightarrow> 'd relay" where
  "note_down n r = r\<lparr>rl_notes := rl_notes r @ [n]\<rparr>"

definition found :: "method_scan \<Rightarrow> bytes option" where
  "found sc = (case sc of Found m _ \<Rightarrow> Some m | _ \<Rightarrow> None)"

section \<open>One frame\<close>

definition FAIL_CLOSED :: verdict where
  "FAIL_CLOSED = Deny ''fail_closed'' ''policy engine unavailable''"

text \<open>The verdict on a frame; an error of the decision point is an anomaly, and blocks only if asked to.\<close>

definition judge_frame :: "'d pump \<Rightarrow> frame \<Rightarrow> 'd relay \<Rightarrow> verdict option \<times> 'd relay" where
  "judge_frame P f r =
     (let sc = scan_method (content f) in
      case pu_direction P of
        ToClient \<Rightarrow> (None, r\<lparr>rl_state := pt_observe (pu_point P) (content f) (rl_state r)\<rparr>)
      | ToServer \<Rightarrow>
          (case (classify sc, found sc) of
             (Decide, Some m) \<Rightarrow>
               (let (ans, d) = pt_decide (pu_point P) (rl_state r) \<lparr>ctx_method = m, ctx_frame = content f\<rparr>;
                    r' = r\<lparr>rl_state := d\<rparr>
                in case ans of
                     Inr v \<Rightarrow> (Some v, r')
                   | Inl e \<Rightarrow>
                       (if err_fail_closed e then Some FAIL_CLOSED else None,
                        note_down (OnAnomaly (DecisionUnavailable ToServer (reason e) (err_fail_closed e))) r'))
           | _ \<Rightarrow> (None, r)))"

definition frame_seen :: "'d pump \<Rightarrow> frame \<Rightarrow> verdict option \<Rightarrow> frame_event" where
  "frame_seen P f v =
     (let sc = scan_method (content f) in
      \<lparr>ev_direction = pu_direction P, ev_disposition = classify sc, ev_method = found sc, ev_scan = sc,
       ev_verdict = v, ev_frame = f\<rparr>)"

definition handle :: "parser \<Rightarrow> printer \<Rightarrow> 'd pump \<Rightarrow> frame \<Rightarrow> 'd relay \<Rightarrow> bool \<times> 'd relay" where
  "handle parse render P f r =
     (let (v, r1) = judge_frame P f r;
          r2 = note_down (OnFrame (frame_seen P f v)) r1
      in case v of
           Some (Deny rule msg) \<Rightarrow>
             (False,
              (case deny_response parse render (content f) rule msg of
                 Some payload \<Rightarrow> if pu_return P then r2\<lparr>rl_denied := rl_denied r2 @ [payload]\<rparr> else r2
               | None \<Rightarrow> note_down (OnAnomaly (DeniedWithoutId (pu_direction P))) r2))
         | _ \<Rightarrow> (True, r2\<lparr>rl_out := rl_out r2 @ raw f\<rparr>))"

section \<open>The loop\<close>

text \<open>
  What the loop takes in, in the order the biased \<open>select!\<close> gives it: a read from the reader, or a
  block response injected by the other pump.  A read of nothing is the end of the stream, as is the
  end of the list.  \<open>next_frame\<close> does not look at what \<open>handle\<close> changes, so the frames of one read
  are drained first and handled one after the other.
\<close>

datatype input = Read bytes | Inject bytes

fun handle_result ::
  "parser \<Rightarrow> printer \<Rightarrow> 'd pump \<Rightarrow> frame_error + frame \<Rightarrow> 'd relay \<Rightarrow> 'd relay" where
  "handle_result parse render P (Inr f) r = snd (handle parse render P f r)"
| "handle_result parse render P (Inl (Oversize l)) r = note_down (OnAnomaly (OversizeFrame (pu_direction P) l)) r"

fun pump_loop ::
  "(char \<Rightarrow> bytes \<Rightarrow> nat option) \<Rightarrow> parser \<Rightarrow> printer \<Rightarrow> 'd pump \<Rightarrow> input list \<Rightarrow> splitter \<Rightarrow> 'd relay
     \<Rightarrow> (splitter \<times> 'd relay) option" where
  "pump_loop mc parse render P [] s r = Some (s, r)"
| "pump_loop mc parse render P (Inject payload # is) s r =
     pump_loop mc parse render P is s (r\<lparr>rl_out := rl_out r @ payload\<rparr>)"
| "pump_loop mc parse render P (Read chunk # is) s r =
     (if chunk = [] then Some (s, r)
      else Option.bind (drain (next_frame mc) (push chunk s)) (\<lambda>(results, s').
        pump_loop mc parse render P is s' (fold (handle_result parse render P) results r)))"

definition pump_end :: "parser \<Rightarrow> printer \<Rightarrow> 'd pump \<Rightarrow> splitter \<Rightarrow> 'd relay \<Rightarrow> 'd relay" where
  "pump_end parse render P s r =
     (let (residue, s') = finish s;
          r' = (case residue of
             None \<Rightarrow> r
           | Some f \<Rightarrow>
               (let (wrote, r1) = handle parse render P f (note_down (OnAnomaly (Unterminated (pu_direction P))) r)
                in if wrote \<and> \<not> is_terminated f then r1\<lparr>rl_out := rl_out r1 @ [NL]\<rparr> else r1))
      in note_down (OnEof (pu_direction P) (fs_stats s')) r')"

definition pump_run ::
  "(char \<Rightarrow> bytes \<Rightarrow> nat option) \<Rightarrow> parser \<Rightarrow> printer \<Rightarrow> 'd pump \<Rightarrow> input list \<Rightarrow> 'd relay \<Rightarrow> 'd relay option" where
  "pump_run mc parse render P is r =
     Option.bind (pump_loop mc parse render P is (splitter_new (pu_max P)) r)
       (\<lambda>(s, r'). Some (pump_end parse render P s r'))"

text \<open>The two decision points of the program: none at all, and the daemon's client with the answers it will get.\<close>

definition allow_all :: "unit point" where
  "allow_all = \<lparr>pt_decide = allow_all_decide, pt_observe = (\<lambda>_ s. s)\<rparr>"

definition daemon_point :: "parser \<Rightarrow> (bytes \<Rightarrow> bytes) \<Rightarrow> printer \<Rightarrow> (client \<times> reply list) point" where
  "daemon_point parse sha render =
     \<lparr>pt_decide = (\<lambda>(c, nets) ctx.
        (let (ans, c') = client_decide parse (case nets of [] \<Rightarrow> Closed | n # _ \<Rightarrow> n) c ctx
         in (ans, (c', if cl_degraded c \<or> \<not> cl_thread c then nets else drop 1 nets)))),
      pt_observe = (\<lambda>frame (c, nets). (observe_response parse sha render frame c, nets))\<rparr>"

section \<open>The loop is the frames of the stream\<close>

definition reads :: "input list \<Rightarrow> bytes list" where
  "reads is = List.map_filter (\<lambda>i. case i of Read c \<Rightarrow> Some c | Inject _ \<Rightarrow> None) is"

lemma pump_loop_reads:
  "\<forall>c \<in> set cs. c \<noteq> [] \<Longrightarrow>
   pump_loop mc parse render P (map Read cs) s r =
     Option.bind (feed push (next_frame mc) cs s) (\<lambda>(os, s'). Some (s', fold (handle_result parse render P) os r))"
proof (induction cs arbitrary: s r)
  case (Cons c cs)
  then show ?case
    by (cases "drain (next_frame mc) (push c s)") (auto simp: Option.bind_assoc split: prod.splits intro!: Option.bind_cong)
qed simp

lemma feed_frames:
  assumes "memchr_ok mc"
  shows "\<exists>os s. feed push (next_frame mc) cs (splitter_new m) = Some (os, s) \<and>
    oks os = map line_frame (filter (good_line m) (butlast (lines (concat cs))))"
proof -
  obtain os s where os: "feed push (next_frame mc) cs (splitter_new m) = Some (os, s)"
    using feed_run [OF assms] by blast
  have "oks os = map line_frame (filter (good_line m) (butlast (lines (concat cs))))"
    using feed_runE [OF assms os] lines_out_frames [of m "concat cs" "add_in (length (concat cs)) stats_default"]
    by (simp add: run_of_def)
  then show ?thesis using os by blast
qed

section \<open>What a frame becomes\<close>

definition is_deny :: "verdict option \<Rightarrow> bool" where
  "is_deny v \<longleftrightarrow> (case v of Some (Deny _ _) \<Rightarrow> True | _ \<Rightarrow> False)"

text \<open>The verdict on a frame and the next state of the decision point.\<close>

definition verdict_on :: "'d pump \<Rightarrow> frame \<Rightarrow> 'd \<Rightarrow> verdict option \<times> 'd" where
  "verdict_on P f d =
     (let (v, r) = judge_frame P f \<lparr>rl_out = [], rl_denied = [], rl_notes = [], rl_state = d\<rparr> in (v, rl_state r))"

fun verdicts :: "'d pump \<Rightarrow> frame list \<Rightarrow> 'd \<Rightarrow> verdict option list" where
  "verdicts P [] d = []"
| "verdicts P (f # fs) d = fst (verdict_on P f d) # verdicts P fs (snd (verdict_on P f d))"

text \<open>What goes back to the client for a frame.\<close>

definition refusal :: "parser \<Rightarrow> printer \<Rightarrow> frame \<times> verdict option \<Rightarrow> bytes list" where
  "refusal parse render fv =
     (case snd fv of
        Some (Deny rule msg) \<Rightarrow>
          (case deny_response parse render (content (fst fv)) rule msg of Some p \<Rightarrow> [p] | None \<Rightarrow> [])
      | _ \<Rightarrow> [])"

lemma note_down_simps [simp]:
  "rl_out (note_down n r) = rl_out r" "rl_denied (note_down n r) = rl_denied r"
  "rl_state (note_down n r) = rl_state r"
  by (simp_all add: note_down_def)

lemma judge_frame_parts:
  "judge_frame P f r = (v, r') \<Longrightarrow>
   verdict_on P f (rl_state r) = (v, rl_state r') \<and> rl_out r' = rl_out r \<and> rl_denied r' = rl_denied r"
  by (auto simp: judge_frame_def verdict_on_def Let_def note_down_def
      split: direction.splits disposition.splits option.splits prod.splits sum.splits)

lemma handle_parts:
  assumes "handle parse render P f r = (wrote, r')" and "verdict_on P f (rl_state r) = (v, d)"
  shows "wrote = (\<not> is_deny v)" and "rl_state r' = d"
    and "rl_out r' = rl_out r @ (if is_deny v then [] else raw f)"
    and "rl_denied r' = rl_denied r @ (if pu_return P then refusal parse render (f, v) else [])"
proof -
  obtain v0 r1 where j: "judge_frame P f r = (v0, r1)" by fastforce
  note jp = judge_frame_parts [OF j]
  have v: "v0 = v" "rl_state r1 = d" using jp assms(2) by auto
  show "wrote = (\<not> is_deny v)" "rl_state r' = d"
    "rl_out r' = rl_out r @ (if is_deny v then [] else raw f)"
    "rl_denied r' = rl_denied r @ (if pu_return P then refusal parse render (f, v) else [])"
    using assms(1) j jp v
    by (auto simp: handle_def is_deny_def refusal_def Let_def split: option.splits verdict.splits if_splits)
qed

lemma fold_results:
  "rl_out (fold (handle_result parse render P) os r) = rl_out r @
     concat (map (\<lambda>(f, v). if is_deny v then [] else raw f) (zip (oks os) (verdicts P (oks os) (rl_state r)))) \<and>
   rl_denied (fold (handle_result parse render P) os r) = rl_denied r @
     (if pu_return P then concat (map (refusal parse render) (zip (oks os) (verdicts P (oks os) (rl_state r)))) else [])"
proof (induction os arbitrary: r)
  case (Cons x os)
  show ?case
  proof (cases x)
    case (Inl e)
    obtain l where "e = Oversize l" by (cases e)
    then show ?thesis using Cons [of "note_down (OnAnomaly (OversizeFrame (pu_direction P) l)) r"] Inl by simp
  next
    case (Inr f)
    obtain w r' v d where h: "handle parse render P f r = (w, r')" "verdict_on P f (rl_state r) = (v, d)"
      by (meson surj_pair)
    show ?thesis using Cons [of r'] handle_parts [OF h] h Inr by simp
  qed
qed simp

text \<open>A small instance: a point that refuses every call, and a stream of two lines, one of them a call.\<close>

definition refusing_pump :: "nat pump" where
  "refusing_pump = \<lparr>pu_direction = ToServer, pu_max = 99,
     pu_point = \<lparr>pt_decide = (\<lambda>d ctx. (Inr (Deny ''r'' ''m''), d)), pt_observe = (\<lambda>_ d. d)\<rparr>, pu_return = True\<rparr>"

definition a_call :: bytes where "a_call = ''{\"method\":\"tools/call\"}''"

definition two_lines :: "bytes list" where "two_lines = [''{}'' @ [NL], a_call @ [NL]]"

definition idle_relay :: "nat relay" where
  "idle_relay = \<lparr>rl_out = [], rl_denied = [], rl_notes = [], rl_state = 0\<rparr>"

lemma idle_relay_parts [simp]:
  "rl_out idle_relay = []" "rl_denied idle_relay = []" "rl_notes idle_relay = []" "rl_state idle_relay = 0"
  by (simp_all add: idle_relay_def)

lemma refusing_pump_returns [simp]: "pu_return refusing_pump"
  by (simp add: refusing_pump_def)

lemma two_lines_nonempty: "\<forall>c \<in> set two_lines. c \<noteq> []"
  by (simp add: two_lines_def)

lemma two_lines_frames:
  "[line_frame ''{}'', line_frame a_call] =
     map line_frame (filter (good_line (pu_max refusing_pump)) (butlast (lines (concat two_lines))))"
  by (simp add: two_lines_def a_call_def refusing_pump_def good_line_def strip_cr_len_def)

lemma call_scan:
  "classify (scan_method a_call) = Decide" "found (scan_method a_call) = Some ''tools/call''"
  "scan_method ''{}'' = NoMethod"
  by code_simp+

lemma two_lines_content:
  "content (line_frame ''{}'') = ''{}''" "content (line_frame a_call) = a_call"
  by (simp_all add: content_def line_frame_def strip_cr_len_def a_call_def)

lemma refusing_verdicts:
  "verdict_on refusing_pump (line_frame ''{}'') 0 = (None, 0)"
  "verdict_on refusing_pump (line_frame a_call) 0 = (Some (Deny ''r'' ''m''), 0)"
  by (simp_all add: verdict_on_def judge_frame_def Let_def two_lines_content call_scan refusing_pump_def
      found_def [of NoMethod])

text \<open>
  C1: a refused call never reaches the server, and nothing else is held back: over any reads of a
  stream, the upstream receives the raw bytes of the frames whose verdict is not a denial, in order
  and untouched, and the return path receives one refusal for each denied frame that can be
  answered, in order.
\<close>

theorem denied_frames_never_leave:
  assumes "memchr_ok mc" and "\<forall>c \<in> set cs. c \<noteq> []" and "pu_return P"
    and "fs = map line_frame (filter (good_line (pu_max P)) (butlast (lines (concat cs))))"
  shows "\<exists>s r'. pump_loop mc parse render P (map Read cs) (splitter_new (pu_max P)) r = Some (s, r') \<and>
    rl_out r' = rl_out r @ concat (map (\<lambda>(f, v). if is_deny v then [] else raw f)
      (zip fs (verdicts P fs (rl_state r)))) \<and>
    rl_denied r' = rl_denied r @ concat (map (refusal parse render) (zip fs (verdicts P fs (rl_state r))))"
proof -
  obtain os s where os: "feed push (next_frame mc) cs (splitter_new (pu_max P)) = Some (os, s)"
    and fr: "oks os = fs"
    using feed_frames [OF assms(1), of cs "pu_max P"] assms(4) by blast
  then have run: "pump_loop mc parse render P (map Read cs) (splitter_new (pu_max P)) r =
      Some (s, fold (handle_result parse render P) os r)"
    unfolding pump_loop_reads [OF assms(2)] by simp
  show ?thesis using fold_results [of parse render P os r] run fr assms(3) by auto
qed

theorem denied_frames_never_leave_witness:
  "\<exists>s r'. pump_loop first_index (\<lambda>_. Some (JObject [(''id'', JNumber ''1'')])) (\<lambda>_. ''refused'')
      refusing_pump (map Read two_lines) (splitter_new (pu_max refusing_pump)) idle_relay = Some (s, r') \<and>
    rl_out r' = ''{}'' @ [NL] \<and> rl_denied r' = [''refused'' @ [NL]]"
proof -
  have ref: "refusal (\<lambda>_. Some (JObject [(''id'', JNumber ''1'')])) (\<lambda>_. ''refused'')
      (line_frame a_call, Some (Deny ''r'' ''m'')) = [''refused'' @ [NL]]"
    by (simp add: refusal_def deny_response_def)
  have raw: "raw (line_frame l) = l @ [NL]" for l by (simp add: line_frame_def)
  have none: "refusal parse render (f, None) = []" for parse render f by (simp add: refusal_def)
  show ?thesis
    using denied_frames_never_leave [OF memchr_ok_first_index two_lines_nonempty _ two_lines_frames,
        of "\<lambda>_. Some (JObject [(''id'', JNumber ''1'')])" "\<lambda>_. ''refused''" idle_relay]
    by (simp add: refusing_verdicts ref is_deny_def raw none del: pump_loop.simps)
qed

section \<open>Decision points that never deny\<close>

text \<open>
  The contract the availability rule rests on: from a state that is \<open>ok\<close>, every call is allowed or
  fails open, and the state stays so.
\<close>

locale lenient_point =
  fixes pt :: "'d point" and ok :: "'d \<Rightarrow> bool"
  assumes decide_ok: "ok d \<Longrightarrow> pt_decide pt d ctx = (ans, d') \<Longrightarrow>
      ok d' \<and> (case ans of Inr v \<Rightarrow> v = Allow | Inl e \<Rightarrow> \<not> err_fail_closed e)"
    and observe_ok: "ok d \<Longrightarrow> ok (pt_observe pt f d)"
begin

lemma verdict_lenient:
  assumes "pu_point P = pt" "ok d" "verdict_on P f d = (v, d')"
  shows "\<not> is_deny v \<and> ok d'"
  using assms decide_ok [of d "\<lparr>ctx_method = m, ctx_frame = content f\<rparr>" for m] observe_ok [of d "content f"]
  by (auto simp: verdict_on_def judge_frame_def is_deny_def note_down_def Let_def
      split: direction.splits disposition.splits option.splits prod.splits sum.splits if_splits; fastforce)

lemma verdicts_lenient:
  assumes "pu_point P = pt" "ok d"
  shows "\<forall>v \<in> set (verdicts P fs d). \<not> is_deny v"
  using assms(2)
proof (induction fs arbitrary: d)
  case (Cons f fs)
  obtain v d' where v: "verdict_on P f d = (v, d')" by fastforce
  show ?case using verdict_lenient [OF assms(1) Cons.prems v] Cons.IH [of d'] v by simp
qed simp

lemma fold_lenient:
  assumes "pu_point P = pt" "ok (rl_state r)"
  shows "rl_out (fold (handle_result parse render P) os r) = rl_out r @ concat (map raw (oks os)) \<and>
    rl_denied (fold (handle_result parse render P) os r) = rl_denied r"
proof -
  have none: "\<forall>v \<in> set (verdicts P fs d). \<not> is_deny v \<Longrightarrow> length vs = length fs \<Longrightarrow> vs = verdicts P fs d \<Longrightarrow>
      map (\<lambda>(f, v). if is_deny v then [] else raw f) (zip fs vs) = map raw fs \<and>
      concat (map (refusal parse render) (zip fs vs)) = []" for fs vs d
    by (induction fs vs arbitrary: d rule: list_induct2') (auto simp: refusal_def is_deny_def split: option.splits verdict.splits)
  have "length (verdicts P fs d) = length fs" for fs d by (induction fs arbitrary: d) simp_all
  then show ?thesis
    using fold_results [of parse render P os r] none [OF verdicts_lenient [OF assms]] by simp
qed

lemma state_lenient:
  assumes "pu_point P = pt" "ok (rl_state r)"
  shows "ok (rl_state (fold (handle_result parse render P) os r))"
  using assms(2)
proof (induction os arbitrary: r)
  case (Cons x os)
  show ?case
  proof (cases x)
    case (Inl e)
    obtain l where "e = Oversize l" by (cases e)
    then show ?thesis using Cons Inl by simp
  next
    case (Inr f)
    obtain w r' v d where h: "handle parse render P f r = (w, r')" "verdict_on P f (rl_state r) = (v, d)"
      by (meson surj_pair)
    have "ok (rl_state r')" using verdict_lenient [OF assms(1) Cons.prems h(2)] handle_parts(2) [OF h] by simp
    then show ?thesis using Cons.IH [of r'] h Inr by simp
  qed
qed simp

lemma end_lenient:
  assumes "pu_point P = pt" "ok (rl_state r)"
  shows "rl_out (pump_end parse render P s r) = rl_out r @
      (case fst (finish s) of None \<Rightarrow> [] | Some f \<Rightarrow> raw f @ (if is_terminated f then [] else [NL])) \<and>
    rl_denied (pump_end parse render P s r) = rl_denied r"
proof (cases "finish s")
  case (Pair residue s')
  show ?thesis
  proof (cases residue)
    case None
    then show ?thesis using Pair by (simp add: pump_end_def)
  next
    case (Some f)
    let ?r = "note_down (OnAnomaly (Unterminated (pu_direction P))) r"
    obtain w r' v d where h: "handle parse render P f ?r = (w, r')" "verdict_on P f (rl_state ?r) = (v, d)"
      by (meson surj_pair)
    have "\<not> is_deny v" using verdict_lenient [OF assms(1) _ h(2)] assms(2) by simp
    then have "refusal parse render (f, v) = []"
      by (auto simp: refusal_def is_deny_def split: option.splits verdict.splits)
    then show ?thesis using Pair Some handle_parts [OF h] h(1) \<open>\<not> is_deny v\<close> by (simp add: pump_end_def)
  qed
qed

lemma run_lenient:
  assumes "memchr_ok mc" "\<forall>c \<in> set cs. c \<noteq> []" "pu_point P = pt" "ok (rl_state r)"
    and "res = last (lines (concat cs))"
  shows "\<exists>r'. pump_run mc parse render P (map Read cs) r = Some r' \<and> rl_denied r' = rl_denied r \<and>
    rl_out r' = rl_out r @
      concat (map (\<lambda>l. l @ [NL]) (filter (good_line (pu_max P)) (butlast (lines (concat cs))))) @
      (if pu_max P < length res \<or> strip_cr_len res = 0 then []
       else res @ (if last res = CR then [] else [NL]))"
proof -
  obtain os s where os: "feed push (next_frame mc) cs (splitter_new (pu_max P)) = Some (os, s)"
    and fr: "oks os = map line_frame (filter (good_line (pu_max P)) (butlast (lines (concat cs))))"
    using feed_frames [OF assms(1), of cs "pu_max P"] by blast
  let ?r = "fold (handle_result parse render P) os r"
  from fr have frames: "map raw (oks os) = map (\<lambda>l. l @ [NL]) (filter (good_line (pu_max P)) (butlast (lines (concat cs))))"
    by (simp add: line_frame_def)
  have fin: "fst (finish s) = (if pu_max P < length res \<or> strip_cr_len res = 0 then None
      else Some \<lparr>raw = res, content_len = strip_cr_len res\<rparr>)"
    using finish_residue [OF assms(1) os assms(5)] .
  have tmd: "is_terminated \<lparr>raw = res, content_len = strip_cr_len res\<rparr> \<longleftrightarrow> last res = CR" if "strip_cr_len res \<noteq> 0"
    using that by (cases res rule: rev_cases) (auto simp: is_terminated_def strip_cr_len_def)
  have "pump_run mc parse render P (map Read cs) r = Some (pump_end parse render P s ?r)"
    by (simp add: pump_run_def pump_loop_reads [OF assms(2)] os)
  moreover have "rl_out (pump_end parse render P s ?r) = rl_out r @
      concat (map (\<lambda>l. l @ [NL]) (filter (good_line (pu_max P)) (butlast (lines (concat cs))))) @
      (if pu_max P < length res \<or> strip_cr_len res = 0 then []
       else res @ (if last res = CR then [] else [NL]))"
    using end_lenient [OF assms(3) state_lenient [OF assms(3,4)]] fold_lenient [OF assms(3,4)] frames fin tmd
    by (simp add: fin)
  moreover have "rl_denied (pump_end parse render P s ?r) = rl_denied r"
    using end_lenient [OF assms(3) state_lenient [OF assms(3,4)]] fold_lenient [OF assms(3,4)] by simp
  ultimately show ?thesis by blast
qed

end

interpretation no_policy: lenient_point allow_all "\<lambda>_. True"
  by unfold_locales (auto simp: allow_all_def allow_all_decide_def)

text \<open>A shim that has lost its daemon, and was not told to fail closed.\<close>

definition lost :: "client \<times> reply list \<Rightarrow> bool" where
  "lost cn \<longleftrightarrow> cl_degraded (fst cn) \<and> \<not> cl_fail_closed (fst cn)"

lemma observe_keeps [simp]:
  "cl_degraded (observe_response parse sha render frame c) = cl_degraded c"
  "cl_fail_closed (observe_response parse sha render frame c) = cl_fail_closed c"
  by (auto simp: observe_response_def note_server_name_def send_only_def Let_def split: option.splits)

lemma observe_session [simp]: "cl_session (observe_response parse sha render frame c) = cl_session c"
  by (auto simp: observe_response_def note_server_name_def send_only_def Let_def split: option.splits)

lemma note_session [simp]: "cl_session (note_if_local_read parse ctx c) = cl_session c"
  by (simp add: note_if_local_read_def Let_def split: option.splits)

interpretation lost_daemon: lenient_point "daemon_point parse sha render" lost
  by unfold_locales
    (auto simp: daemon_point_def lost_def client_decide_def client_error_def split_def)

text \<open>A shim that never gets a question out, because its scope holds a path that cannot be written as JSON.\<close>

definition mute :: "client \<times> reply list \<Rightarrow> bool" where
  "mute cn \<longleftrightarrow> (cl_degraded (fst cn) \<or> \<not> list_all utf8_valid (si_scope_paths (cl_session (fst cn)))) \<and> \<not> cl_fail_closed (fst cn)"

lemma lost_mute: "lost cn \<Longrightarrow> mute cn"
  by (simp add: lost_def mute_def)

lemma unsendable:
  "\<not> list_all utf8_valid (si_scope_paths (cl_session c)) \<Longrightarrow> client_decide parse net c ctx = (ans, c') \<Longrightarrow>
   (\<exists>e. ans = Inl e \<and> err_fail_closed e = cl_fail_closed c) \<and> cl_degraded c' \<and> cl_session c' = cl_session c \<and>
   cl_fail_closed c' = cl_fail_closed c"
  by (auto simp: client_decide_def client_error_def sendable_def decide_message_def Let_def split: if_splits)

interpretation mute_shim: lenient_point "daemon_point parse sha render" mute
proof (unfold_locales, goal_cases)
  case (1 d ctx ans d')
  then show ?case
    using lost_daemon.decide_ok [of d parse sha render ctx ans d'] lost_mute [of d']
      unsendable [of "fst d" parse "case snd d of [] \<Rightarrow> Closed | n # _ \<Rightarrow> n" ctx]
    by (cases d) (force simp: lost_def mute_def daemon_point_def split: prod.splits)
next
  case (2 d f)
  then show ?case by (auto simp: daemon_point_def mute_def split: prod.splits)
qed

text \<open>
  Without a policy the relay is transparent: whatever the size of the reads, what comes out is
  every complete line that is neither blank nor over the ceiling, byte for byte and in order, then
  the unterminated rest with a newline added, and nothing is refused.  The newline is not added to a
  rest that ends in a carriage return.
\<close>

theorem relay_without_policy_is_transparent:
  assumes "memchr_ok mc" and "\<forall>c \<in> set cs. c \<noteq> []" and "pu_point P = allow_all"
    and "res = last (lines (concat cs))"
  shows "\<exists>r'. pump_run mc parse render P (map Read cs) r = Some r' \<and> rl_denied r' = rl_denied r \<and>
    rl_out r' = rl_out r @
      concat (map (\<lambda>l. l @ [NL]) (filter (good_line (pu_max P)) (butlast (lines (concat cs))))) @
      (if pu_max P < length res \<or> strip_cr_len res = 0 then []
       else res @ (if last res = CR then [] else [NL]))"
  by (rule no_policy.run_lenient [OF assms(1,2,3) TrueI assms(4)])

theorem relay_without_policy_is_transparent_witness:
  "\<exists>r'. pump_run first_index (\<lambda>_. None) (\<lambda>_. [])
      \<lparr>pu_direction = ToServer, pu_max = 9, pu_point = allow_all, pu_return = True\<rparr>
      (map Read [''{}'', [NL, NL] @ ''[]''])
      \<lparr>rl_out = [], rl_denied = [], rl_notes = [], rl_state = ()\<rparr> = Some r' \<and>
    rl_out r' = ''{}'' @ [NL] @ ''[]'' @ [NL]"
  using relay_without_policy_is_transparent [of first_index "[''{}'', [NL, NL] @ ''[]'']"
      "\<lparr>pu_direction = ToServer, pu_max = 9, pu_point = allow_all, pu_return = True\<rparr>" "''[]''" "\<lambda>_. None" "\<lambda>_. []"
      "\<lparr>rl_out = [], rl_denied = [], rl_notes = [], rl_state = ()\<rparr>"]
  by (fastforce simp: good_line_def strip_cr_len_def)

text \<open>
  Losing the daemon costs a policy, never a session: once the shim is degraded, the rest of the
  session is relayed as if there were no policy, unless it was told to fail closed.
\<close>

theorem lost_daemon_lets_traffic_through:
  assumes "memchr_ok mc" and "\<forall>c \<in> set cs. c \<noteq> []" and "pu_point P = daemon_point parse sha render"
    and "rl_state r = (c, nets)" and "cl_degraded c" and "\<not> cl_fail_closed c"
    and "res = last (lines (concat cs))"
  shows "\<exists>r'. pump_run mc parse render P (map Read cs) r = Some r' \<and> rl_denied r' = rl_denied r \<and>
    rl_out r' = rl_out r @
      concat (map (\<lambda>l. l @ [NL]) (filter (good_line (pu_max P)) (butlast (lines (concat cs))))) @
      (if pu_max P < length res \<or> strip_cr_len res = 0 then []
       else res @ (if last res = CR then [] else [NL]))"
proof -
  have "lost (rl_state r)" using assms(4-6) by (simp add: lost_def)
  then show ?thesis by (rule lost_daemon.run_lenient [OF assms(1,2,3) _ assms(7)])
qed

theorem lost_daemon_lets_traffic_through_witness:
  "\<exists>r'. pump_run first_index (\<lambda>_. None) (\<lambda>_. [])
      \<lparr>pu_direction = ToServer, pu_max = 99, pu_point = daemon_point (\<lambda>_. None) (\<lambda>x. x) (\<lambda>_. []), pu_return = True\<rparr>
      (map Read [''{}'', [NL]])
      \<lparr>rl_out = [], rl_denied = [], rl_notes = [], rl_state = (\<lparr>cl_thread = False, cl_sent = [], cl_inflight = [], cl_degraded = True, cl_fail_closed = False, cl_server = None, cl_session = \<lparr>si_scope_key = [], si_scope_source = [], si_scope_paths = [], si_server = None, si_session_id = 1\<rparr>, cl_timeout = 90\<rparr>, [])\<rparr> = Some r' \<and> rl_out r' = ''{}'' @ [NL]"
  using lost_daemon_lets_traffic_through [of first_index "[''{}'', [NL]]"
      "\<lparr>pu_direction = ToServer, pu_max = 99, pu_point = daemon_point (\<lambda>_. None) (\<lambda>x. x) (\<lambda>_. []), pu_return = True\<rparr>"
      "\<lambda>_. None" "\<lambda>x. x" "\<lambda>_. []" "\<lparr>rl_out = [], rl_denied = [], rl_notes = [], rl_state = (\<lparr>cl_thread = False, cl_sent = [], cl_inflight = [], cl_degraded = True, cl_fail_closed = False, cl_server = None, cl_session = \<lparr>si_scope_key = [], si_scope_source = [], si_scope_paths = [], si_server = None, si_session_id = 1\<rparr>, cl_timeout = 90\<rparr>, [])\<rparr>"
      "\<lparr>cl_thread = False, cl_sent = [], cl_inflight = [], cl_degraded = True, cl_fail_closed = False, cl_server = None, cl_session = \<lparr>si_scope_key = [], si_scope_source = [], si_scope_paths = [], si_server = None, si_session_id = 1\<rparr>, cl_timeout = 90\<rparr>" "[]" "[]"]
  by (fastforce simp: good_line_def strip_cr_len_def)

end
