(* ===== verification/Net.thy ===== *)
theory Net
  imports Scope
begin

text \<open>
  Socket addresses as \<open>std::net\<close> reads them: the text of an IPv4 or IPv6 address with its port, and
  whether the address is a loopback one.  A reader consumes a prefix of the text.
\<close>

datatype ip = V4 "nat list" | V6 "nat list"

definition read_given :: "char \<Rightarrow> bytes \<Rightarrow> bytes option" where
  "read_given c s = (case s of [] \<Rightarrow> None | d # r \<Rightarrow> if d = c then Some r else None)"

definition digit_in :: "nat \<Rightarrow> char \<Rightarrow> nat option" where
  "digit_in radix c = (case hex_digit c of Some v \<Rightarrow> if v < radix then Some v else None | None \<Rightarrow> None)"

definition read_number :: "nat \<Rightarrow> nat option \<Rightarrow> bool \<Rightarrow> nat \<Rightarrow> bytes \<Rightarrow> (nat \<times> bytes) option" where
  "read_number radix max_digits zero_prefix limit s =
     (let ds = takeWhile (\<lambda>c. digit_in radix c \<noteq> None) s;
          v = fold (\<lambda>c n. radix * n + (case digit_in radix c of Some d \<Rightarrow> d | None \<Rightarrow> 0)) ds 0
      in if ds = [] \<or> limit < v \<or> (case max_digits of Some m \<Rightarrow> m < length ds | None \<Rightarrow> False) \<or>
            (\<not> zero_prefix \<and> hd ds = CHR ''0'' \<and> 1 < length ds)
         then None else Some (v, drop (length ds) s))"

definition separated :: "char \<Rightarrow> bool \<Rightarrow> bytes \<Rightarrow> bytes option" where
  "separated c first s = (if first then Some s else read_given c s)"

fun read_v4 :: "nat \<Rightarrow> bool \<Rightarrow> bytes \<Rightarrow> (nat list \<times> bytes) option" where
  "read_v4 0 first s = Some ([], s)"
| "read_v4 (Suc n) first s =
     Option.bind (separated (CHR ''.'') first s) (\<lambda>s1.
     Option.bind (read_number 10 (Some 3) False 255 s1) (\<lambda>(v, s2).
     Option.bind (read_v4 n False s2) (\<lambda>(vs, s3). Some (v # vs, s3))))"

text \<open>Groups of an IPv6 address; with two places left or more an IPv4 address may stand for two groups.\<close>

fun read_groups :: "nat \<Rightarrow> bool \<Rightarrow> bytes \<Rightarrow> nat list \<times> bool \<times> bytes" where
  "read_groups 0 first s = ([], False, s)"
| "read_groups (Suc n) first s =
     (case separated (CHR '':'') first s of
        None \<Rightarrow> ([], False, s)
      | Some s1 \<Rightarrow>
          (case (if n = 0 then None else read_v4 4 True s1) of
             Some ([a, b, c, d], s2) \<Rightarrow> ([256 * a + b, 256 * c + d], True, s2)
           | _ \<Rightarrow>
               (case read_number 16 (Some 4) True 65535 s1 of
                  None \<Rightarrow> ([], False, s)
                | Some (g, s2) \<Rightarrow> (let (gs, v4, s3) = read_groups n False s2 in (g # gs, v4, s3)))))"

definition read_v6 :: "bytes \<Rightarrow> (nat list \<times> bytes) option" where
  "read_v6 s =
     (let (front, v4, s1) = read_groups 8 True s in
      if length front = 8 then Some (front, s1)
      else if v4 then None
      else Option.bind (read_given (CHR '':'') s1) (\<lambda>s2.
           Option.bind (read_given (CHR '':'') s2) (\<lambda>s3.
             let (back, _, s4) = read_groups (8 - (length front + 1)) True s3
             in Some (front @ replicate (8 - length front - length back) 0 @ back, s4))))"

definition read_port :: "bytes \<Rightarrow> (nat \<times> bytes) option" where
  "read_port s = Option.bind (read_given (CHR '':'') s) (read_number 10 None True 65535)"

definition read_scope_id :: "bytes \<Rightarrow> bytes" where
  "read_scope_id s =
     (case Option.bind (read_given (CHR ''%'') s) (read_number 10 None True (2 ^ 32 - 1)) of
        Some (_, r) \<Rightarrow> r | None \<Rightarrow> s)"

definition read_socket_v4 :: "bytes \<Rightarrow> ((ip \<times> nat) \<times> bytes) option" where
  "read_socket_v4 s =
     Option.bind (read_v4 4 True s) (\<lambda>(a, s1). Option.bind (read_port s1) (\<lambda>(p, s2). Some ((V4 a, p), s2)))"

definition read_socket_v6 :: "bytes \<Rightarrow> ((ip \<times> nat) \<times> bytes) option" where
  "read_socket_v6 s =
     Option.bind (read_given (CHR ''['') s) (\<lambda>s1.
     Option.bind (read_v6 s1) (\<lambda>(a, s2).
     Option.bind (read_given (CHR '']'') (read_scope_id s2)) (\<lambda>s3.
     Option.bind (read_port s3) (\<lambda>(p, s4). Some ((V6 a, p), s4)))))"

definition parse_socket :: "bytes \<Rightarrow> (ip \<times> nat) option" where
  "parse_socket s =
     (case (case read_socket_v4 s of Some x \<Rightarrow> Some x | None \<Rightarrow> read_socket_v6 s) of
        Some (a, []) \<Rightarrow> Some a
      | _ \<Rightarrow> None)"

fun is_loopback :: "ip \<Rightarrow> bool" where
  "is_loopback (V4 a) = (case a of b # _ \<Rightarrow> b = 127 | [] \<Rightarrow> False)"
| "is_loopback (V6 a) = (a = [0, 0, 0, 0, 0, 0, 0, 1])"

lemma read_v4_numeral:
  "read_v4 (numeral k) first s =
     Option.bind (separated (CHR ''.'') first s) (\<lambda>s1.
     Option.bind (read_number 10 (Some 3) False 255 s1) (\<lambda>(v, s2).
     Option.bind (read_v4 (pred_numeral k) False s2) (\<lambda>(vs, s3). Some (v # vs, s3))))"
  by (simp only: numeral_eq_Suc read_v4.simps)

lemma read_groups_numeral:
  "read_groups (numeral k) first s =
     (case separated (CHR '':'') first s of
        None \<Rightarrow> ([], False, s)
      | Some s1 \<Rightarrow>
          (case (if pred_numeral k = 0 then None else read_v4 4 True s1) of
             Some ([a, b, c, d], s2) \<Rightarrow> ([256 * a + b, 256 * c + d], True, s2)
           | _ \<Rightarrow>
               (case read_number 16 (Some 4) True 65535 s1 of
                  None \<Rightarrow> ([], False, s)
                | Some (g, s2) \<Rightarrow> (let (gs, v4, s3) = read_groups (pred_numeral k) False s2 in (g # gs, v4, s3)))))"
  by (simp only: numeral_eq_Suc [of k] read_groups.simps)

lemmas socket_defs = parse_socket_def read_socket_v4_def read_socket_v6_def read_v6_def read_scope_id_def
  read_port_def read_number_def separated_def read_given_def digit_in_def hex_digit_def is_ascii_digit_def
  byte_def read_v4_numeral read_groups_numeral

lemma socket_v4_example: "parse_socket ''127.0.0.1:8787'' = Some (V4 [127, 0, 0, 1], 8787)"
  by (simp add: socket_defs)

lemma socket_v6_example: "parse_socket ''[::1]:80'' = Some (V6 [0, 0, 0, 0, 0, 0, 0, 1], 80)"
  by (simp add: socket_defs Let_def, simp add: eval_nat_numeral)

end
