(* ===== verification/Http.thy ===== *)
theory Http
  imports Relay Net
begin

text \<open>
  \<open>transport/http.rs\<close>: the proxy of the streamable HTTP transport.  \<open>http::Uri\<close> and the client that
  calls the upstream are third-party: a record of functions and an argument.  A body is its bytes, a
  streamed body the list of its chunks.
\<close>

section \<open>Headers\<close>

definition MAX_REQUEST_BYTES :: nat where "MAX_REQUEST_BYTES = 32 * 1024 * 1024"

definition HOP_BY_HOP :: "bytes list" where
  "HOP_BY_HOP = [''connection'', ''keep-alive'', ''proxy-authenticate'', ''proxy-authorization'', ''te'',
     ''trailer'', ''transfer-encoding'', ''upgrade'']"

definition strip_from_request :: "bytes \<Rightarrow> bool" where
  "strip_from_request n \<longleftrightarrow> list_ex (\<lambda>h. eq_ignore_ascii_case h n) HOP_BY_HOP \<or>
     eq_ignore_ascii_case n ''host'' \<or> eq_ignore_ascii_case n ''content-length''"

definition strip_from_response :: "bytes \<Rightarrow> bool" where
  "strip_from_response n \<longleftrightarrow> list_ex (\<lambda>h. eq_ignore_ascii_case h n) HOP_BY_HOP"

section \<open>Routes\<close>

record 'u uri_lib =
  uri_parse :: "bytes \<Rightarrow> 'u option"
  uri_scheme :: "'u \<Rightarrow> bytes option"
  uri_path :: "'u \<Rightarrow> bytes"
  uri_set_path_and_query :: "'u \<Rightarrow> bytes \<Rightarrow> 'u option"

record 'u route =
  rt_name :: bytes
  rt_upstream :: 'u

record route_table =
  tb_listen :: bytes
  tb_routes :: "(bytes \<times> bytes) list"

definition default_listen :: bytes where "default_listen = ''127.0.0.1:8787''"

definition route_table_default :: route_table where
  "route_table_default = \<lparr>tb_listen = default_listen, tb_routes = []\<rparr>"

text \<open>\<open>RouteTable::load\<close> on the text of the file; unknown fields are ignored, \<open>routes\<close> is a sorted map.\<close>

definition load_routes :: "parser \<Rightarrow> bytes option \<Rightarrow> route_table option" where
  "load_routes parse contents =
     Option.bind (Option.bind contents parse) (\<lambda>v.
     Option.bind (as_object v) (\<lambda>m.
     Option.bind (case map_of m ''listen'' of None \<Rightarrow> Some default_listen | Some l \<Rightarrow> as_str l) (\<lambda>listen.
     Option.bind (case map_of m ''routes'' of None \<Rightarrow> Some [] | Some r \<Rightarrow> as_object r) (\<lambda>rs.
       if list_all (\<lambda>(_, u). as_str u \<noteq> None) rs
       then Some \<lparr>tb_listen = listen, tb_routes = map (\<lambda>(n, u). (n, case as_str u of Some s \<Rightarrow> s | None \<Rightarrow> [])) rs\<rparr>
       else None))))"

datatype resolve_error = NotAnAddress bytes | NotLoopback | NotAUrl bytes | BadScheme bytes

fun resolve_routes :: "'u uri_lib \<Rightarrow> (bytes \<times> bytes) list \<Rightarrow> resolve_error + 'u route list" where
  "resolve_routes U [] = Inr []"
| "resolve_routes U ((name, url) # rest) =
     (case uri_parse U url of
        None \<Rightarrow> Inl (NotAUrl name)
      | Some u \<Rightarrow>
          if uri_scheme U u = Some ''http'' \<or> uri_scheme U u = Some ''https''
          then (case resolve_routes U rest of
                  Inl e \<Rightarrow> Inl e
                | Inr rs \<Rightarrow> Inr (\<lparr>rt_name = name, rt_upstream = u\<rparr> # rs))
          else Inl (BadScheme name))"

definition resolve_table :: "'u uri_lib \<Rightarrow> route_table \<Rightarrow> resolve_error + (ip \<times> nat) \<times> 'u route list" where
  "resolve_table U t =
     (case parse_socket (tb_listen t) of
        None \<Rightarrow> Inl (NotAnAddress (tb_listen t))
      | Some addr \<Rightarrow>
          if \<not> is_loopback (fst addr) then Inl NotLoopback
          else (case resolve_routes U (tb_routes t) of Inl e \<Rightarrow> Inl e | Inr rs \<Rightarrow> Inr (addr, rs)))"

definition route_for :: "'u route list \<Rightarrow> bytes \<Rightarrow> ('u route \<times> bytes) option" where
  "route_for routes path =
     (let trimmed = trim_start_matches (CHR ''/'') path;
          (front, rest) = (case split_once ''/'' trimmed of
             Some (h, r) \<Rightarrow> (h, CHR ''/'' # r) | None \<Rightarrow> (trimmed, []))
      in map_option (\<lambda>r. (r, rest)) (find (\<lambda>r. rt_name r = front) routes))"

definition join_uri :: "'u uri_lib \<Rightarrow> 'u \<Rightarrow> bytes \<Rightarrow> bytes option \<Rightarrow> 'u option" where
  "join_uri U up rest query =
     (let path = trim_end_matches (CHR ''/'') (uri_path U up) @ rest;
          path' = (if path = [] then ''/'' else path);
          full = (case query of Some q \<Rightarrow> if q = [] then path' else path' @ ''?'' @ q | None \<Rightarrow> path')
      in uri_set_path_and_query U up full)"

section \<open>One request\<close>

record http_request =
  hq_method :: bytes
  hq_path :: bytes
  hq_query :: "bytes option"
  hq_headers :: "(bytes \<times> bytes) list"
  hq_body :: "bytes option"

record 'u upstream_request =
  uq_method :: bytes
  uq_target :: 'u
  uq_headers :: "(bytes \<times> bytes) list"
  uq_body :: bytes

text \<open>What the handler does before any exchange: an answer of its own, a request to forward, or an error.\<close>

datatype 'u turn = Reply nat bytes bytes | Forward "'u upstream_request" | Failed

definition text_response :: "nat \<Rightarrow> bytes \<Rightarrow> 'u turn" where
  "text_response status message = Reply status ''text/plain; charset=utf-8'' message"

definition json_response :: "nat \<Rightarrow> bytes \<Rightarrow> 'u turn" where
  "json_response status body = Reply status ''application/json'' body"

definition verdict_for ::
  "parser \<Rightarrow> printer \<Rightarrow> 'd point \<Rightarrow> method_scan \<Rightarrow> bytes \<Rightarrow> 'd \<Rightarrow> bytes option \<times> 'd" where
  "verdict_for parse render pt sc frame d =
     (case found sc of
        None \<Rightarrow> (None, d)
      | Some m \<Rightarrow>
          if classify sc \<noteq> Decide then (None, d)
          else (let (ans, d') = pt_decide pt d \<lparr>ctx_method = m, ctx_frame = frame\<rparr> in
            (case ans of
               Inr (Deny rule msg) \<Rightarrow> deny_response parse render frame rule msg
             | Inr Allow \<Rightarrow> None
             | Inl e \<Rightarrow>
                 if err_fail_closed e
                 then deny_response parse render frame ''fail_closed'' ''policy engine unavailable''
                 else None, d')))"

definition forwarded :: "http_request \<Rightarrow> 'u \<Rightarrow> bytes \<Rightarrow> 'u turn" where
  "forwarded q target body = Forward \<lparr>uq_method = hq_method q, uq_target = target,
     uq_headers = filter (\<lambda>(n, _). \<not> strip_from_request n) (hq_headers q), uq_body = body\<rparr>"

definition handle_request ::
  "parser \<Rightarrow> printer \<Rightarrow> 'u uri_lib \<Rightarrow> 'u route list \<Rightarrow> 'd point \<Rightarrow> http_request \<Rightarrow> 'd \<Rightarrow> 'u turn \<times> 'd" where
  "handle_request parse render U routes pt q d =
     (case route_for routes (hq_path q) of
        None \<Rightarrow> (text_response 404 ''mcpwall: no server is routed here'', d)
      | Some (r, rest) \<Rightarrow>
          (case join_uri U (rt_upstream r) rest (hq_query q) of
             None \<Rightarrow> (Failed, d)
           | Some target \<Rightarrow>
               if hq_method q \<noteq> ''POST'' then (forwarded q target [], d)
               else (case hq_body q of
                  None \<Rightarrow> (Failed, d)
                | Some body \<Rightarrow>
                    if MAX_REQUEST_BYTES < length body
                    then (text_response 413 ''mcpwall: request over the 32 MB ceiling'', d)
                    else (let (blocked, d') = verdict_for parse render pt (scan_method body) body d in
                      (case blocked of
                         Some body' \<Rightarrow> (json_response 200 body', d')
                       | None \<Rightarrow> (forwarded q target body, d'))))))"

section \<open>The response\<close>

text \<open>Offset just past the first blank line.\<close>

fun event_end :: "nat \<Rightarrow> bytes \<Rightarrow> nat option" where
  "event_end i (a # b # r) =
     (if a = NL \<and> b = NL then Some (i + 2)
      else if starts_with (a # b # r) [CR, NL, CR, NL] then Some (i + 4)
      else event_end (i + 1) (b # r))"
| "event_end i _ = None"

definition find_event_end :: "bytes \<Rightarrow> nat option" where
  "find_event_end buffer = event_end 0 buffer"

definition strip_cr :: "bytes \<Rightarrow> bytes" where
  "strip_cr line = (if ends_with line [CR] then butlast line else line)"

text \<open>The \<open>data:\<close> payloads of one event.\<close>

definition payload_of :: "bytes \<Rightarrow> bytes option" where
  "payload_of line =
     (case strip_prefix ''data:'' (strip_cr line) of
        None \<Rightarrow> None
      | Some rest \<Rightarrow>
          (let payload = (case strip_prefix '' '' rest of Some p \<Rightarrow> p | None \<Rightarrow> rest)
           in if payload = [] then None else Some payload))"

definition event_payloads :: "bytes \<Rightarrow> bytes list" where
  "event_payloads event = List.map_filter payload_of (split_on (\<lambda>b. b = NL) event)"

lemma event_end_bounds: "event_end i s = Some e \<Longrightarrow> i < e \<and> e \<le> i + length s"
  by (induction i s arbitrary: e rule: event_end.induct)
    (fastforce simp: starts_with_def split: if_splits dest: arg_cong [of _ _ length])+

function drain_events :: "bytes \<Rightarrow> bytes list \<times> bytes" where
  "drain_events buffer =
     (case find_event_end buffer of
        None \<Rightarrow> ([], buffer)
      | Some e \<Rightarrow> (let (out, rest) = drain_events (drop e buffer) in (event_payloads (take e buffer) @ out, rest)))"
  by pat_completeness auto
termination drain_events
  by (relation "measure length") (auto simp: find_event_end_def dest: event_end_bounds)

declare drain_events.simps [simp del]

definition take_messages :: "parser \<Rightarrow> bytes \<Rightarrow> bytes list \<times> bytes" where
  "take_messages parse buffer =
     (let (out, rest) = drain_events buffer;
          (out', rest') = (if out = [] \<and> rest \<noteq> [] \<and> parse rest \<noteq> None then ([rest], []) else (out, rest))
      in (out', if MAX_REQUEST_BYTES < length rest' then [] else rest'))"

text \<open>
  \<open>observe_stream\<close>: every chunk goes on as it came; the complete messages of the buffer are offered
  to the decision point.
\<close>

fun observe_stream :: "parser \<Rightarrow> 'd point \<Rightarrow> bytes list \<Rightarrow> bytes \<Rightarrow> 'd \<Rightarrow> bytes list \<times> bytes \<times> 'd" where
  "observe_stream parse pt [] buffer d = ([], buffer, d)"
| "observe_stream parse pt (chunk # chunks) buffer d =
     (let (messages, buffer') = take_messages parse (buffer @ chunk);
          (out, final) = observe_stream parse pt chunks buffer' (fold (pt_observe pt) messages d)
      in (chunk # out, final))"

record http_response =
  hr_status :: nat
  hr_headers :: "(bytes \<times> bytes) list"
  hr_chunks :: "bytes list"

definition serve_response ::
  "parser \<Rightarrow> 'd point \<Rightarrow> http_response option \<Rightarrow> 'd \<Rightarrow> http_response \<times> 'd" where
  "serve_response parse pt answer d =
     (case answer of
        None \<Rightarrow> (\<lparr>hr_status = 502, hr_headers = [(''content-type'', ''text/plain; charset=utf-8'')],
                  hr_chunks = [''mcpwall: upstream unreachable'']\<rparr>, d)
      | Some a \<Rightarrow>
          (let (chunks, _, d') = observe_stream parse pt (hr_chunks a) [] d
           in (a\<lparr>hr_headers := filter (\<lambda>(n, _). \<not> strip_from_response n) (hr_headers a), hr_chunks := chunks\<rparr>, d')))"

definition serve_request ::
  "parser \<Rightarrow> printer \<Rightarrow> 'u uri_lib \<Rightarrow> 'u route list \<Rightarrow> 'd point \<Rightarrow> ('u upstream_request \<Rightarrow> http_response option)
     \<Rightarrow> http_request \<Rightarrow> 'd \<Rightarrow> http_response \<times> 'd" where
  "serve_request parse render U routes pt upstream q d =
     (let (t, d') = handle_request parse render U routes pt q d in
      case t of
        Reply status kind body \<Rightarrow>
          (\<lparr>hr_status = status, hr_headers = [(''content-type'', kind)], hr_chunks = [body]\<rparr>, d')
      | Failed \<Rightarrow> serve_response parse pt None d'
      | Forward uq \<Rightarrow> serve_response parse pt (upstream uq) d')"

section \<open>A refusal stays on this side\<close>

text \<open>
  C32: a refused call is answered here: when the decision point refuses the call in the body of a
  \<open>POST\<close>, or cannot decide it and is to fail closed, and the body is JSON with an \<open>id\<close> that is not null, then the answer
  is a JSON-RPC result under this id, an ordinary tool failure with the reason and the rule in its text, with status 200
  and one line long, and the upstream is not asked.  But only then: if there is no such id there is no refusal to
  send, and the very call that was refused goes to the upstream as it came.
\<close>

theorem refused_calls_are_answered_here:
  assumes "route_for routes (hq_path q) = Some (r, rest)"
    and "join_uri U (rt_upstream r) rest (hq_query q) = Some target"
    and "hq_method q = ''POST''" and "hq_body q = Some body" and "length body \<le> MAX_REQUEST_BYTES"
    and "found (scan_method body) = Some m" and "classify (scan_method body) = Decide"
    and "pt_decide pt d \<lparr>ctx_method = m, ctx_frame = body\<rparr> = (ans, d')"
    and "ans = Inr (Deny rule msg) \<or>
      (\<exists>e. ans = Inl e \<and> err_fail_closed e \<and> rule = ''fail_closed'' \<and> msg = ''policy engine unavailable'')"
  shows "(\<forall>v i. parse body = Some v \<and> jget ''id'' v = Some i \<and> i \<noteq> JNull \<longrightarrow>
      serve_request parse render U routes pt upstream q d =
        (\<lparr>hr_status = 200, hr_headers = [(''content-type'', ''application/json'')],
          hr_chunks = [render (JObject [(''id'', i), (''jsonrpc'', JString ''2.0''),
            (''result'', JObject
              [(''content'', JArray [JObject
                 [(''text'', JString (''blocked by mcpwall: '' @ msg @ '' (rule: '' @ rule @ '')'')), (''type'', JString ''text'')]]),
               (''isError'', JBool True)])]) @ [NL]]\<rparr>, d')) \<and>
    ((\<forall>v i. parse body = Some v \<and> jget ''id'' v = Some i \<longrightarrow> i = JNull) \<longrightarrow>
      serve_request parse render U routes pt upstream q d =
        serve_response parse pt (upstream \<lparr>uq_method = ''POST'', uq_target = target,
          uq_headers = filter (\<lambda>(n, _). \<not> strip_from_request n) (hq_headers q), uq_body = body\<rparr>) d')"
proof -
  have v: "verdict_for parse render pt (scan_method body) body d = (deny_response parse render body rule msg, d')"
    using assms(6-9) by (auto simp: verdict_for_def)
  have serve: "serve_request parse render U routes pt upstream q d =
      (case deny_response parse render body rule msg of
         Some answer \<Rightarrow> (\<lparr>hr_status = 200, hr_headers = [(''content-type'', ''application/json'')], hr_chunks = [answer]\<rparr>, d')
       | None \<Rightarrow> serve_response parse pt (upstream \<lparr>uq_method = ''POST'', uq_target = target,
           uq_headers = filter (\<lambda>(n, _). \<not> strip_from_request n) (hq_headers q), uq_body = body\<rparr>) d')"
    using assms(1-5) v
    by (simp add: serve_request_def handle_request_def json_response_def forwarded_def not_less split: option.split)
  have some: "deny_response parse render body rule msg = Some (render (JObject [(''id'', i), (''jsonrpc'', JString ''2.0''),
      (''result'', JObject
        [(''content'', JArray [JObject
           [(''text'', JString (''blocked by mcpwall: '' @ msg @ '' (rule: '' @ rule @ '')'')), (''type'', JString ''text'')]]),
         (''isError'', JBool True)])]) @ [NL])"
    if "parse body = Some v" "jget ''id'' v = Some i" "i \<noteq> JNull" for v i
    using that by (simp add: deny_response_def deny_body_def deny_text_def jobject_def)
  have none: "deny_response parse render body rule msg = None"
    if "\<forall>v i. parse body = Some v \<and> jget ''id'' v = Some i \<longrightarrow> i = JNull"
    using that by (auto simp: deny_response_def split: bind_splits)
  show ?thesis unfolding serve using some none by auto
qed

definition plain_uris :: "bytes uri_lib" where
  "plain_uris = \<lparr>uri_parse = Some, uri_scheme = (\<lambda>_. Some ''https''), uri_path = (\<lambda>_. ''/v1/''),
     uri_set_path_and_query = (\<lambda>u s. Some (u @ s))\<rparr>"

definition a_post :: http_request where
  "a_post = \<lparr>hq_method = ''POST'', hq_path = ''/git/mcp'', hq_query = None,
     hq_headers = [(''Host'', ''localhost''), (''accept'', ''*'')], hq_body = Some a_call\<rparr>"

theorem refused_calls_are_answered_here_witness:
  "serve_request (\<lambda>_. Some (JObject [(''id'', JNumber ''1'')])) (\<lambda>_. ''refused'') plain_uris
     [\<lparr>rt_name = ''git'', rt_upstream = ''https://h''\<rparr>] (pu_point refusing_pump) (\<lambda>_. None) a_post 0 =
   (\<lparr>hr_status = 200, hr_headers = [(''content-type'', ''application/json'')], hr_chunks = [''refused'' @ [NL]]\<rparr>, 0) \<and>
   serve_request (\<lambda>_. Some (JObject [])) (\<lambda>_. []) plain_uris
     [\<lparr>rt_name = ''git'', rt_upstream = ''https://h''\<rparr>] (pu_point refusing_pump)
     (\<lambda>uq. Some \<lparr>hr_status = 202, hr_headers = [], hr_chunks = [uq_target uq, uq_body uq]\<rparr>) a_post 0 =
   (\<lparr>hr_status = 202, hr_headers = [], hr_chunks = [''https://h/v1/mcp'', a_call]\<rparr>, 0)"
proof -
  let ?routes = "[\<lparr>rt_name = ''git'', rt_upstream = ''https://h''\<rparr>]"
  have r: "route_for ?routes (hq_path a_post) = Some (\<lparr>rt_name = ''git'', rt_upstream = ''https://h''\<rparr>, ''/mcp'')"
    by (simp add: a_post_def) code_simp
  have j: "join_uri plain_uris (rt_upstream \<lparr>rt_name = ''git'', rt_upstream = ''https://h''\<rparr>) ''/mcp'' (hq_query a_post) =
      Some ''https://h/v1/mcp''"
    by (simp add: join_uri_def plain_uris_def a_post_def trim_end_matches_def)
  have q: "hq_method a_post = ''POST''" "hq_body a_post = Some a_call" "length a_call \<le> MAX_REQUEST_BYTES"
    by (simp_all add: a_post_def a_call_def MAX_REQUEST_BYTES_def)
  have p: "pt_decide (pu_point refusing_pump) (0 :: nat) \<lparr>ctx_method = ''tools/call'', ctx_frame = a_call\<rparr> =
      (Inr (Deny ''r'' ''m''), 0)"
    by (simp add: refusing_pump_def)
  note answered = refused_calls_are_answered_here [OF r j q call_scan(2,1) p disjI1 [OF refl]]
  have o: "pt_observe (pu_point refusing_pump) m d = d" for m d by (simp add: refusing_pump_def)
  have f: "fold (pt_observe (pu_point refusing_pump)) ms d = d" for ms d
    by (induction ms) (simp_all add: o)
  have s: "fst (observe_stream parse (pu_point refusing_pump) cs b d) = cs"
    "snd (snd (observe_stream parse (pu_point refusing_pump) cs b d)) = d" for parse cs b d
    by (induction cs arbitrary: b) (simp_all add: f split_def)
  show ?thesis
    using answered [where parse = "\<lambda>_. Some (JObject [(''id'', JNumber ''1'')])" and render = "\<lambda>_. ''refused''" and upstream = "\<lambda>_. None"]
      answered [where parse = "\<lambda>_. Some (JObject [])" and render = "\<lambda>_. []"
        and upstream = "\<lambda>uq. Some \<lparr>hr_status = 202, hr_headers = [], hr_chunks = [uq_target uq, uq_body uq]\<rparr>"]
    by (simp add: serve_response_def split_def s del: observe_stream.simps)
qed

section \<open>Listening and forwarding\<close>

text \<open>The listener is on loopback, and every route leads to an http or https upstream, in the table's order.\<close>

lemma resolve_routes_shape:
  "resolve_routes U rs = Inr routes \<Longrightarrow>
   map rt_name routes = map fst rs \<and>
   list_all (\<lambda>r. uri_scheme U (rt_upstream r) \<in> {Some ''http'', Some ''https''}) routes"
  by (induction rs arbitrary: routes) (auto split: option.splits if_splits sum.splits)

lemma listener_is_loopback:
  assumes "resolve_table U t = Inr (addr, routes)"
  shows "parse_socket (tb_listen t) = Some addr \<and> is_loopback (fst addr) \<and> map rt_name routes = map fst (tb_routes t) \<and>
    list_all (\<lambda>r. uri_scheme U (rt_upstream r) \<in> {Some ''http'', Some ''https''}) routes"
proof -
  have "resolve_routes U (tb_routes t) = Inr routes"
    using assms by (auto simp: resolve_table_def split: option.splits if_splits sum.splits)
  then show ?thesis
    using assms resolve_routes_shape by (force simp: resolve_table_def split: option.splits if_splits sum.splits)
qed

lemma default_table_resolves: "resolve_table U route_table_default = Inr ((V4 [127, 0, 0, 1], 8787), [])"
  using socket_v4_example by (simp add: resolve_table_def route_table_default_def default_listen_def)

text \<open>A decision point that never refuses lets every request through to its upstream.\<close>

context lenient_point
begin

lemma verdict_for_lenient:
  assumes "ok d" "verdict_for parse render pt sc frame d = (blocked, d')"
  shows "blocked = None \<and> ok d'"
proof (cases "\<exists>m. found sc = Some m \<and> classify sc = Decide")
  case True
  then obtain m where m: "found sc = Some m" "classify sc = Decide" by blast
  obtain ans d1 where a: "pt_decide pt d \<lparr>ctx_method = m, ctx_frame = frame\<rparr> = (ans, d1)" by fastforce
  show ?thesis
    using decide_ok [OF assms(1) a] assms(2) m a by (cases ans) (auto simp: verdict_for_def)
qed (use assms in \<open>auto simp: verdict_for_def split: option.splits\<close>)

lemma posts_go_through:
  assumes "ok d" "route_for routes (hq_path q) = Some (r, rest)"
    "join_uri U (rt_upstream r) rest (hq_query q) = Some target"
    "hq_body q = Some body" "length body \<le> MAX_REQUEST_BYTES"
  shows "\<exists>d'. ok d' \<and> handle_request parse render U routes pt q d =
    (forwarded q target (if hq_method q = ''POST'' then body else []), d')"
proof -
  obtain blocked d' where v: "verdict_for parse render pt (scan_method body) body d = (blocked, d')" by fastforce
  show ?thesis
    using verdict_for_lenient [OF assms(1) v] v assms by (auto simp: handle_request_def not_less)
qed

end

text \<open>So a proxy that has lost its daemon still serves every upstream.\<close>

lemma proxy_without_daemon_forwards:
  assumes "lost d" "route_for routes (hq_path q) = Some (r, rest)"
    "join_uri U (rt_upstream r) rest (hq_query q) = Some target"
    "hq_body q = Some body" "length body \<le> MAX_REQUEST_BYTES"
  shows "\<exists>d'. handle_request parse render U routes (daemon_point parse sha render) q d =
    (forwarded q target (if hq_method q = ''POST'' then body else []), d')"
  using lost_daemon.posts_go_through [OF assms] by blast

end
