(* ===== verification/Http_Stream.thy ===== *)
theory Http_Stream
  imports Http
begin

text \<open>
  What \<open>observe_stream\<close> of \<open>transport/http.rs\<close> makes of a stream: the messages of an event stream are
  found whatever the chunks it arrives in.
\<close>

section \<open>Where an event ends\<close>

lemma event_end_shift: "event_end (k + i) s = map_option ((+) k) (event_end i s)"
  by (induction i s rule: event_end.induct) (auto simp: add.assoc [symmetric])

lemma event_end_append: "event_end i a = Some e \<Longrightarrow> event_end i (a @ b) = Some e"
proof (induction i a arbitrary: e rule: event_end.induct)
  case (1 i x y r)
  show ?case
  proof (cases "(x = NL \<and> y = NL) \<or> starts_with (x # y # r) [CR, NL, CR, NL]")
    case True
    then show ?thesis using 1 by (auto simp: starts_with_def split: if_splits)
  next
    case False
    then have e: "event_end (i + 1) (y # r) = Some e" using 1 by auto
    have "\<not> starts_with (x # y # r @ b) [CR, NL, CR, NL]"
    proof
      assume *: "starts_with (x # y # r @ b) [CR, NL, CR, NL]"
      show False
      proof (cases r)
        case (Cons z zs)
        then show ?thesis using * e False by (cases zs) (auto simp: starts_with_def)
      qed (use * e in \<open>auto simp: starts_with_def\<close>)
    qed
    then show ?thesis using 1 False e by auto
  qed
qed auto

lemma drain_drained [simp]: "drain_events (snd (drain_events s)) = ([], snd (drain_events s))"
proof (induction s rule: drain_events.induct)
  case (1 s)
  show ?case
  proof (cases "find_event_end s")
    case None
    then have "drain_events s = ([], s)" by (simp add: drain_events.simps [of s])
    then show ?thesis by simp
  next
    case (Some e)
    then have "snd (drain_events s) = snd (drain_events (drop e s))"
      by (simp add: drain_events.simps [of s] split: prod.split)
    then show ?thesis using 1 [OF Some] by simp
  qed
qed

lemma drain_append:
  "drain_events (a @ b) =
     (let (o1, r1) = drain_events a; (o2, r2) = drain_events (r1 @ b) in (o1 @ o2, r2))"
proof (induction a rule: drain_events.induct)
  case (1 a)
  show ?case
  proof (cases "find_event_end a")
    case None
    then show ?thesis by (simp add: drain_events.simps [of a])
  next
    case (Some e)
    then have "find_event_end (a @ b) = Some e" "e \<le> length a"
      using event_end_append event_end_bounds by (fastforce simp: find_event_end_def)+
    then have "drain_events (a @ b) =
        (let (out, rest) = drain_events (drop e a @ b) in (event_payloads (take e a) @ out, rest))"
      by (simp add: drain_events.simps [of "a @ b"])
    then show ?thesis
      using 1 [OF Some] Some by (simp add: drain_events.simps [of a] split: prod.splits)
  qed
qed

section \<open>Whatever the chunks\<close>

text \<open>When no unfinished rest is itself a JSON text, \<open>take_messages\<close> only ever drains events.\<close>

lemma observe_stream_drains:
  assumes "\<forall>n \<le> length (concat cs). parse (snd (drain_events (s @ take n (concat cs)))) = None"
    and "\<forall>n \<le> length (concat cs). length (snd (drain_events (s @ take n (concat cs)))) \<le> MAX_REQUEST_BYTES"
  shows "observe_stream parse pt cs (snd (drain_events s)) d =
    (cs, snd (drain_events (s @ concat cs)),
     fold (pt_observe pt) (fst (drain_events (snd (drain_events s) @ concat cs))) d)"
  using assms
proof (induction cs arbitrary: s d)
  case (Cons c cs)
  have len: "length (snd (drain_events (s @ c))) \<le> MAX_REQUEST_BYTES"
    using Cons.prems(2) [rule_format, of "length c"] by simp
  have "parse (snd (drain_events (s @ c))) = None"
    using Cons.prems(1) [rule_format, of "length c"] by simp
  then have t: "take_messages parse (snd (drain_events s) @ c) =
      (fst (drain_events (snd (drain_events s) @ c)), snd (drain_events (s @ c)))"
    using len by (auto simp: take_messages_def drain_append [of s c] Let_def split: prod.splits)
  have "\<forall>n \<le> length (concat cs). parse (snd (drain_events ((s @ c) @ take n (concat cs)))) = None"
  proof (intro allI impI)
    fix n assume "n \<le> length (concat cs)"
    then show "parse (snd (drain_events ((s @ c) @ take n (concat cs)))) = None"
      using Cons.prems(1) [rule_format, of "length c + n"] by simp
  qed
  moreover have "\<forall>n \<le> length (concat cs). length (snd (drain_events ((s @ c) @ take n (concat cs)))) \<le> MAX_REQUEST_BYTES"
  proof (intro allI impI)
    fix n assume "n \<le> length (concat cs)"
    then show "length (snd (drain_events ((s @ c) @ take n (concat cs)))) \<le> MAX_REQUEST_BYTES"
      using Cons.prems(2) [rule_format, of "length c + n"] by simp
  qed
  ultimately have ih: "observe_stream parse pt cs (snd (drain_events (s @ c))) d' =
      (cs, snd (drain_events ((s @ c) @ concat cs)),
       fold (pt_observe pt) (fst (drain_events (snd (drain_events (s @ c)) @ concat cs))) d')" for d'
    by (rule Cons.IH)
  have "fst (drain_events (snd (drain_events s) @ c @ concat cs)) =
      fst (drain_events (snd (drain_events s) @ c)) @ fst (drain_events (snd (drain_events (s @ c)) @ concat cs))"
    using drain_append [of "snd (drain_events s) @ c" "concat cs"]
    by (auto simp: drain_append [of s c] Let_def split: prod.splits)
  then show ?case using ih by (simp add: t)
qed simp

section \<open>A stream of messages\<close>

text \<open>A message as a server writes it to an event stream.\<close>

definition sse :: "bytes \<Rightarrow> bytes" where
  "sse p = ''data: '' @ p @ [NL, NL]"

definition one_line :: "bytes \<Rightarrow> bool" where
  "one_line p \<longleftrightarrow> p \<noteq> [] \<and> NL \<notin> set p \<and> CR \<notin> set p"

lemma event_end_line:
  assumes "NL \<notin> set u" and "CR \<notin> set u"
  shows "event_end i (u @ NL # NL # v) = Some (i + length u + 2)" and "event_end i u = None"
    and "event_end i (u @ [NL]) = None"
  using assms
proof (induction u arbitrary: i)
  case (Cons x u)
  {
    case 1
    then show ?case using Cons(1) [of "i + 1"] by (cases u) (auto simp: starts_with_def)
  next
    case 2
    then show ?case using Cons(2) [of "i + 1"] by (cases u) (auto simp: starts_with_def)
  next
    case 3
    then show ?case using Cons(3) [of "i + 1"] by (cases u) (auto simp: starts_with_def)
  }
qed simp_all

lemma ends_with_last: "ends_with s [c] \<longleftrightarrow> s \<noteq> [] \<and> last s = c"
  by (cases s rule: rev_cases) (auto simp: ends_with_def)

lemma payloads_sse:
  assumes "one_line p"
  shows "event_payloads (sse p) = [p]"
proof -
  have no: "NL \<notin> set (''data: '' @ p)" using assms by (simp add: one_line_def)
  have "split_on (\<lambda>b. b = NL) (sse p) = [''data: '' @ p, [], []]"
  proof -
    have "split_on (\<lambda>b. b = NL) ((''data: '' @ p) @ NL # [NL]) = (''data: '' @ p) # split_on (\<lambda>b. b = NL) [NL]"
      by (rule split_on_app) (use no in auto)
    then show ?thesis by (simp add: sse_def)
  qed
  moreover have "strip_cr (''data: '' @ p) = ''data: '' @ p"
  proof -
    have "last p \<noteq> CR" using assms last_in_set by (force simp: one_line_def)
    then show ?thesis using assms by (simp add: strip_cr_def ends_with_last one_line_def)
  qed
  moreover have "strip_cr [] = []" by (simp add: strip_cr_def)
  ultimately show ?thesis
    using assms by (simp add: event_payloads_def payload_of_def one_line_def strip_prefix_def starts_with_def List.map_filter_def)
qed

lemma drain_sse:
  assumes "one_line p"
  shows "drain_events (sse p @ v) = (p # fst (drain_events v), snd (drain_events v))"
proof -
  have "NL \<notin> set (''data: '' @ p)" "CR \<notin> set (''data: '' @ p)" using assms by (auto simp: one_line_def)
  note e = event_end_line(1) [OF this, of 0 v]
  have "find_event_end (sse p @ v) = Some (length (sse p))"
    using e by (simp add: find_event_end_def sse_def)
  then show ?thesis
    using payloads_sse [OF assms] by (simp add: drain_events.simps [of "sse p @ v"] split: prod.split)
qed

lemma drain_sse_prefix:
  assumes "one_line p" and "n < length (sse p)"
  shows "drain_events (take n (sse p)) = ([], take n (sse p))"
proof -
  define u where "u = ''data: '' @ p"
  have s: "sse p = u @ [NL, NL]" by (simp add: sse_def u_def)
  have u: "NL \<notin> set u" "CR \<notin> set u" using assms(1) by (auto simp: one_line_def u_def)
  have "take n (sse p) = take n u \<or> take n (sse p) = u @ [NL]"
  proof (cases "n \<le> length u")
    case False
    then have "n = length u + 1" using assms(2) by (simp add: s)
    then show ?thesis by (simp add: s)
  qed (simp add: s)
  moreover have "NL \<notin> set (take n u)" "CR \<notin> set (take n u)" using u by (meson in_set_takeD)+
  ultimately have "find_event_end (take n (sse p)) = None"
    unfolding find_event_end_def using event_end_line(2,3) u by metis
  then show ?thesis by (simp add: drain_events.simps [of "take n (sse p)"])
qed

lemma drain_nothing: "drain_events [] = ([], [])"
  by (simp add: drain_events.simps [of "[]"] find_event_end_def)

lemma drain_stream:
  assumes "\<forall>p \<in> set ps. one_line p"
  shows "drain_events (concat (map sse ps)) = (ps, [])"
  using assms by (induction ps) (simp_all add: drain_nothing drain_sse)

text \<open>What is kept of a stream cut anywhere is the beginning of an event that has not ended.\<close>

lemma drain_stream_prefix:
  assumes "\<forall>p \<in> set ps. one_line p"
  shows "snd (drain_events (take n (concat (map sse ps)))) = [] \<or>
      (\<exists>p \<in> set ps. \<exists>k. 0 < k \<and> k < length (sse p) \<and> snd (drain_events (take n (concat (map sse ps)))) = take k (sse p))"
  using assms
proof (induction ps arbitrary: n)
  case (Cons p ps)
  have p: "one_line p" using Cons.prems by simp
  show ?case
  proof (cases "n < length (sse p)")
    case True
    then have "snd (drain_events (take n (concat (map sse (p # ps))))) = take n (sse p)"
      using drain_sse_prefix [OF p True] by simp
    then show ?thesis using True by (cases "n = 0") auto
  next
    case False
    then show ?thesis using Cons.IH [of "n - length (sse p)"] Cons.prems by (auto simp: drain_sse [OF p])
  qed
qed (simp add: drain_nothing)

text \<open>
  C33: chunks are invisible to the proxy's observation and observation is invisible to the stream:
  however an event stream of one-line messages, of any length, is cut into chunks, the chunks go on as they came, the
  decision point is offered exactly those messages, whole and in order, and nothing stays behind.  Each event must fit
  the buffer of 32 megabytes up to its last byte: of a longer one the beginning may be thrown away before its end comes.
\<close>

theorem stream_messages_arrive:
  assumes "\<forall>p \<in> set ps. one_line p \<and> length (sse p) \<le> MAX_REQUEST_BYTES + 1" and "concat cs = concat (map sse ps)"
    and "parse [] = None" and "\<And>w. parse (CHR ''d'' # w) = None"
  shows "observe_stream parse pt cs [] d = (cs, [], fold (pt_observe pt) ps d)"
proof -
  have ol: "\<forall>p \<in> set ps. one_line p" using assms(1) by blast
  have kept: "parse (snd (drain_events (take n (concat cs)))) = None \<and>
      length (snd (drain_events (take n (concat cs)))) \<le> MAX_REQUEST_BYTES" for n
    using drain_stream_prefix [OF ol, of n] unfolding assms(2)
  proof
    assume "\<exists>p \<in> set ps. \<exists>k. 0 < k \<and> k < length (sse p) \<and> snd (drain_events (take n (concat (map sse ps)))) = take k (sse p)"
    then obtain p k where k: "p \<in> set ps" "0 < k" "k < length (sse p)" "snd (drain_events (take n (concat (map sse ps)))) = take k (sse p)"
      by blast
    moreover obtain w where "take k (sse p) = CHR ''d'' # w" using k(2) by (cases k) (simp_all add: sse_def)
    moreover have "length (take k (sse p)) \<le> MAX_REQUEST_BYTES" using assms(1) k(1,3) by fastforce
    ultimately show "parse (snd (drain_events (take n (concat (map sse ps))))) = None \<and>
        length (snd (drain_events (take n (concat (map sse ps))))) \<le> MAX_REQUEST_BYTES"
      using assms(4) [of w] by metis
  qed (simp add: assms(3))
  then show ?thesis
    using observe_stream_drains [where s = "[]" and cs = cs and parse = parse and pt = pt and d = d] assms(2) drain_stream [OF ol]
    by (simp add: drain_nothing)
qed

theorem stream_messages_arrive_witness:
  "observe_stream (\<lambda>_. None) \<lparr>pt_decide = (\<lambda>d ctx. (Inr Allow, d)), pt_observe = (\<lambda>m d. d @ [m])\<rparr>
     [''da'', ''ta: {}'' @ [NL], NL # ''data: []'' @ [NL, NL]] [] [] =
   ([''da'', ''ta: {}'' @ [NL], NL # ''data: []'' @ [NL, NL]], [], [''{}'', ''[]''])"
  using stream_messages_arrive [of "[''{}'', ''[]'']" "[''da'', ''ta: {}'' @ [NL], NL # ''data: []'' @ [NL, NL]]"
      "\<lambda>_. None" "\<lparr>pt_decide = (\<lambda>d ctx. (Inr Allow, d)), pt_observe = (\<lambda>m d. d @ [m])\<rparr>" "[]"]
  by (simp add: one_line_def sse_def MAX_REQUEST_BYTES_def)

end
