(* ===== verification/Policy_Model.thy ===== *)
theory Policy_Model
  imports Json "HOL-Library.Monad_Syntax"
begin

text \<open>
  \<open>daemon/policy/model.rs\<close>: the shape of \<open>policy.yaml\<close>.  The YAML reader is third-party and gives a
  tree of scalars, sequences and mappings, for which the datatype of JSON values serves; what the
  \<open>Deserialize\<close> derives make of such a tree (defaults, required fields, \<open>deny_unknown_fields\<close>,
  lower-case names) is written out here.
\<close>

section \<open>The file model\<close>

datatype action = AAllow | AAsk | ADeny

fun action_str :: "action \<Rightarrow> bytes" where
  "action_str AAllow = ''allow''"
| "action_str AAsk = ''ask''"
| "action_str ADeny = ''deny''"

datatype severity = Info | Low | Medium | High | Critical

datatype until_when = Once | Session | Forever

record when_cond =
  arg_path_matches :: "bytes list"
  tool_matches :: "bytes list"
  path_outside_cwd :: bool
  arg_matches_secret :: bool
  arg_contains_tainted :: bool
  tool_is_outbound :: bool
  tool_description_drift :: bool
  method_matches :: "bytes list"

definition when_default :: when_cond where
  "when_default = \<lparr>arg_path_matches = [], tool_matches = [], path_outside_cwd = False,
     arg_matches_secret = False, arg_contains_tainted = False, tool_is_outbound = False,
     tool_description_drift = False, method_matches = []\<rparr>"

record rule =
  r_id :: bytes
  r_when :: when_cond
  r_action :: action
  r_severity :: severity
  r_message :: "bytes option"

record override =
  ov_scope :: bytes
  ov_tool :: bytes
  ov_action :: action
  ov_until :: until_when

record policy_file =
  pf_default :: action
  pf_fail_closed :: bool
  pf_ask_timeout :: nat
  pf_outbound :: "bytes list"
  pf_rules :: "rule list"
  pf_overrides :: "override list"

definition default_ask_timeout :: nat where "default_ask_timeout = 60"

definition default_outbound_tools :: "bytes list" where
  "default_outbound_tools = [''*post*'', ''*send*'', ''*fetch*'', ''*http*'', ''*upload*'', ''*publish*'',
     ''*mail*'', ''*webhook*'', ''*request*'', ''*curl*'', ''webfetch'', ''websearch'']"

definition policy_file_default :: policy_file where
  "policy_file_default = \<lparr>pf_default = AAllow, pf_fail_closed = False, pf_ask_timeout = default_ask_timeout,
     pf_outbound = default_outbound_tools, pf_rules = [], pf_overrides = []\<rparr>"

section \<open>Deserialisation\<close>

definition optional :: "bytes \<Rightarrow> (json \<Rightarrow> 'a option) \<Rightarrow> 'a \<Rightarrow> (bytes \<times> json) list \<Rightarrow> 'a option" where
  "optional k de d m = (case map_of m k of None \<Rightarrow> Some d | Some v \<Rightarrow> de v)"

definition required :: "bytes \<Rightarrow> (json \<Rightarrow> 'a option) \<Rightarrow> (bytes \<times> json) list \<Rightarrow> 'a option" where
  "required k de m = Option.bind (map_of m k) de"

definition known_fields :: "bytes list \<Rightarrow> json \<Rightarrow> (bytes \<times> json) list option" where
  "known_fields ks v =
     (case v of JObject m \<Rightarrow> if list_all (\<lambda>(k, _). k \<in> set ks) m then Some m else None | _ \<Rightarrow> None)"

fun de_all :: "(json \<Rightarrow> 'a option) \<Rightarrow> json list \<Rightarrow> 'a list option" where
  "de_all de [] = Some []"
| "de_all de (v # vs) = (case de v of None \<Rightarrow> None | Some x \<Rightarrow>
     (case de_all de vs of None \<Rightarrow> None | Some xs \<Rightarrow> Some (x # xs)))"

definition de_list :: "(json \<Rightarrow> 'a option) \<Rightarrow> json \<Rightarrow> 'a list option" where
  "de_list de v = Option.bind (as_array v) (de_all de)"

definition de_opt :: "(json \<Rightarrow> 'a option) \<Rightarrow> json \<Rightarrow> 'a option option" where
  "de_opt de v = (if v = JNull then Some None else map_option Some (de v))"

definition de_action :: "json \<Rightarrow> action option" where
  "de_action v = Option.bind (as_str v)
     (map_of [(''allow'', AAllow), (''ask'', AAsk), (''deny'', ADeny)])"

definition de_severity :: "json \<Rightarrow> severity option" where
  "de_severity v = Option.bind (as_str v)
     (map_of [(''info'', Info), (''low'', Low), (''medium'', Medium), (''high'', High), (''critical'', Critical)])"

definition de_until :: "json \<Rightarrow> until_when option" where
  "de_until v = Option.bind (as_str v)
     (map_of [(''once'', Once), (''session'', Session), (''forever'', Forever)])"

definition WHEN_FIELDS :: "bytes list" where
  "WHEN_FIELDS = [''arg_path_matches'', ''tool_matches'', ''path_outside_cwd'', ''arg_matches_secret'',
     ''arg_contains_tainted'', ''tool_is_outbound'', ''tool_description_drift'', ''method_matches'']"

definition de_when :: "json \<Rightarrow> when_cond option" where
  "de_when v = do {
     m \<leftarrow> known_fields WHEN_FIELDS v;
     paths \<leftarrow> optional ''arg_path_matches'' (de_list as_str) [] m;
     tools \<leftarrow> optional ''tool_matches'' (de_list as_str) [] m;
     outside \<leftarrow> optional ''path_outside_cwd'' as_bool False m;
     secret \<leftarrow> optional ''arg_matches_secret'' as_bool False m;
     tainted \<leftarrow> optional ''arg_contains_tainted'' as_bool False m;
     outbound \<leftarrow> optional ''tool_is_outbound'' as_bool False m;
     drift \<leftarrow> optional ''tool_description_drift'' as_bool False m;
     methods \<leftarrow> optional ''method_matches'' (de_list as_str) [] m;
     Some \<lparr>arg_path_matches = paths, tool_matches = tools, path_outside_cwd = outside,
       arg_matches_secret = secret, arg_contains_tainted = tainted, tool_is_outbound = outbound,
       tool_description_drift = drift, method_matches = methods\<rparr> }"

definition de_rule :: "json \<Rightarrow> rule option" where
  "de_rule v = do {
     m \<leftarrow> known_fields [''id'', ''when'', ''action'', ''severity'', ''message''] v;
     i \<leftarrow> required ''id'' as_str m;
     w \<leftarrow> optional ''when'' de_when when_default m;
     a \<leftarrow> required ''action'' de_action m;
     s \<leftarrow> optional ''severity'' de_severity Info m;
     msg \<leftarrow> optional ''message'' (de_opt as_str) None m;
     Some \<lparr>r_id = i, r_when = w, r_action = a, r_severity = s, r_message = msg\<rparr> }"

definition de_override :: "json \<Rightarrow> override option" where
  "de_override v = do {
     m \<leftarrow> known_fields [''scope'', ''tool'', ''action'', ''until''] v;
     s \<leftarrow> required ''scope'' as_str m;
     t \<leftarrow> required ''tool'' as_str m;
     a \<leftarrow> required ''action'' de_action m;
     u \<leftarrow> optional ''until'' de_until Once m;
     Some \<lparr>ov_scope = s, ov_tool = t, ov_action = a, ov_until = u\<rparr> }"

definition de_policy :: "json \<Rightarrow> policy_file option" where
  "de_policy v = do {
     m \<leftarrow> known_fields [''default'', ''fail_closed'', ''ask_timeout_seconds'', ''outbound_tools'',
            ''rules'', ''overrides''] v;
     d \<leftarrow> optional ''default'' de_action AAllow m;
     f \<leftarrow> optional ''fail_closed'' as_bool False m;
     t \<leftarrow> optional ''ask_timeout_seconds'' as_u64 default_ask_timeout m;
     ob \<leftarrow> optional ''outbound_tools'' (de_list as_str) default_outbound_tools m;
     rs \<leftarrow> optional ''rules'' (de_list de_rule) [] m;
     os \<leftarrow> optional ''overrides'' (de_list de_override) [] m;
     Some \<lparr>pf_default = d, pf_fail_closed = f, pf_ask_timeout = t, pf_outbound = ob,
       pf_rules = rs, pf_overrides = os\<rparr> }"

section \<open>The policy written on first launch\<close>

definition default_policy :: policy_file where
  "default_policy = \<lparr>pf_default = AAllow, pf_fail_closed = False, pf_ask_timeout = 60,
     pf_outbound = [''*post*'', ''*send*'', ''*fetch*'', ''*http*'', ''*upload*'', ''*publish*'',
       ''*mail*'', ''*webhook*'', ''*request*'', ''*curl*'', ''webfetch'', ''websearch''],
     pf_rules = [
       \<lparr>r_id = ''secrets_paths'',
        r_when = when_default\<lparr>arg_path_matches := [''**/.env'', ''**/.env.*'', ''~/.ssh/**'', ''~/.aws/**'',
          ''**/id_rsa'', ''**/id_ed25519'', ''**/.netrc'']\<rparr>,
        r_action = AAsk, r_severity = High, r_message = Some ''access to a secrets file''\<rparr>,
       \<lparr>r_id = ''secret_pattern'', r_when = when_default\<lparr>arg_matches_secret := True\<rparr>,
        r_action = AAsk, r_severity = High,
        r_message = Some ''an argument looks like a secret credential''\<rparr>,
       \<lparr>r_id = ''outside_project_write'',
        r_when = when_default\<lparr>tool_matches := [''*write*'', ''*edit*'', ''*delete*'', ''*remove*'', ''*move*''],
          path_outside_cwd := True\<rparr>,
        r_action = AAsk, r_severity = Medium, r_message = Some ''write outside the project''\<rparr>,
       \<lparr>r_id = ''taint_exfil'',
        r_when = when_default\<lparr>arg_contains_tainted := True, tool_is_outbound := True\<rparr>,
        r_action = ADeny, r_severity = Critical,
        r_message = Some ''tainted local data in an outbound argument''\<rparr>,
       \<lparr>r_id = ''tool_description_changed'', r_when = when_default\<lparr>tool_description_drift := True\<rparr>,
        r_action = AAsk, r_severity = High,
        r_message = Some (''this tool'' @ [CHR 0x27] @ ''s description changed since the last session'')\<rparr>],
     pf_overrides = []\<rparr>"

section \<open>A mistyped condition is refused\<close>

lemma known_fields_Some:
  "known_fields ks v = Some m \<longleftrightarrow> v = JObject m \<and> (\<forall>(k, _) \<in> set m. k \<in> set ks)"
  by (auto simp: known_fields_def list_all_iff split: json.splits)

lemma de_all_Some:
  "de_all de vs = Some xs \<longleftrightarrow> list_all2 (\<lambda>v x. de v = Some x) vs xs"
  by (induction de vs arbitrary: xs rule: de_all.induct)
    (auto split: option.splits simp: list_all2_Cons1)

lemma de_when_known: "de_when (JObject m) = Some w \<Longrightarrow> (k, x) \<in> set m \<Longrightarrow> k \<in> set WHEN_FIELDS"
  by (auto simp: de_when_def bind_eq_Some_conv known_fields_Some)

text \<open>
  A policy with a mistyped condition name does not load: if some rule's \<open>when\<close> has a key that
  is none of the eight conditions, deserialisation of the whole file fails, so the rule cannot be
  there and silently never fire.
\<close>

theorem mistyped_condition_is_refused:
  assumes "map_of m ''rules'' = Some (JArray rs)" and "JObject r \<in> set rs"
    and "map_of r ''when'' = Some (JObject w)" and "(k, x) \<in> set w" and "k \<notin> set WHEN_FIELDS"
  shows "de_policy (JObject m) = None"
proof (rule ccontr)
  assume "de_policy (JObject m) \<noteq> None"
  then obtain xs where "de_all de_rule rs = Some xs"
    using assms(1) by (auto simp: de_policy_def bind_eq_Some_conv known_fields_Some optional_def de_list_def)
  then obtain c where "de_rule (JObject r) = Some c"
    using assms(2) by (auto simp: de_all_Some list_all2_conv_all_nth in_set_conv_nth)
  then obtain w' where "de_when (JObject w) = Some w'"
    using assms(3) by (auto simp: de_rule_def bind_eq_Some_conv known_fields_Some optional_def)
  then show False using de_when_known assms(4,5) by blast
qed

theorem mistyped_condition_is_refused_witness:
  "de_policy (JObject [(''rules'', JArray [JObject [(''id'', JString ''r''), (''action'', JString ''deny''),
     (''when'', JObject [(''arg_matches_secrets'', JBool True)])]])]) = None"
  by (rule mistyped_condition_is_refused
      [where rs = "[JObject [(''id'', JString ''r''), (''action'', JString ''deny''),
          (''when'', JObject [(''arg_matches_secrets'', JBool True)])]]"
        and r = "[(''id'', JString ''r''), (''action'', JString ''deny''),
          (''when'', JObject [(''arg_matches_secrets'', JBool True)])]"
        and w = "[(''arg_matches_secrets'', JBool True)]" and k = "''arg_matches_secrets''" and x = "JBool True"])
    (simp_all add: WHEN_FIELDS_def)

end
