(* ===== verification/Policy_Request.thy ===== *)
theory Policy_Request
  imports Scope Json
begin

text \<open>
  \<open>daemon/policy/request.rs\<close> and \<open>daemon/policy/findings.rs\<close>: what is pulled out of a frame for the
  engine to judge, and what is spotted in it.  Slicing a \<open>str\<close> panics off a character boundary, so
  secret detection comes to an \<open>outcome\<close>.
\<close>

section \<open>The request\<close>

record request =
  rq_method :: bytes
  rq_tool :: "bytes option"
  rq_paths :: "bytes list"
  rq_values :: "bytes list"
  rq_tainted :: "bytes option"
  rq_drifted :: bool
  rq_scope_key :: bytes
  rq_scope_paths :: "bytes list"

definition has_path_outside_scope :: "request \<Rightarrow> bool" where
  "has_path_outside_scope rq =
     (if rq_scope_paths rq = [] then False
      else list_ex (\<lambda>p. is_absolute p \<and> \<not> list_ex (path_starts_with p) (rq_scope_paths rq)) (rq_paths rq))"

definition looks_like_path :: "bytes \<Rightarrow> bool" where
  "looks_like_path s \<longleftrightarrow>
     (starts_with s ''/'' \<or> starts_with s ''~/'' \<or> starts_with s ''./'' \<or> starts_with s ''../'') \<and>
     NL \<notin> set s \<and> length s < 4096"

function walk :: "json \<Rightarrow> nat \<Rightarrow> bytes list \<times> bytes list \<Rightarrow> bytes list \<times> bytes list" where
  "walk (JString s) depth acc =
     (if 8 < depth then acc
      else (if looks_like_path s then fst acc @ [s] else fst acc, snd acc @ [s]))"
| "walk (JArray a) depth acc = (if 8 < depth then acc else fold (\<lambda>x. walk x (depth + 1)) a acc)"
| "walk (JObject m) depth acc = (if 8 < depth then acc else fold (\<lambda>(k, x). walk x (depth + 1)) m acc)"
| "walk JNull depth acc = acc"
| "walk (JBool b) depth acc = acc"
| "walk (JNumber n) depth acc = acc"
  by pat_completeness auto

termination walk
  by (relation "measure (\<lambda>(v, d, acc). size v)")
    (auto simp: less_Suc_eq_le size_list_estimation' dest: size_object)

text \<open>\<open>tool_buf\<close> is the caller's buffer; every caller hands over an empty one.\<close>

definition request_from_frame :: "parser \<Rightarrow> bytes \<Rightarrow> bytes \<Rightarrow> scope \<Rightarrow> bytes \<Rightarrow> request" where
  "request_from_frame parse meth frame sc buf =
     (let (buf', pv) =
        (case Option.bind (parse frame) (jget ''params'') of
           None \<Rightarrow> (buf, [], [])
         | Some params \<Rightarrow>
             (let b = (case Option.bind (jget ''name'' params) as_str of Some n \<Rightarrow> buf @ n | None \<Rightarrow> buf);
                  start = (case Option.bind (jget ''uri'' params) as_str of
                     None \<Rightarrow> ([], [])
                   | Some uri \<Rightarrow> (case parse_root_uri uri of Some p \<Rightarrow> [utf8_lossy p] | None \<Rightarrow> [], [uri]))
              in (b, walk params 0 start)))
      in \<lparr>rq_method = meth, rq_tool = (if buf' = [] then None else Some buf'), rq_paths = fst pv,
          rq_values = snd pv, rq_tainted = None, rq_drifted = False, rq_scope_key = [],
          rq_scope_paths = scope_paths sc\<rparr>)"

section \<open>The findings\<close>

datatype finding = Secret (f_kind: bytes) (f_prefix: bytes) | Tainted (f_origin: bytes) | Drifted (f_tool: bytes)

text \<open>The character U+2026 in UTF-8.\<close>

definition ELLIPSIS :: bytes where "ELLIPSIS = [CHR 0xE2, CHR 0x80, CHR 0xA6]"

fun describe :: "finding \<Rightarrow> bytes" where
  "describe (Secret kind pfx) = kind @ '' ('' @ pfx @ ELLIPSIS @ '')''"
| "describe (Tainted origin) = ''local data read from '' @ origin"
| "describe (Drifted tool) = ''`'' @ tool @ ''` no longer describes itself the same way''"

definition secret_prefix :: "bytes \<Rightarrow> bytes" where
  "secret_prefix s = take_chars 6 s"

definition starts_with_aws_key :: "bytes \<Rightarrow> bool outcome" where
  "starts_with_aws_key s =
     (case strip_prefix ''AKIA'' s of
        None \<Rightarrow> Returned False
      | Some rest \<Rightarrow>
          (if length rest < 16 then Returned False
           else if \<not> is_char_boundary rest 16 then Panicked
           else Returned (list_all (\<lambda>b. is_ascii_upper b \<or> is_ascii_digit b) (take 16 rest))))"

definition other_secret_kind :: "bytes \<Rightarrow> bytes option" where
  "other_secret_kind s =
     (if starts_with s ''ghp_'' \<and> 36 \<le> length s \<or> starts_with s ''github_pat_'' \<and> 40 \<le> length s
        then Some ''GitHub token''
      else if starts_with s ''sk-'' \<and> 20 \<le> length s then Some ''API key''
      else if starts_with s ''xoxb-'' \<or> starts_with s ''xoxp-'' then Some ''Slack token''
      else None)"

definition detect_secret :: "bytes \<Rightarrow> finding option outcome" where
  "detect_secret s =
     obind (if contains_sub s ''-----BEGIN'' \<and> contains_sub s ''PRIVATE KEY''
              then Returned (Some ''private key'')
            else obind (starts_with_aws_key s) (\<lambda>aws.
              Returned (if aws then Some ''AWS access key'' else other_secret_kind s)))
       (\<lambda>kind. Returned (map_option (\<lambda>k. Secret k (secret_prefix s)) kind))"

fun collect_secrets :: "bytes list \<Rightarrow> finding list \<Rightarrow> finding list outcome" where
  "collect_secrets [] out = Returned out"
| "collect_secrets (v # vs) out =
     obind (detect_secret v) (\<lambda>f. collect_secrets vs
       (case f of Some f' \<Rightarrow> if f' \<in> set out then out else out @ [f'] | None \<Rightarrow> out))"

definition collect_findings :: "request \<Rightarrow> finding list outcome" where
  "collect_findings rq =
     obind (collect_secrets (rq_values rq) []) (\<lambda>out.
       Returned (out @ (case rq_tainted rq of Some l \<Rightarrow> [Tainted l] | None \<Rightarrow> []) @
         (case rq_tool rq of Some t \<Rightarrow> if rq_drifted rq then [Drifted t] else [] | None \<Rightarrow> [])))"

section \<open>What is extracted\<close>

text \<open>A string at depth \<open>d\<close> of a value.\<close>

inductive occurs :: "nat \<Rightarrow> json \<Rightarrow> bytes \<Rightarrow> bool" where
  here: "occurs 0 (JString s) s"
| in_array: "occurs d x s \<Longrightarrow> x \<in> set a \<Longrightarrow> occurs (Suc d) (JArray a) s"
| in_object: "occurs d x s \<Longrightarrow> (k, x) \<in> set m \<Longrightarrow> occurs (Suc d) (JObject m) s"

inductive_simps occurs_simps [simp]:
  "occurs d (JString s) t" "occurs d (JArray a) t" "occurs d (JObject m) t"
  "occurs d JNull t" "occurs d (JBool b) t" "occurs d (JNumber n) t"

text \<open>\<open>walk\<close> appends to its accumulators; what it appends depends on the value and the depth alone.\<close>

function strings_from :: "json \<Rightarrow> nat \<Rightarrow> bytes list" where
  "strings_from (JString s) depth = (if 8 < depth then [] else [s])"
| "strings_from (JArray a) depth = (if 8 < depth then [] else concat (map (\<lambda>x. strings_from x (depth + 1)) a))"
| "strings_from (JObject m) depth =
     (if 8 < depth then [] else concat (map (\<lambda>(k, x). strings_from x (depth + 1)) m))"
| "strings_from JNull depth = []"
| "strings_from (JBool b) depth = []"
| "strings_from (JNumber n) depth = []"
  by pat_completeness auto

termination strings_from
  by (relation "measure (\<lambda>(v, d). size v)")
    (auto simp: less_Suc_eq_le size_list_estimation' dest: size_object)

lemma fold_appends:
  assumes "\<And>x acc. x \<in> set xs \<Longrightarrow> f x acc = (fst acc @ filter P (g x), snd acc @ g x)"
  shows "fold f xs acc = (fst acc @ filter P (concat (map g xs)), snd acc @ concat (map g xs))"
  using assms by (induction xs arbitrary: acc) simp_all

lemma walk_strings:
  "walk v depth acc = (fst acc @ filter looks_like_path (strings_from v depth), snd acc @ strings_from v depth)"
proof (induction v depth acc rule: walk.induct)
  case (2 a depth acc)
  show ?case
  proof (cases "8 < depth")
    case False
    then show ?thesis
      using fold_appends [of a "\<lambda>x. walk x (depth + 1)" looks_like_path "\<lambda>x. strings_from x (depth + 1)" acc]
        "2.IH" [OF False] by simp
  qed simp
next
  case (3 m depth acc)
  show ?case
  proof (cases "8 < depth")
    case False
    have "(case p of (k, x) \<Rightarrow> walk x (depth + 1)) acc' =
        (fst acc' @ filter looks_like_path (strings_from (snd p) (depth + 1)),
         snd acc' @ strings_from (snd p) (depth + 1))" if "p \<in> set m" for p acc'
      using "3.IH" [OF False, of p "fst p" "snd p" acc'] that by (simp add: split_def)
    then show ?thesis
      using False fold_appends [of m "\<lambda>(k, x). walk x (depth + 1)" looks_like_path
          "\<lambda>p. strings_from (snd p) (depth + 1)" acc] by (simp add: split_def)
  qed simp
qed auto

lemma strings_from_occurs:
  "s \<in> set (strings_from v depth) \<longleftrightarrow> (\<exists>d. occurs d v s \<and> depth + d \<le> 8)"
proof (induction v depth rule: strings_from.induct)
  case (2 a depth)
  show ?case
  proof (cases "8 < depth")
    case False
    then have "s \<in> set (strings_from (JArray a) depth) \<longleftrightarrow>
        (\<exists>x \<in> set a. \<exists>d. occurs d x s \<and> depth + 1 + d \<le> 8)"
      using 2 by simp
    also have "\<dots> \<longleftrightarrow> (\<exists>d. occurs d (JArray a) s \<and> depth + d \<le> 8)"
      unfolding occurs_simps by (metis add.assoc plus_1_eq_Suc)
    finally show ?thesis .
  qed simp
next
  case (3 m depth)
  show ?case
  proof (cases "8 < depth")
    case False
    then have "s \<in> set (strings_from (JObject m) depth) \<longleftrightarrow>
        (\<exists>p \<in> set m. s \<in> set (strings_from (snd p) (depth + 1)))"
      by (auto simp: split_def)
    also have "\<dots> \<longleftrightarrow> (\<exists>p \<in> set m. \<exists>d. occurs d (snd p) s \<and> depth + 1 + d \<le> 8)"
    proof (rule bex_cong [OF refl])
      fix p assume "p \<in> set m"
      then show "s \<in> set (strings_from (snd p) (depth + 1)) \<longleftrightarrow> (\<exists>d. occurs d (snd p) s \<and> depth + 1 + d \<le> 8)"
        using "3.IH" [OF False, of p "fst p" "snd p"] by simp
    qed
    also have "\<dots> \<longleftrightarrow> (\<exists>d. occurs d (JObject m) s \<and> depth + d \<le> 8)"
      unfolding occurs_simps by (metis add.assoc plus_1_eq_Suc prod.collapse snd_conv)
    finally show ?thesis .
  qed simp
qed auto

text \<open>
  What the engine looks at is exactly the arguments: for a frame that parses with \<open>params\<close>, a
  string is among the values of the request if and only if it occurs in \<open>params\<close> under at most
  eight arrays and objects, and every such string that looks like a path is among its paths.
\<close>

theorem request_sees_the_arguments:
  assumes "parse frame = Some v" and "jget ''params'' v = Some params"
  shows "(s \<in> set (rq_values (request_from_frame parse meth frame sc [])) \<longleftrightarrow>
            (\<exists>d. occurs d params s \<and> d \<le> 8)) \<and>
    ((\<exists>d. occurs d params s \<and> d \<le> 8) \<and> looks_like_path s \<longrightarrow>
       s \<in> set (rq_paths (request_from_frame parse meth frame sc [])))"
proof -
  have uri: "Option.bind (jget ''uri'' params) as_str = Some u \<Longrightarrow> u \<in> set (strings_from params 0)" for u
  proof -
    assume "Option.bind (jget ''uri'' params) as_str = Some u"
    then obtain m where "params = JObject m" "map_of m ''uri'' = Some (JString u)"
      by (cases params) (auto simp: bind_eq_Some_conv elim: as_str.elims)
    then have "occurs 1 params u"
      by (auto dest!: map_of_SomeD intro!: occurs.intros(3) [of 0, simplified] here)
    then show ?thesis unfolding strings_from_occurs by force
  qed
  have "set (rq_values (request_from_frame parse meth frame sc [])) = set (strings_from params 0)"
    using assms uri
    by (auto simp: request_from_frame_def walk_strings Let_def split: option.splits)
  moreover have "set (filter looks_like_path (strings_from params 0)) \<subseteq>
      set (rq_paths (request_from_frame parse meth frame sc []))"
    using assms
    by (auto simp: request_from_frame_def walk_strings Let_def split: option.splits)
  ultimately show ?thesis using strings_from_occurs [of s params 0] by auto
qed

theorem request_sees_the_arguments_witness:
  "''/etc/passwd'' \<in> set (rq_paths (request_from_frame
     (\<lambda>_. Some (JObject [(''params'', JObject [(''arguments'', JArray [JString ''/etc/passwd''])])]))
     ''tools/call'' ''{}'' scope_unknown []))"
proof -
  have "occurs 2 (JObject [(''arguments'', JArray [JString ''/etc/passwd''])]) ''/etc/passwd''"
    by (simp add: numeral_2_eq_2)
  then have "\<exists>d. occurs d (JObject [(''arguments'', JArray [JString ''/etc/passwd''])]) ''/etc/passwd'' \<and> d \<le> 8"
    by (intro exI [of _ 2]) simp
  then show ?thesis
    using request_sees_the_arguments [of
        "\<lambda>_. Some (JObject [(''params'', JObject [(''arguments'', JArray [JString ''/etc/passwd''])])])" "''{}''"
        "JObject [(''params'', JObject [(''arguments'', JArray [JString ''/etc/passwd''])])]"
        "JObject [(''arguments'', JArray [JString ''/etc/passwd''])]" "''/etc/passwd''" "''tools/call''" scope_unknown]
    by (simp add: looks_like_path_def starts_with_def)
qed

lemma components_inside:
  assumes "is_absolute root"
  shows "\<exists>cs. components (root @ [CHR ''/''] @ rest) = components root @ cs"
proof -
  have "segments (root @ [CHR ''/''] @ rest) = segments root @ segments rest"
    by (simp add: segments_def split_on_append)
  moreover have "is_absolute (root @ [CHR ''/''] @ rest)"
    using assms by (auto simp: is_absolute_def starts_with_iff)
  ultimately show ?thesis using assms by (simp add: components_def)
qed

text \<open>
  The test for leaving the project is lexical: a path that goes up from a scope root with
  \<open>..\<close> still starts with that root component by component, so it is not reported as outside,
  whatever file it names.
\<close>

theorem dotdot_counts_as_inside:
  assumes "is_absolute root" and "root \<in> set (rq_scope_paths rq)"
    and "rq_paths rq = [root @ ''/../'' @ rest]"
  shows "\<not> has_path_outside_scope rq"
proof -
  have "path_starts_with (root @ ''/../'' @ rest) root"
    using components_inside [OF assms(1), of "''../'' @ rest"] by (auto simp: path_starts_with_def)
  then show ?thesis using assms(2,3) by (auto simp: has_path_outside_scope_def list_ex_iff)
qed

theorem dotdot_counts_as_inside_witness:
  "\<not> has_path_outside_scope \<lparr>rq_method = ''tools/call'', rq_tool = Some ''write_file'',
     rq_paths = [''/proj'' @ ''/../'' @ ''etc/passwd''], rq_values = [], rq_tainted = None, rq_drifted = False,
     rq_scope_key = ''cwd:/proj'', rq_scope_paths = [''/proj'']\<rparr>"
  by (rule dotdot_counts_as_inside [where root = "''/proj''" and rest = "''etc/passwd''"])
    (simp_all add: is_absolute_def starts_with_def)

section \<open>What is said about a secret\<close>

definition SECRET_KINDS :: "bytes list" where
  "SECRET_KINDS = [''private key'', ''AWS access key'', ''GitHub token'', ''API key'', ''Slack token'']"

lemma other_secret_kind_known: "other_secret_kind s = Some k \<Longrightarrow> k \<in> set SECRET_KINDS"
  by (auto simp: other_secret_kind_def SECRET_KINDS_def split: if_splits)

lemma obind_Returned_iff: "obind x f = Returned y \<longleftrightarrow> (\<exists>z. x = Returned z \<and> f z = Returned y)"
  by (cases x) auto

lemma detect_secret_Some:
  assumes "detect_secret s = Returned (Some f)"
  shows "\<exists>k \<in> set SECRET_KINDS. f = Secret k (take_chars 6 s)"
proof -
  have "''private key'' \<in> set SECRET_KINDS" "''AWS access key'' \<in> set SECRET_KINDS"
    by (simp_all add: SECRET_KINDS_def)
  then show ?thesis using assms other_secret_kind_known
    by (auto simp: detect_secret_def obind_Returned_iff secret_prefix_def split: if_splits)
qed

lemma collect_secrets_kinds:
  assumes "collect_secrets vs out = Returned fs"
    and "\<forall>f \<in> set out. \<exists>v k. f = Secret k (take_chars 6 v) \<and> k \<in> set SECRET_KINDS"
  shows "\<forall>f \<in> set fs. \<exists>v k. f = Secret k (take_chars 6 v) \<and> k \<in> set SECRET_KINDS"
  using assms
proof (induction vs out rule: collect_secrets.induct)
  case (2 v vs out)
  then obtain f where f: "detect_secret v = Returned f"
    and fs: "collect_secrets vs (case f of Some f' \<Rightarrow> if f' \<in> set out then out else out @ [f'] | None \<Rightarrow> out) = Returned fs"
    by (auto simp: obind_Returned_iff)
  show ?case
    by (rule "2.IH" [OF fs]) (use f "2.prems"(2) detect_secret_Some in \<open>fastforce split: option.splits if_splits\<close>)
qed simp

text \<open>
  No journal line, prompt or reply is given a credential: whatever the values of a call, a
  finding about a secret says one of five fixed kinds and at most the first six characters (at most
  24 bytes) of a value.
\<close>

theorem secret_value_is_not_kept:
  assumes "collect_findings rq = Returned fs" and "f \<in> set fs"
  shows "(\<exists>k v. f = Secret k (take_chars 6 v) \<and> k \<in> set SECRET_KINDS \<and>
            describe f = k @ '' ('' @ take_chars 6 v @ ELLIPSIS @ '')'' \<and> length (take_chars 6 v) \<le> 24) \<or>
         rq_tainted rq = Some (f_origin f) \<and> f = Tainted (f_origin f) \<or>
         rq_tool rq = Some (f_tool f) \<and> f = Drifted (f_tool f)"
proof -
  obtain ss where ss: "collect_secrets (rq_values rq) [] = Returned ss"
    and fs: "fs = ss @ (case rq_tainted rq of Some l \<Rightarrow> [Tainted l] | None \<Rightarrow> []) @
       (case rq_tool rq of Some t \<Rightarrow> if rq_drifted rq then [Drifted t] else [] | None \<Rightarrow> [])"
    using assms(1) by (auto simp: collect_findings_def obind_Returned_iff)
  show ?thesis
  proof (cases "f \<in> set ss")
    case True
    then obtain v k where "f = Secret k (take_chars 6 v)" "k \<in> set SECRET_KINDS"
      using collect_secrets_kinds [OF ss] by auto
    then show ?thesis using length_take_chars [of 6 v] by auto
  next
    case False
    then show ?thesis using assms(2) by (auto simp: fs split: option.splits if_splits)
  qed
qed

theorem secret_value_is_not_kept_witness:
  "\<exists>fs. collect_findings \<lparr>rq_method = ''tools/call'', rq_tool = Some ''post'', rq_paths = [],
       rq_values = [''sk-0123456789abcdefghij''], rq_tainted = None, rq_drifted = False, rq_scope_key = [],
       rq_scope_paths = []\<rparr> = Returned fs \<and>
     (\<exists>k v. hd fs = Secret k (take_chars 6 v) \<and> length (take_chars 6 v) \<le> 24)"
proof -
  let ?rq = "\<lparr>rq_method = ''tools/call'', rq_tool = Some ''post'', rq_paths = [],
       rq_values = [''sk-0123456789abcdefghij''], rq_tainted = None, rq_drifted = False, rq_scope_key = [],
       rq_scope_paths = []\<rparr>"
  have r: "collect_findings ?rq = Returned [Secret ''API key'' ''sk-012'']"
    by code_simp
  then show ?thesis using secret_value_is_not_kept [OF r, of "Secret ''API key'' ''sk-012''"] by auto
qed

text \<open>
  There is an argument on which detection panics: \<open>AKIA\<close>, fifteen capitals or digits and a
  two-byte character.  The slice to byte 16 cuts the character, and the whole collection of
  findings of a call with this argument panics.
\<close>

theorem multibyte_key_panics:
  assumes "length us = 15" and "\<forall>c \<in> set us. is_ascii_upper c \<or> is_ascii_digit c"
    and "rq_values rq = [''AKIA'' @ us @ [CHR 0xC3, CHR 0xA9]]"
  shows "collect_findings rq = Panicked"
proof -
  let ?s = "''AKIA'' @ us @ [CHR 0xC3, CHR 0xA9]"
  have "CHR ''-'' \<notin> set us" using assms(2) by (auto simp: is_ascii_upper_def is_ascii_digit_def byte_def)
  then have "\<not> contains_sub ?s ''-----BEGIN''"
    unfolding contains_sub_iff by (auto dest!: arg_cong [of _ _ "\<lambda>xs. CHR ''-'' \<in> set xs"])
  moreover have "starts_with_aws_key ?s = Panicked"
    using assms(1) by (simp add: starts_with_aws_key_def strip_prefix_def starts_with_def is_char_boundary_def
        is_cont_def byte_def nth_append)
  ultimately have "detect_secret ?s = Panicked"
    by (simp add: detect_secret_def)
  then show ?thesis using assms(3) by (simp add: collect_findings_def)
qed

theorem multibyte_key_panics_witness:
  "collect_findings \<lparr>rq_method = ''tools/call'', rq_tool = Some ''echo'', rq_paths = [],
     rq_values = [''AKIA'' @ ''AAAAAAAAAAAAAAA'' @ [CHR 0xC3, CHR 0xA9]], rq_tainted = None, rq_drifted = False,
     rq_scope_key = [], rq_scope_paths = []\<rparr> = Panicked"
  by (rule multibyte_key_panics [where us = "''AAAAAAAAAAAAAAA''"])
    (simp_all add: is_ascii_upper_def byte_def)

end
