(* ===== verification/Policy.thy ===== *)
theory Policy
  imports Policy_Model Policy_Request
begin

text \<open>
  \<open>daemon/policy/mod.rs\<close>: the compiled policy, its evaluation, reloading and appending to the file.
  The glob library is a parameter (\<open>Glob::new\<close>, \<open>GlobSetBuilder::build\<close>, \<open>GlobSet::is_match\<close>), as are
  the home directory and the YAML reader.
\<close>

section \<open>Globs\<close>

record ('g, 's) glob_lib =
  glob_new :: "bytes \<Rightarrow> 'g option"
  set_build :: "'g list \<Rightarrow> 's option"
  set_match :: "'s \<Rightarrow> bytes \<Rightarrow> bool"

definition expand_tilde :: "bytes \<Rightarrow> bytes \<Rightarrow> bytes option" where
  "expand_tilde home p = map_option (\<lambda>rest. home @ ''/'' @ rest) (strip_prefix ''~/'' p)"

definition expand_tilde_str :: "bytes \<Rightarrow> bytes" where
  "expand_tilde_str p = p"

definition globs_of :: "('g, 's) glob_lib \<Rightarrow> bytes \<Rightarrow> bytes \<Rightarrow> 'g list" where
  "globs_of G home p =
     (case glob_new G p of Some g \<Rightarrow> [g] | None \<Rightarrow> []) @
     (case Option.bind (expand_tilde home p) (glob_new G) of Some g \<Rightarrow> [g] | None \<Rightarrow> [])"

definition build_globs :: "('g, 's) glob_lib \<Rightarrow> bytes \<Rightarrow> bytes list \<Rightarrow> 's option" where
  "build_globs G home patterns =
     (if patterns = [] then None else set_build G (concat (map (globs_of G home) patterns)))"

section \<open>The compiled policy\<close>

record 's compiled_rule =
  c_rule :: rule
  c_arg_paths :: "'s option"
  c_tools :: "'s option"
  c_methods :: "'s option"

record 's policy =
  p_file :: policy_file
  p_rules :: "'s compiled_rule list"
  p_overrides :: "(override \<times> 's option) list"
  p_outbound :: "'s option"
  p_loaded_mtime :: "nat option"
  p_path :: "bytes option"

definition compile_rule :: "('g, 's) glob_lib \<Rightarrow> bytes \<Rightarrow> rule \<Rightarrow> 's compiled_rule" where
  "compile_rule G home r =
     \<lparr>c_rule = r, c_arg_paths = build_globs G home (arg_path_matches (r_when r)),
      c_tools = build_globs G home (tool_matches (r_when r)),
      c_methods = build_globs G home (method_matches (r_when r))\<rparr>"

definition compile_policy ::
  "('g, 's) glob_lib \<Rightarrow> bytes \<Rightarrow> policy_file \<Rightarrow> bytes option \<Rightarrow> nat option \<Rightarrow> 's policy" where
  "compile_policy G home file path mtime =
     \<lparr>p_file = file, p_rules = map (compile_rule G home) (pf_rules file),
      p_overrides = map (\<lambda>ov. (ov, build_globs G home [ov_tool ov])) (pf_overrides file),
      p_outbound = build_globs G home (pf_outbound file), p_loaded_mtime = mtime, p_path = path\<rparr>"

text \<open>\<open>Policy::parse\<close>: an empty file is refused before the YAML reader sees it.\<close>

definition parse_policy :: "parser \<Rightarrow> bytes \<Rightarrow> policy_file option" where
  "parse_policy yaml text =
     (if trims_to_nothing text then None else Option.bind (yaml text) de_policy)"

text \<open>A file on disk: its text when it can be read as UTF-8, its modification time when known.\<close>

record disk_file =
  df_text :: "bytes option"
  df_mtime :: "nat option"

type_synonym disk = "bytes \<Rightarrow> disk_file option"

definition load_policy ::
  "('g, 's) glob_lib \<Rightarrow> bytes \<Rightarrow> parser \<Rightarrow> disk \<Rightarrow> bytes \<Rightarrow> 's policy option" where
  "load_policy G home yaml dsk path =
     (case Option.bind (dsk path) df_text of
        None \<Rightarrow> None
      | Some text \<Rightarrow>
          (case parse_policy yaml text of
             None \<Rightarrow> None
           | Some file \<Rightarrow> Some (compile_policy G home file (Some path) (Option.bind (dsk path) df_mtime))))"

definition reload_if_changed ::
  "('g, 's) glob_lib \<Rightarrow> bytes \<Rightarrow> parser \<Rightarrow> disk \<Rightarrow> 's policy \<Rightarrow> bool \<times> 's policy" where
  "reload_if_changed G home yaml dsk p =
     (case p_path p of
        None \<Rightarrow> (False, p)
      | Some path \<Rightarrow>
          (let mtime = Option.bind (dsk path) df_mtime in
           if mtime = p_loaded_mtime p then (False, p)
           else (case load_policy G home yaml dsk path of
                   Some new \<Rightarrow> (True, new)
                 | None \<Rightarrow> (False, p\<lparr>p_loaded_mtime := mtime\<rparr>))))"

section \<open>Evaluation\<close>

record decision =
  d_action :: action
  d_rule :: "bytes option"
  d_severity :: severity
  d_message :: bytes
  d_findings :: "finding list"

definition is_outbound :: "('g, 's) glob_lib \<Rightarrow> 's policy \<Rightarrow> bytes option \<Rightarrow> bool" where
  "is_outbound G p tool =
     (case (tool, p_outbound p) of
        (Some t, Some g) \<Rightarrow> set_match G g (to_ascii_lowercase t)
      | _ \<Rightarrow> False)"

definition is_empty_condition :: "when_cond \<Rightarrow> bool" where
  "is_empty_condition w \<longleftrightarrow>
     arg_path_matches w = [] \<and> tool_matches w = [] \<and> method_matches w = [] \<and>
     \<not> path_outside_cwd w \<and> \<not> arg_matches_secret w \<and> \<not> arg_contains_tainted w \<and>
     \<not> tool_is_outbound w \<and> \<not> tool_description_drift w"

definition is_secret :: "finding \<Rightarrow> bool" where
  "is_secret f \<longleftrightarrow> (case f of Secret _ _ \<Rightarrow> True | _ \<Rightarrow> False)"

definition try_rule ::
  "('g, 's) glob_lib \<Rightarrow> 's policy \<Rightarrow> 's compiled_rule \<Rightarrow> request \<Rightarrow> finding list \<Rightarrow> decision option" where
  "try_rule G p c rq fs =
     (let w = r_when (c_rule c) in
      if is_empty_condition w then None
      else if (case c_methods c of Some g \<Rightarrow> \<not> set_match G g (rq_method rq) | None \<Rightarrow> False) then None
      else if (case c_tools c of
                 Some g \<Rightarrow> (case rq_tool rq of None \<Rightarrow> True | Some tool \<Rightarrow> \<not> set_match G g tool)
               | None \<Rightarrow> False) then None
      else if (case c_arg_paths c of
                 Some g \<Rightarrow> \<not> list_ex (\<lambda>x. set_match G g x \<or> set_match G g (expand_tilde_str x)) (rq_paths rq)
               | None \<Rightarrow> False) then None
      else if path_outside_cwd w \<and> \<not> has_path_outside_scope rq then None
      else if arg_matches_secret w \<and> \<not> list_ex is_secret fs then None
      else if arg_contains_tainted w \<and> rq_tainted rq = None then None
      else if tool_is_outbound w \<and> \<not> is_outbound G p (rq_tool rq) then None
      else if tool_description_drift w \<and> \<not> rq_drifted rq then None
      else Some \<lparr>d_action = r_action (c_rule c), d_rule = Some (r_id (c_rule c)),
             d_severity = r_severity (c_rule c),
             d_message = (case r_message (c_rule c) of Some m \<Rightarrow> m
               | None \<Rightarrow> replace_char (CHR ''_'') '' '' (r_id (c_rule c))),
             d_findings = fs\<rparr>)"

fun try_overrides :: "('g, 's) glob_lib \<Rightarrow> request \<Rightarrow> (override \<times> 's option) list \<Rightarrow> decision option" where
  "try_overrides G rq [] = None"
| "try_overrides G rq ((ov, tools) # rest) =
     (if ov_scope ov \<noteq> rq_scope_key rq then try_overrides G rq rest
      else if (case tools of Some g \<Rightarrow> set_match G g (case rq_tool rq of Some t \<Rightarrow> t | None \<Rightarrow> []) | None \<Rightarrow> False)
      then Some \<lparr>d_action = ov_action ov, d_rule = Some ''override'', d_severity = Info,
             d_message = ''decision recorded for '' @ ov_scope ov, d_findings = []\<rparr>
      else try_overrides G rq rest)"

definition evaluate :: "('g, 's) glob_lib \<Rightarrow> 's policy \<Rightarrow> request \<Rightarrow> decision outcome" where
  "evaluate G p rq =
     (case try_overrides G rq (p_overrides p) of
        Some d \<Rightarrow> Returned d
      | None \<Rightarrow> obind (collect_findings rq) (\<lambda>fs. Returned
          (case find_map (\<lambda>c. try_rule G p c rq fs) (p_rules p) of
             Some d \<Rightarrow> d
           | None \<Rightarrow> \<lparr>d_action = pf_default (p_file p), d_rule = None, d_severity = Info,
                       d_message = ''default policy'', d_findings = fs\<rparr>)))"

definition agent_message :: "decision \<Rightarrow> bytes" where
  "agent_message d =
     (if d_findings d = [] then d_message d
      else d_message d @ '' ['' @ join_with '', '' (map describe (d_findings d)) @ '']'')"

section \<open>Appending a permanent override\<close>

definition override_entry :: "bytes \<Rightarrow> bytes \<Rightarrow> bool \<Rightarrow> bytes" where
  "override_entry sk tool allow =
     ''  - scope: '' @ [QUOTE] @ replace_char QUOTE [BSLASH, QUOTE] sk @ [QUOTE, NL] @
     ''    tool: '' @ [QUOTE] @ replace_char QUOTE [BSLASH, QUOTE] tool @ [QUOTE, NL] @
     ''    action: '' @ (if allow then ''allow'' else ''deny'') @ [NL] @ ''    until: forever'' @ [NL]"

definition with_overrides_open :: "bytes \<Rightarrow> bytes" where
  "with_overrides_open text =
     (let u = (if contains_sub text (NL # ''overrides:'') \<or> starts_with text ''overrides:''
               then replace_all ''overrides: []'' ''overrides:'' text
               else trim_end_ws text @ [NL] @ ''overrides:'' @ [NL])
      in if ends_with u [NL] then u else u @ [NL])"

text \<open>The text written back, or \<open>None\<close> where the function fails and the file stays as it was.\<close>

definition append_override :: "parser \<Rightarrow> bytes option \<Rightarrow> bytes \<Rightarrow> bytes \<Rightarrow> bool \<Rightarrow> bytes option" where
  "append_override yaml content sk tool allow =
     (case content of
        None \<Rightarrow> None
      | Some text \<Rightarrow>
          if parse_policy yaml text = None then None
          else (let updated = with_overrides_open text @ override_entry sk tool allow in
                if parse_policy yaml updated = None then None else Some updated))"

section \<open>First match, top to bottom\<close>

text \<open>What it means for a rule to hold of a request: all the conditions it states, and at least one.\<close>

definition holds :: "('g, 's) glob_lib \<Rightarrow> 's option \<Rightarrow> 's compiled_rule \<Rightarrow> request \<Rightarrow> finding list \<Rightarrow> bool" where
  "holds G outb c rq fs \<longleftrightarrow>
     \<not> is_empty_condition (r_when (c_rule c)) \<and>
     (\<forall>g. c_methods c = Some g \<longrightarrow> set_match G g (rq_method rq)) \<and>
     (\<forall>g. c_tools c = Some g \<longrightarrow> (\<exists>t. rq_tool rq = Some t \<and> set_match G g t)) \<and>
     (\<forall>g. c_arg_paths c = Some g \<longrightarrow> (\<exists>x \<in> set (rq_paths rq). set_match G g x)) \<and>
     (path_outside_cwd (r_when (c_rule c)) \<longrightarrow> has_path_outside_scope rq) \<and>
     (arg_matches_secret (r_when (c_rule c)) \<longrightarrow> (\<exists>k x. Secret k x \<in> set fs)) \<and>
     (arg_contains_tainted (r_when (c_rule c)) \<longrightarrow> (\<exists>l. rq_tainted rq = Some l)) \<and>
     (tool_is_outbound (r_when (c_rule c)) \<longrightarrow>
        (\<exists>t g. rq_tool rq = Some t \<and> outb = Some g \<and> set_match G g (to_ascii_lowercase t))) \<and>
     (tool_description_drift (r_when (c_rule c)) \<longrightarrow> rq_drifted rq)"

definition rule_decision :: "rule \<Rightarrow> finding list \<Rightarrow> decision" where
  "rule_decision r fs = \<lparr>d_action = r_action r, d_rule = Some (r_id r), d_severity = r_severity r,
     d_message = (case r_message r of Some m \<Rightarrow> m | None \<Rightarrow> replace_char (CHR ''_'') '' '' (r_id r)),
     d_findings = fs\<rparr>"

lemma is_secret_ex: "list_ex is_secret fs \<longleftrightarrow> (\<exists>k x. Secret k x \<in> set fs)"
proof -
  have "is_secret f \<longleftrightarrow> (\<exists>k x. f = Secret k x)" for f by (cases f) (simp_all add: is_secret_def)
  then show ?thesis by (auto simp: list_ex_iff)
qed

lemma is_outbound_iff:
  "is_outbound G p tool \<longleftrightarrow>
     (\<exists>t g. tool = Some t \<and> p_outbound p = Some g \<and> set_match G g (to_ascii_lowercase t))"
  by (auto simp: is_outbound_def split: option.splits)

lemma try_rule_iff:
  "try_rule G p c rq fs = (if holds G (p_outbound p) c rq fs then Some (rule_decision (c_rule c) fs) else None)"
  unfolding try_rule_def holds_def Let_def is_secret_ex is_outbound_iff
  by (auto simp: rule_decision_def expand_tilde_str_def list_ex_iff split: option.splits)

lemma find_map_if:
  "find_map (\<lambda>c. if P c then Some (f c) else None) cs = map_option f (find P cs)"
  by (induction cs) auto

text \<open>Which override answers a request: same scope key and a glob that matches the tool.\<close>

definition override_applies :: "('g, 's) glob_lib \<Rightarrow> request \<Rightarrow> override \<times> 's option \<Rightarrow> bool" where
  "override_applies G rq ot \<longleftrightarrow>
     ov_scope (fst ot) = rq_scope_key rq \<and>
     (\<exists>g. snd ot = Some g \<and> set_match G g (case rq_tool rq of Some t \<Rightarrow> t | None \<Rightarrow> []))"

lemma try_overrides_find:
  "try_overrides G rq os = map_option (\<lambda>ot. \<lparr>d_action = ov_action (fst ot), d_rule = Some ''override'',
     d_severity = Info, d_message = ''decision recorded for '' @ ov_scope (fst ot), d_findings = []\<rparr>)
     (find (override_applies G rq) os)"
  by (induction G rq os rule: try_overrides.induct) (auto simp: override_applies_def split: option.splits)

lemma first_match_raw:
  "evaluate G p rq =
     (case find (override_applies G rq) (p_overrides p) of
        Some (ov, _) \<Rightarrow> Returned \<lparr>d_action = ov_action ov, d_rule = Some ''override'', d_severity = Info,
          d_message = ''decision recorded for '' @ ov_scope ov, d_findings = []\<rparr>
      | None \<Rightarrow> obind (collect_findings rq) (\<lambda>fs. Returned
          (case find (\<lambda>c. holds G (p_outbound p) c rq fs) (p_rules p) of
             Some c \<Rightarrow> rule_decision (c_rule c) fs
           | None \<Rightarrow> \<lparr>d_action = pf_default (p_file p), d_rule = None, d_severity = Info,
                       d_message = ''default policy'', d_findings = fs\<rparr>)))"
  unfolding evaluate_def try_overrides_find try_rule_iff find_map_if
  by (auto split: option.splits intro!: arg_cong [of _ _ "obind _"])

text \<open>
  C11: the verdict can be predicted by reading the file from top to bottom: the first recorded
  override for the scope and tool decides; otherwise the first rule all of whose stated conditions
  hold decides, with the findings; otherwise the default does.  No rule is combined with another,
  and evaluation fails only where collecting the findings does.
\<close>

theorem first_match_wins:
  "evaluate G p rq =
     (case find (override_applies G rq) (p_overrides p) of
        Some (ov, _) \<Rightarrow> Returned \<lparr>d_action = ov_action ov, d_rule = Some ''override'', d_severity = Info,
          d_message = ''decision recorded for '' @ ov_scope ov, d_findings = []\<rparr>
      | None \<Rightarrow> obind (collect_findings rq) (\<lambda>fs. Returned
          (case find (\<lambda>c. holds G (p_outbound p) c rq fs) (p_rules p) of
             Some c \<Rightarrow> rule_decision (c_rule c) fs
           | None \<Rightarrow> \<lparr>d_action = pf_default (p_file p), d_rule = None, d_severity = Info,
                       d_message = ''default policy'', d_findings = fs\<rparr>)))"
  by (rule first_match_raw)

text \<open>
  A rule without conditions is inert: wherever it stands in the file and whatever its action,
  removing it changes no verdict.
\<close>

theorem empty_rule_is_inert:
  assumes "is_empty_condition (r_when r)"
  shows "evaluate G (compile_policy G home (file\<lparr>pf_rules := pre @ r # post\<rparr>) path mtime) rq =
         evaluate G (compile_policy G home (file\<lparr>pf_rules := pre @ post\<rparr>) path mtime) rq"
proof -
  let ?c = "compile_rule G home r"
  have "\<not> holds G outb ?c rq fs" for outb fs
    using assms by (simp add: holds_def compile_rule_def)
  then have skip: "find (\<lambda>c. holds G outb c rq fs) (xs @ ?c # ys) = find (\<lambda>c. holds G outb c rq fs) (xs @ ys)"
    for outb fs xs ys
    by (induction xs) auto
  show ?thesis
    unfolding evaluate_def try_rule_iff find_map_if compile_policy_def
    by (simp add: skip cong: option.case_cong)
qed

theorem empty_rule_is_inert_witness:
  "evaluate \<lparr>glob_new = Some, set_build = Some, set_match = (\<lambda>s x. x \<in> set s)\<rparr>
     (compile_policy \<lparr>glob_new = Some, set_build = Some, set_match = (\<lambda>s x. x \<in> set s)\<rparr> ''/home/me''
       (policy_file_default\<lparr>pf_rules := [] @ \<lparr>r_id = ''all'', r_when = when_default, r_action = ADeny,
          r_severity = High, r_message = None\<rparr> # []\<rparr>) None None) rq =
   evaluate \<lparr>glob_new = Some, set_build = Some, set_match = (\<lambda>s x. x \<in> set s)\<rparr>
     (compile_policy \<lparr>glob_new = Some, set_build = Some, set_match = (\<lambda>s x. x \<in> set s)\<rparr> ''/home/me''
       (policy_file_default\<lparr>pf_rules := [] @ []\<rparr>) None None) rq"
  by (rule empty_rule_is_inert) (simp add: is_empty_condition_def when_default_def)

section \<open>Reloading and appending\<close>

lemma evaluate_mtime [simp]: "evaluate G (p\<lparr>p_loaded_mtime := t\<rparr>) rq = evaluate G p rq"
  by (simp add: first_match_raw evaluate_def try_rule_iff cong: option.case_cong)

text \<open>
  C40: reloading never opens the firewall: it either installs the policy that the file on disk now
  denotes, a text that is not blank and deserialises in full, or leaves every verdict as it was,
  whatever is on disk: a file that is missing, empty, truncated or mistyped.
\<close>

theorem reload_never_opens:
  "case reload_if_changed G home yaml dsk p of (changed, p') \<Rightarrow>
     if changed
     then (\<exists>path f text file. p_path p = Some path \<and> dsk path = Some f \<and> df_text f = Some text \<and>
             \<not> trims_to_nothing text \<and> Option.bind (yaml text) de_policy = Some file \<and>
             p' = compile_policy G home file (Some path) (df_mtime f))
     else evaluate G p' rq = evaluate G p rq \<and> p_path p' = p_path p"
  by (auto simp: reload_if_changed_def load_policy_def parse_policy_def Let_def bind_eq_Some_conv
      split: option.splits if_splits)

lemma replace_all_none: "\<not> contains_sub s p \<Longrightarrow> replace_all p r s = s"
  by (subst replace_all.simps) (simp add: contains_sub_def)

lemma utf8_ws: "trim_end_ws s @ concat (rev (takeWhile (\<lambda>ch. ch \<in> set ws_chars) (rev (utf8_chars s)))) = s"
proof -
  have "rev (dropWhile P (rev xs)) @ rev (takeWhile P (rev xs)) = xs" for P and xs :: "bytes list"
    by (metis rev_append rev_rev_ident takeWhile_dropWhile_id)
  then show ?thesis by (metis concat_append trim_end_ws_def utf8_chars_concat)
qed

text \<open>
  Recording a permanent decision keeps the user's file: when the call writes, the new text
  parses as a policy, ends with the new entry and, unless it had an empty \<open>overrides: []\<close> list to
  open, begins with the whole old text up to white space at its end, comments and order included.
\<close>

theorem append_keeps_the_text:
  assumes "append_override yaml (Some text) sk tool allow = Some new"
  shows "parse_policy yaml new \<noteq> None \<and> suffix (override_entry sk tool allow) new \<and>
    (if contains_sub text ''overrides: []'' then True
     else (\<exists>kept ws. text = kept @ concat ws \<and> list_all (\<lambda>ch. ch \<in> set ws_chars) ws \<and> prefix kept new))"
proof -
  have new: "new = with_overrides_open text @ override_entry sk tool allow" "parse_policy yaml new \<noteq> None"
    using assms by (auto simp: append_override_def Let_def split: if_splits)
  have "\<exists>kept ws. text = kept @ concat ws \<and> list_all (\<lambda>ch. ch \<in> set ws_chars) ws \<and> prefix kept new"
    if "\<not> contains_sub text ''overrides: []''"
  proof (cases "contains_sub text (NL # ''overrides:'') \<or> starts_with text ''overrides:''")
    case True
    then have "prefix text new"
      using new(1) replace_all_none [OF that] by (auto simp: with_overrides_open_def Let_def)
    then show ?thesis by (intro exI [of _ "text"] exI [of _ "[]"]) simp
  next
    case False
    then have "prefix (trim_end_ws text) new"
      using new(1) by (auto simp: with_overrides_open_def Let_def)
    then show ?thesis
      by (intro exI [of _ "trim_end_ws text"]
            exI [of _ "rev (takeWhile (\<lambda>ch. ch \<in> set ws_chars) (rev (utf8_chars text)))"])
        (auto simp: utf8_ws list_all_iff dest: set_takeWhileD)
  qed
  then show ?thesis using new by (auto simp: suffix_def)
qed

section \<open>The policy shipped by default\<close>

lemma default_rules:
  "p_rules (compile_policy G home default_policy path mtime) = map (compile_rule G home) (pf_rules default_policy)"
  by (simp add: compile_policy_def)

lemma default_evaluate:
  assumes "collect_findings rq = Returned fs"
  shows "evaluate G (compile_policy G home default_policy path mtime) rq = Returned
    (case find (\<lambda>c. holds G (build_globs G home (pf_outbound default_policy)) c rq fs)
            (map (compile_rule G home) (pf_rules default_policy)) of
       Some c \<Rightarrow> rule_decision (c_rule c) fs
     | None \<Rightarrow> \<lparr>d_action = AAllow, d_rule = None, d_severity = Info, d_message = ''default policy'',
                 d_findings = fs\<rparr>)"
  unfolding first_match_raw using assms by (simp add: compile_policy_def default_policy_def)

definition SECRET_PATHS :: "bytes list" where
  "SECRET_PATHS = arg_path_matches (r_when (hd (pf_rules default_policy)))"

lemma find5:
  "find P [a, b, c, d, e] = (if P a then Some a else if P b then Some b else if P c then Some c
      else if P d then Some d else if P e then Some e else None)"
  by simp

lemma default_holds:
  assumes "build_globs G home SECRET_PATHS = Some sp"
  shows "find (\<lambda>c. holds G outb c rq fs) (map (compile_rule G home) (pf_rules default_policy)) =
    (if \<exists>x \<in> set (rq_paths rq). set_match G sp x then Some (compile_rule G home (pf_rules default_policy ! 0))
     else if \<exists>k x. Secret k x \<in> set fs then Some (compile_rule G home (pf_rules default_policy ! 1))
     else if holds G outb (compile_rule G home (pf_rules default_policy ! 2)) rq fs
       then Some (compile_rule G home (pf_rules default_policy ! 2))
     else if rq_tainted rq \<noteq> None \<and>
         (\<exists>t g. rq_tool rq = Some t \<and> outb = Some g \<and> set_match G g (to_ascii_lowercase t))
       then Some (compile_rule G home (pf_rules default_policy ! 3))
     else if rq_drifted rq then Some (compile_rule G home (pf_rules default_policy ! 4))
     else None)"
proof -
  have none: "build_globs G home [] = None" by (simp add: build_globs_def)
  have n: "pf_rules default_policy = map ((!) (pf_rules default_policy)) [0, 1, 2, 3, 4]"
    by (simp add: default_policy_def numeral_eq_Suc)
  have h0: "holds G outb (compile_rule G home (pf_rules default_policy ! 0)) rq fs \<longleftrightarrow>
      (\<exists>x \<in> set (rq_paths rq). set_match G sp x)"
    using assms by (simp add: holds_def compile_rule_def is_empty_condition_def default_policy_def
        when_default_def none SECRET_PATHS_def)
  have h1: "holds G outb (compile_rule G home (pf_rules default_policy ! 1)) rq fs \<longleftrightarrow> (\<exists>k x. Secret k x \<in> set fs)"
    by (simp add: holds_def compile_rule_def is_empty_condition_def default_policy_def when_default_def none)
  have h3: "holds G outb (compile_rule G home (pf_rules default_policy ! 3)) rq fs \<longleftrightarrow>
      rq_tainted rq \<noteq> None \<and>
      (\<exists>t g. rq_tool rq = Some t \<and> outb = Some g \<and> set_match G g (to_ascii_lowercase t))"
    by (auto simp: holds_def compile_rule_def is_empty_condition_def default_policy_def when_default_def none
        numeral_eq_Suc)
  have h4: "holds G outb (compile_rule G home (pf_rules default_policy ! 4)) rq fs \<longleftrightarrow> rq_drifted rq"
    by (simp add: holds_def compile_rule_def is_empty_condition_def default_policy_def when_default_def none
        numeral_eq_Suc)
  show ?thesis
    by (subst n) (simp only: list.map find5 h0 h1 h3 h4)
qed

lemma default_outside:
  "\<not> has_path_outside_scope rq \<Longrightarrow> \<not> holds G outb (compile_rule G home (pf_rules default_policy ! 2)) rq fs"
  by (simp add: holds_def compile_rule_def default_policy_def when_default_def)

lemma exfiltration_denied:
  assumes "collect_findings rq = Returned fs" and "build_globs G home SECRET_PATHS = Some sp"
    and "build_globs G home (pf_outbound default_policy) = Some ob"
    and "rq_tainted rq = Some l" and "rq_tool rq = Some t" and "set_match G ob (to_ascii_lowercase t)"
    and "\<forall>x \<in> set (rq_paths rq). \<not> set_match G sp x" and "\<forall>k x. Secret k x \<notin> set fs"
    and "\<not> has_path_outside_scope rq"
  shows "evaluate G (compile_policy G home default_policy path mtime) rq =
    Returned \<lparr>d_action = ADeny, d_rule = Some ''taint_exfil'', d_severity = Critical,
      d_message = ''tainted local data in an outbound argument'', d_findings = fs\<rparr>"
proof -
  have "find (\<lambda>c. holds G (Some ob) c rq fs) (map (compile_rule G home) (pf_rules default_policy)) =
      Some (compile_rule G home (pf_rules default_policy ! 3))"
    using assms by (simp add: default_holds [OF assms(2)] default_outside)
  moreover have "rule_decision (pf_rules default_policy ! 3) fs =
      \<lparr>d_action = ADeny, d_rule = Some ''taint_exfil'', d_severity = Critical,
        d_message = ''tainted local data in an outbound argument'', d_findings = fs\<rparr>"
    by (simp add: rule_decision_def default_policy_def numeral_3_eq_3)
  ultimately show ?thesis
    by (simp add: default_evaluate [OF assms(1)] assms(3) compile_rule_def)
qed

lemma drift_asked:
  assumes "collect_findings rq = Returned fs" and "build_globs G home SECRET_PATHS = Some sp"
    and "rq_tainted rq = None" and "rq_drifted rq"
    and "\<forall>x \<in> set (rq_paths rq). \<not> set_match G sp x" and "\<forall>k x. Secret k x \<notin> set fs"
    and "\<not> has_path_outside_scope rq"
  shows "\<exists>dec. evaluate G (compile_policy G home default_policy path mtime) rq = Returned dec \<and>
    d_action dec = AAsk \<and> d_rule dec = Some ''tool_description_changed'' \<and> d_findings dec = fs"
proof -
  have "find (\<lambda>c. holds G outb c rq fs) (map (compile_rule G home) (pf_rules default_policy)) =
      Some (compile_rule G home (pf_rules default_policy ! 4))" for outb
    using assms by (simp add: default_holds [OF assms(2)] default_outside)
  moreover have "d_action (rule_decision (pf_rules default_policy ! 4) fs) = AAsk \<and>
      d_rule (rule_decision (pf_rules default_policy ! 4) fs) = Some ''tool_description_changed'' \<and>
      d_findings (rule_decision (pf_rules default_policy ! 4) fs) = fs"
    by (simp add: rule_decision_def default_policy_def numeral_eq_Suc)
  ultimately show ?thesis
    by (simp add: default_evaluate [OF assms(1)] compile_rule_def)
qed

text \<open>
  The shipped policy stops exfiltration: a call of an outbound tool whose arguments carry data
  recently read from the machine is denied by \<open>taint_exfil\<close>, provided none of the three rules above
  it speaks first: no argument is a secrets path, none looks like a credential, none leaves the
  project.
\<close>

theorem default_denies_exfiltration:
  assumes "collect_findings rq = Returned fs" and "build_globs G home SECRET_PATHS = Some sp"
    and "build_globs G home (pf_outbound default_policy) = Some ob"
    and "rq_tainted rq = Some l" and "rq_tool rq = Some t" and "set_match G ob (to_ascii_lowercase t)"
    and "\<forall>x \<in> set (rq_paths rq). \<not> set_match G sp x" and "\<forall>k x. Secret k x \<notin> set fs"
    and "\<not> has_path_outside_scope rq"
  shows "evaluate G (compile_policy G home default_policy path mtime) rq =
    Returned \<lparr>d_action = ADeny, d_rule = Some ''taint_exfil'', d_severity = Critical,
      d_message = ''tainted local data in an outbound argument'', d_findings = fs\<rparr>"
  using assms by (rule exfiltration_denied)

theorem default_denies_exfiltration_witness:
  "evaluate \<lparr>glob_new = Some, set_build = Some, set_match = (\<lambda>s x. x \<in> set s)\<rparr> (compile_policy \<lparr>glob_new = Some, set_build = Some, set_match = (\<lambda>s x. x \<in> set s)\<rparr> ''/home/me'' default_policy None None)
     \<lparr>rq_method = ''tools/call'', rq_tool = Some ''WebFetch'', rq_paths = [], rq_values = [''hello''], rq_tainted = Some ''notes.txt'', rq_drifted = False, rq_scope_key = [], rq_scope_paths = []\<rparr> =
    Returned \<lparr>d_action = ADeny, d_rule = Some ''taint_exfil'', d_severity = Critical,
      d_message = ''tainted local data in an outbound argument'', d_findings = [Tainted ''notes.txt'']\<rparr>"
proof (rule default_denies_exfiltration)
  show "collect_findings \<lparr>rq_method = ''tools/call'', rq_tool = Some ''WebFetch'', rq_paths = [], rq_values = [''hello''], rq_tainted = Some ''notes.txt'', rq_drifted = False, rq_scope_key = [], rq_scope_paths = []\<rparr> = Returned [Tainted ''notes.txt'']" by code_simp
  show "build_globs \<lparr>glob_new = Some, set_build = Some, set_match = (\<lambda>s x. x \<in> set s)\<rparr> ''/home/me'' SECRET_PATHS = Some (concat (map (globs_of \<lparr>glob_new = Some, set_build = Some, set_match = (\<lambda>s x. x \<in> set s)\<rparr> ''/home/me'') SECRET_PATHS))"
    by (simp add: build_globs_def SECRET_PATHS_def default_policy_def)
  show "build_globs \<lparr>glob_new = Some, set_build = Some, set_match = (\<lambda>s x. x \<in> set s)\<rparr> ''/home/me'' (pf_outbound default_policy) =
      Some (concat (map (globs_of \<lparr>glob_new = Some, set_build = Some, set_match = (\<lambda>s x. x \<in> set s)\<rparr> ''/home/me'') (pf_outbound default_policy)))"
    by (simp add: build_globs_def default_policy_def)
  show "set_match \<lparr>glob_new = Some, set_build = Some, set_match = (\<lambda>s x. x \<in> set s)\<rparr> (concat (map (globs_of \<lparr>glob_new = Some, set_build = Some, set_match = (\<lambda>s x. x \<in> set s)\<rparr> ''/home/me'') (pf_outbound default_policy)))
      (to_ascii_lowercase ''WebFetch'')"
    by code_simp
qed (simp_all add: has_path_outside_scope_def)

text \<open>
  At rest nothing is asked: under the shipped policy a call with no secrets path, no
  credential, no path outside the project, no tainted data and no drift is allowed.
\<close>

theorem ordinary_traffic_is_allowed:
  assumes "collect_findings rq = Returned fs" and "build_globs G home SECRET_PATHS = Some sp"
    and "rq_tainted rq = None" and "\<not> rq_drifted rq"
    and "\<forall>x \<in> set (rq_paths rq). \<not> set_match G sp x" and "\<forall>k x. Secret k x \<notin> set fs"
    and "\<not> has_path_outside_scope rq"
  shows "\<exists>d. evaluate G (compile_policy G home default_policy path mtime) rq = Returned d \<and>
    d_action d = AAllow \<and> d_rule d = None"
  using assms by (simp add: default_evaluate [OF assms(1)] default_holds [OF assms(2)] default_outside)

theorem ordinary_traffic_is_allowed_witness:
  "\<exists>d. evaluate \<lparr>glob_new = Some, set_build = Some, set_match = (\<lambda>s x. x \<in> set s)\<rparr> (compile_policy \<lparr>glob_new = Some, set_build = Some, set_match = (\<lambda>s x. x \<in> set s)\<rparr> ''/home/me'' default_policy None None) \<lparr>rq_method = ''tools/call'', rq_tool = Some ''read_file'', rq_paths = [''/proj/a.txt''], rq_values = [''/proj/a.txt''], rq_tainted = None, rq_drifted = False, rq_scope_key = [], rq_scope_paths = []\<rparr> = Returned d \<and>
    d_action d = AAllow \<and> d_rule d = None"
proof (rule ordinary_traffic_is_allowed)
  show "collect_findings \<lparr>rq_method = ''tools/call'', rq_tool = Some ''read_file'', rq_paths = [''/proj/a.txt''], rq_values = [''/proj/a.txt''], rq_tainted = None, rq_drifted = False, rq_scope_key = [], rq_scope_paths = []\<rparr> = Returned []" by code_simp
  show "build_globs \<lparr>glob_new = Some, set_build = Some, set_match = (\<lambda>s x. x \<in> set s)\<rparr> ''/home/me'' SECRET_PATHS = Some (concat (map (globs_of \<lparr>glob_new = Some, set_build = Some, set_match = (\<lambda>s x. x \<in> set s)\<rparr> ''/home/me'') SECRET_PATHS))"
    by (simp add: build_globs_def SECRET_PATHS_def default_policy_def)
  show "\<forall>x \<in> set (rq_paths \<lparr>rq_method = ''tools/call'', rq_tool = Some ''read_file'', rq_paths = [''/proj/a.txt''], rq_values = [''/proj/a.txt''], rq_tainted = None, rq_drifted = False, rq_scope_key = [], rq_scope_paths = []\<rparr>). \<not> set_match \<lparr>glob_new = Some, set_build = Some, set_match = (\<lambda>s x. x \<in> set s)\<rparr> (concat (map (globs_of \<lparr>glob_new = Some, set_build = Some, set_match = (\<lambda>s x. x \<in> set s)\<rparr> ''/home/me'') SECRET_PATHS)) x"
    by code_simp
qed (simp_all add: has_path_outside_scope_def)

text \<open>
  A tainted credential on its way out is asked about, not denied: as soon as an argument looks
  like a credential, the earlier rule \<open>secret_pattern\<close> answers, whatever the taint store recognised
  and whichever tool is called.
\<close>

theorem tainted_credential_is_only_asked:
  assumes "collect_findings rq = Returned fs" and "build_globs G home SECRET_PATHS = Some sp"
    and "\<forall>x \<in> set (rq_paths rq). \<not> set_match G sp x" and "Secret k x \<in> set fs"
  shows "\<exists>d. evaluate G (compile_policy G home default_policy path mtime) rq = Returned d \<and>
    d_action d = AAsk \<and> d_rule d = Some ''secret_pattern''"
proof -
  have "find (\<lambda>c. holds G (build_globs G home (pf_outbound default_policy)) c rq fs)
      (map (compile_rule G home) (pf_rules default_policy)) =
      Some (compile_rule G home (pf_rules default_policy ! 1))"
    using assms(3,4) by (auto simp: default_holds [OF assms(2)])
  moreover have "rule_decision (pf_rules default_policy ! 1) fs =
      \<lparr>d_action = AAsk, d_rule = Some ''secret_pattern'', d_severity = High,
        d_message = ''an argument looks like a secret credential'', d_findings = fs\<rparr>"
    by (simp add: rule_decision_def default_policy_def)
  ultimately show ?thesis
    by (simp add: default_evaluate [OF assms(1)] compile_rule_def)
qed

theorem tainted_credential_is_only_asked_witness:
  "\<exists>d. evaluate \<lparr>glob_new = Some, set_build = Some, set_match = (\<lambda>s x. x \<in> set s)\<rparr> (compile_policy \<lparr>glob_new = Some, set_build = Some, set_match = (\<lambda>s x. x \<in> set s)\<rparr> ''/home/me'' default_policy None None) \<lparr>rq_method = ''tools/call'', rq_tool = Some ''webfetch'', rq_paths = [], rq_values = [''sk-0123456789abcdefghij''], rq_tainted = Some ''.env'', rq_drifted = False, rq_scope_key = [], rq_scope_paths = []\<rparr> = Returned d \<and>
    d_action d = AAsk \<and> d_rule d = Some ''secret_pattern''"
proof (rule tainted_credential_is_only_asked)
  show "collect_findings \<lparr>rq_method = ''tools/call'', rq_tool = Some ''webfetch'', rq_paths = [], rq_values = [''sk-0123456789abcdefghij''], rq_tainted = Some ''.env'', rq_drifted = False, rq_scope_key = [], rq_scope_paths = []\<rparr> = Returned [Secret ''API key'' ''sk-012'', Tainted ''.env'']" by code_simp
  show "build_globs \<lparr>glob_new = Some, set_build = Some, set_match = (\<lambda>s x. x \<in> set s)\<rparr> ''/home/me'' SECRET_PATHS = Some (concat (map (globs_of \<lparr>glob_new = Some, set_build = Some, set_match = (\<lambda>s x. x \<in> set s)\<rparr> ''/home/me'') SECRET_PATHS))"
    by (simp add: build_globs_def SECRET_PATHS_def default_policy_def)
qed simp_all

lemma append_example:
  "append_override (\<lambda>_. Some (JObject [])) (Some ''# mine'') ''cwd:/p'' ''post'' True =
     Some (''# mine'' @ [NL] @ ''overrides:'' @ [NL] @ override_entry ''cwd:/p'' ''post'' True)"
  by code_simp

theorem append_keeps_the_text_witness:
  "parse_policy (\<lambda>_. Some (JObject [])) (''# mine'' @ [NL] @ ''overrides:'' @ [NL] @ override_entry ''cwd:/p'' ''post'' True) \<noteq> None \<and>
    suffix (override_entry ''cwd:/p'' ''post'' True)
      (''# mine'' @ [NL] @ ''overrides:'' @ [NL] @ override_entry ''cwd:/p'' ''post'' True)"
  using append_keeps_the_text [OF append_example] by blast

end
