(* ===== verification/Journal.thy ===== *)
theory Journal
  imports Prelude
begin

text \<open>
  \<open>journal/mod.rs\<close>, \<open>writer.rs\<close>, \<open>query.rs\<close> and \<open>schema.rs\<close>: the two channels, the writer task and
  what is read back.  SQLite tables are lists of rows in the order of their rowid; of SQLite the
  model has what the schema and the statements rely on: rowids that grow, transactions that write
  all or nothing, foreign keys that are enforced, \<open>COALESCE\<close> and upserts.  Whether the disk lets
  a transaction commit is an argument.
\<close>

section \<open>Rows and messages\<close>

definition VOLUME_CAPACITY :: nat where "VOLUME_CAPACITY = 4096"
definition BATCH_MAX :: nat where "BATCH_MAX = 256"

record entry =
  e_ts :: int
  e_session :: int
  e_direction :: bytes
  e_method :: "bytes option"
  e_disposition :: bytes
  e_verdict :: "bytes option"
  e_rule :: "bytes option"
  e_preview :: "bytes option"
  e_bytes :: int

definition entry_now :: "int \<Rightarrow> int \<Rightarrow> bytes \<Rightarrow> bytes \<Rightarrow> entry" where
  "entry_now ts sid dir disp = \<lparr>e_ts = ts, e_session = sid, e_direction = dir, e_method = None,
     e_disposition = disp, e_verdict = None, e_rule = None, e_preview = None, e_bytes = 0\<rparr>"

definition is_decision :: "entry \<Rightarrow> bool" where
  "is_decision e \<longleftrightarrow> e_verdict e = Some ''deny'' \<or> e_verdict e = Some ''ask'' \<or> e_rule e \<noteq> None"

record session_row =
  s_started :: int
  s_server_name :: "bytes option"
  s_server_version :: "bytes option"
  s_client_name :: "bytes option"
  s_client_version :: "bytes option"
  s_protocol_version :: "bytes option"
  s_scope_key :: bytes
  s_scope_source :: bytes
  s_command :: bytes

text \<open>A reply channel is named by a number.\<close>

datatype msg =
  MEntry entry | MSession session_row nat | MUpdateSession int session_row | MFlush nat

section \<open>The database\<close>

record tool_row =
  t_sha :: bytes
  t_first_seen :: int
  t_last_seen :: int

record db =
  db_sessions :: "(int \<times> session_row) list"
  db_entries :: "(int \<times> entry) list"
  db_tools :: "((bytes \<times> bytes) \<times> tool_row) list"

definition next_rowid :: "(int \<times> 'a) list \<Rightarrow> int" where
  "next_rowid rows = (if rows = [] then 1 else Max (set (map fst rows)) + 1)"

definition insert_entry :: "db \<Rightarrow> entry \<Rightarrow> db" where
  "insert_entry d e = d\<lparr>db_entries := db_entries d @ [(next_rowid (db_entries d), e)]\<rparr>"

text \<open>The batch of \<open>flush_pending\<close>: one transaction, so one row with an unknown session loses all.\<close>

definition foreign_key_ok :: "db \<Rightarrow> entry \<Rightarrow> bool" where
  "foreign_key_ok d e \<longleftrightarrow> e_session e \<in> fst ` set (db_sessions d)"

definition flush_pending :: "bool \<Rightarrow> entry list \<Rightarrow> db \<Rightarrow> db" where
  "flush_pending io_ok pending d =
     (if pending = [] then d
      else if io_ok \<and> list_all (foreign_key_ok d) pending then foldl insert_entry d pending else d)"

definition insert_session :: "bool \<Rightarrow> session_row \<Rightarrow> db \<Rightarrow> int \<times> db" where
  "insert_session io_ok row d =
     (if io_ok
      then (let i = next_rowid (db_sessions d) in (i, d\<lparr>db_sessions := db_sessions d @ [(i, row)]\<rparr>))
      else (0, d))"

definition coalesce :: "'a option \<Rightarrow> 'a option \<Rightarrow> 'a option" where
  "coalesce new old = (case new of Some x \<Rightarrow> Some x | None \<Rightarrow> old)"

definition merge_session :: "session_row \<Rightarrow> session_row \<Rightarrow> session_row" where
  "merge_session row old = old\<lparr>
     s_server_name := coalesce (s_server_name row) (s_server_name old),
     s_server_version := coalesce (s_server_version row) (s_server_version old),
     s_client_name := coalesce (s_client_name row) (s_client_name old),
     s_client_version := coalesce (s_client_version row) (s_client_version old),
     s_protocol_version := coalesce (s_protocol_version row) (s_protocol_version old),
     s_scope_key := s_scope_key row, s_scope_source := s_scope_source row\<rparr>"

definition update_session_row :: "bool \<Rightarrow> int \<Rightarrow> session_row \<Rightarrow> db \<Rightarrow> db" where
  "update_session_row io_ok i row d =
     (if io_ok
      then d\<lparr>db_sessions := map (\<lambda>(j, old). (j, if j = i then merge_session row old else old)) (db_sessions d)\<rparr>
      else d)"

section \<open>The channels and the writer task\<close>

record journal =
  j_volume :: "msg list"
  j_decisions :: "msg list"
  j_dropped :: nat
  j_pending :: "entry list"
  j_db :: db
  j_replies :: "(nat \<times> int option) list"

definition journal_start :: "db \<Rightarrow> journal" where
  "journal_start d = \<lparr>j_volume = [], j_decisions = [], j_dropped = 0, j_pending = [], j_db = d, j_replies = []\<rparr>"

definition log :: "entry \<Rightarrow> journal \<Rightarrow> journal" where
  "log e j =
     (if is_decision e then j\<lparr>j_decisions := j_decisions j @ [MEntry e]\<rparr>
      else if length (j_volume j) < VOLUME_CAPACITY then j\<lparr>j_volume := j_volume j @ [MEntry e]\<rparr>
      else j\<lparr>j_dropped := j_dropped j + 1\<rparr>)"

definition open_session :: "session_row \<Rightarrow> nat \<Rightarrow> journal \<Rightarrow> journal" where
  "open_session row k j = j\<lparr>j_decisions := j_decisions j @ [MSession row k]\<rparr>"

definition update_session :: "int \<Rightarrow> session_row \<Rightarrow> journal \<Rightarrow> journal" where
  "update_session i row j = j\<lparr>j_decisions := j_decisions j @ [MUpdateSession i row]\<rparr>"

definition flush_request :: "nat \<Rightarrow> journal \<Rightarrow> journal" where
  "flush_request k j = j\<lparr>j_decisions := j_decisions j @ [MFlush k]\<rparr>"

definition flush :: "bool \<Rightarrow> journal \<Rightarrow> journal" where
  "flush io_ok j = j\<lparr>j_db := flush_pending io_ok (j_pending j) (j_db j), j_pending := []\<rparr>"

text \<open>The body of the loop for one received message.\<close>

fun on_msg :: "bool \<Rightarrow> msg \<Rightarrow> journal \<Rightarrow> journal" where
  "on_msg io_ok (MEntry e) j =
     (let j' = j\<lparr>j_pending := j_pending j @ [e]\<rparr> in
      if is_decision e \<or> BATCH_MAX \<le> length (j_pending j') then flush io_ok j' else j')"
| "on_msg io_ok (MSession row k) j =
     (let j' = flush io_ok j; (i, d) = insert_session io_ok row (j_db j') in
      j'\<lparr>j_db := d, j_replies := j_replies j' @ [(k, Some i)]\<rparr>)"
| "on_msg io_ok (MUpdateSession i row) j =
     (let j' = flush io_ok j in j'\<lparr>j_db := update_session_row io_ok i row (j_db j')\<rparr>)"
| "on_msg io_ok (MFlush k) j =
     (let j' = flush io_ok j in j'\<lparr>j_replies := j_replies j' @ [(k, None)]\<rparr>)"

text \<open>
  One step of the system: a shim task submits something, or the writer's biased \<open>select!\<close> takes a
  decision, else a volume message, else the tick.  The \<open>bool\<close> says whether the disk obliges.
  The \<open>else\<close> branch that would end the loop is for the case that every other branch is disabled; the
  tick never is, so closed channels only leave the tick.
\<close>

datatype event = ELog entry | EOpen session_row nat | EUpdate int session_row | EFlush nat | EWriter bool

fun writer_turn :: "bool \<Rightarrow> journal \<Rightarrow> journal" where
  "writer_turn io_ok j =
     (case j_decisions j of
        m # ms \<Rightarrow> on_msg io_ok m (j\<lparr>j_decisions := ms\<rparr>)
      | [] \<Rightarrow> (case j_volume j of
          m # ms \<Rightarrow> on_msg io_ok m (j\<lparr>j_volume := ms\<rparr>)
        | [] \<Rightarrow> flush io_ok j))"

fun journal_step :: "event \<Rightarrow> journal \<Rightarrow> journal" where
  "journal_step (ELog e) j = log e j"
| "journal_step (EOpen row k) j = open_session row k j"
| "journal_step (EUpdate i row) j = update_session i row j"
| "journal_step (EFlush k) j = flush_request k j"
| "journal_step (EWriter io_ok) j = writer_turn io_ok j"

definition journal_run :: "event list \<Rightarrow> journal \<Rightarrow> journal" where
  "journal_run evs j = fold journal_step evs j"

section \<open>Reading back\<close>

record log_line =
  l_ts :: int
  l_direction :: bytes
  l_method :: "bytes option"
  l_disposition :: bytes
  l_verdict :: "bytes option"
  l_rule :: "bytes option"
  l_server :: "bytes option"
  l_scope_key :: bytes
  l_scope_source :: bytes
  l_bytes :: int

definition join_session :: "db \<Rightarrow> int \<times> entry \<Rightarrow> (int \<times> log_line) option" where
  "join_session d ie =
     (case ie of (i, e) \<Rightarrow>
        (case map_of (db_sessions d) (e_session e) of
           None \<Rightarrow> None
         | Some s \<Rightarrow> Some (i, \<lparr>l_ts = e_ts e, l_direction = e_direction e, l_method = e_method e,
             l_disposition = e_disposition e, l_verdict = e_verdict e, l_rule = e_rule e,
             l_server = s_server_name s, l_scope_key = s_scope_key s, l_scope_source = s_scope_source s,
             l_bytes = e_bytes e\<rparr>)))"

text \<open>\<open>ORDER BY e.id DESC LIMIT ?2\<close>, reversed; a negative limit is no limit.\<close>

definition tail :: "db \<Rightarrow> int \<Rightarrow> int \<Rightarrow> (int \<times> log_line) list" where
  "tail d limit since =
     (let rows = List.map_filter (join_session d) (filter (\<lambda>(i, e). since < i) (db_entries d));
          newest = rev (sort_key fst rows)
      in rev (if limit < 0 then newest else take (nat limit) newest))"

definition today_counters :: "db option \<Rightarrow> int \<Rightarrow> int \<times> int \<times> int" where
  "today_counters d now =
     (case d of
        None \<Rightarrow> (0, 0, 0)
      | Some d \<Rightarrow>
          (let since = now - 24 * 3600 * 1000 in
           (int (length (filter (\<lambda>(_, e). since \<le> e_ts e) (db_entries d))),
            int (length (filter (\<lambda>(_, e). since \<le> e_ts e \<and> e_verdict e = Some ''deny'') (db_entries d))),
            int (length (filter (\<lambda>(_, s). since \<le> s_started s) (db_sessions d))))))"

record stats =
  st_sessions :: int
  st_entries :: int
  st_denied :: int
  st_asked :: int

definition count_verdict :: "bytes \<Rightarrow> db \<Rightarrow> int" where
  "count_verdict v d = int (length (filter (\<lambda>(_, e). e_verdict e = Some v) (db_entries d)))"

definition stats_of :: "db \<Rightarrow> stats" where
  "stats_of d = \<lparr>st_sessions = int (length (db_sessions d)), st_entries = int (length (db_entries d)),
     st_denied = count_verdict ''deny'' d, st_asked = count_verdict ''ask'' d\<rparr>"

section \<open>Tool descriptions\<close>

definition upsert_tool :: "int \<Rightarrow> bytes \<times> bytes \<Rightarrow> bytes \<Rightarrow> db \<Rightarrow> db" where
  "upsert_tool now k sha d =
     d\<lparr>db_tools := (case map_of (db_tools d) k of
         Some row \<Rightarrow> AList.update k (row\<lparr>t_sha := sha, t_last_seen := now\<rparr>) (db_tools d)
       | None \<Rightarrow> db_tools d @ [(k, \<lparr>t_sha = sha, t_first_seen = now, t_last_seen = now\<rparr>)])\<rparr>"

fun record_loop :: "int \<Rightarrow> bytes \<Rightarrow> (bytes \<times> bytes) list \<Rightarrow> bytes list \<Rightarrow> db \<Rightarrow> bytes list \<times> db" where
  "record_loop now server [] drifted d = (drifted, d)"
| "record_loop now server ((tool, sha) # tools) drifted d =
     (let drifted' = (case map_of (db_tools d) (server, tool) of
            Some old \<Rightarrow> if t_sha old \<noteq> sha then drifted @ [tool] else drifted
          | None \<Rightarrow> drifted)
      in record_loop now server tools drifted' (upsert_tool now (server, tool) sha d))"

text \<open>The database cannot always be opened or written; then nothing is recorded and an error returned.\<close>

definition record_descriptions ::
  "bool \<Rightarrow> int \<Rightarrow> bytes \<Rightarrow> (bytes \<times> bytes) list \<Rightarrow> db \<Rightarrow> bytes list option \<times> db" where
  "record_descriptions io_ok now server tools d =
     (if tools = [] then (Some [], d)
      else if \<not> io_ok then (None, d)
      else (let (drifted, d') = record_loop now server tools [] d in (Some drifted, d')))"

section \<open>What is submitted is written, dropped and counted, or still on its way\<close>

definition written :: "journal \<Rightarrow> entry list" where
  "written j = map snd (db_entries (j_db j))"

fun entry_of :: "msg \<Rightarrow> entry option" where
  "entry_of (MEntry e) = Some e"
| "entry_of _ = None"

fun logged_by :: "event \<Rightarrow> entry option" where
  "logged_by (ELog e) = Some e"
| "logged_by _ = None"

definition submitted :: "event list \<Rightarrow> entry list" where
  "submitted evs = List.map_filter logged_by evs"

definition known_session :: "journal \<Rightarrow> entry \<Rightarrow> bool" where
  "known_session j e \<longleftrightarrow> foreign_key_ok (j_db j) e"

definition queued :: "journal \<Rightarrow> entry list" where
  "queued j = List.map_filter entry_of (j_decisions j)"

text \<open>The parts of the state that a batch on its way consists of.\<close>

definition tidy :: "journal \<Rightarrow> bool" where
  "tidy j \<longleftrightarrow>
     (\<forall>m \<in> set (j_volume j). \<exists>e. m = MEntry e \<and> \<not> is_decision e \<and> known_session j e) \<and>
     (\<forall>e \<in> set (j_pending j). \<not> is_decision e \<and> known_session j e) \<and>
     (\<forall>e \<in> set (queued j). is_decision e \<and> known_session j e) \<and>
     length (j_pending j) < BATCH_MAX \<and> length (j_volume j) \<le> VOLUME_CAPACITY"

definition volume_count :: "journal \<Rightarrow> nat" where
  "volume_count j = length (filter (\<lambda>e. \<not> is_decision e) (written j)) + length (j_pending j) +
     length (j_volume j) + j_dropped j"

definition decision_trail :: "journal \<Rightarrow> entry list" where
  "decision_trail j = filter is_decision (written j) @ queued j"

lemma foldl_insert_entry:
  "map snd (db_entries (foldl insert_entry d es)) = map snd (db_entries d) @ es"
  "db_sessions (foldl insert_entry d es) = db_sessions d"
  by (induction es arbitrary: d) (simp_all add: insert_entry_def)

lemma flush_written:
  assumes "\<forall>e \<in> set (j_pending j). known_session j e"
  shows "written (flush True j) = written j @ j_pending j"
    and "db_sessions (j_db (flush True j)) = db_sessions (j_db j)"
    and "j_pending (flush True j) = []" and "j_volume (flush True j) = j_volume j"
    and "j_decisions (flush True j) = j_decisions j" and "j_dropped (flush True j) = j_dropped j"
  using assms by (simp_all add: flush_def flush_pending_def written_def foldl_insert_entry list_all_iff known_session_def)

lemma tidy_flush:
  assumes "tidy j"
  shows "tidy (flush True j)" and "volume_count (flush True j) = volume_count j"
    and "decision_trail (flush True j) = decision_trail j"
proof -
  note fw = flush_written [of j]
  have p: "\<forall>e \<in> set (j_pending j). known_session j e" "filter is_decision (j_pending j) = []"
    "filter (\<lambda>e. \<not> is_decision e) (j_pending j) = j_pending j"
    using assms by (auto simp: tidy_def filter_empty_conv filter_id_conv)
  show "tidy (flush True j)"
    using assms by (simp add: tidy_def fw [OF p(1)] queued_def known_session_def foreign_key_ok_def BATCH_MAX_def)
  show "volume_count (flush True j) = volume_count j"
    by (simp add: volume_count_def fw [OF p(1)] p)
  show "decision_trail (flush True j) = decision_trail j"
    by (simp add: decision_trail_def fw [OF p(1)] p queued_def)
qed

text \<open>Taking a message off its channel and processing it.\<close>

lemma on_msg_entry:
  assumes "tidy j" "known_session j e"
  shows "tidy (on_msg True (MEntry e) j)"
    and "volume_count (on_msg True (MEntry e) j) = volume_count j + (if is_decision e then 0 else 1)"
    and "decision_trail (on_msg True (MEntry e) j) =
      filter is_decision (written j) @ (if is_decision e then [e] else []) @ queued j"
    and "db_sessions (j_db (on_msg True (MEntry e) j)) = db_sessions (j_db j)"
proof -
  let ?j = "j\<lparr>j_pending := j_pending j @ [e]\<rparr>"
  have p: "\<forall>x \<in> set (j_pending ?j). known_session ?j x" "filter is_decision (j_pending j) = []"
    "filter (\<lambda>e. \<not> is_decision e) (j_pending j) = j_pending j"
    using assms by (auto simp: tidy_def filter_empty_conv filter_id_conv known_session_def)
  note fw = flush_written [OF p(1)]
  have w: "written ?j = written j" "queued ?j = queued j" by (simp_all add: written_def queued_def)
  show "db_sessions (j_db (on_msg True (MEntry e) j)) = db_sessions (j_db j)"
    by (simp add: Let_def fw)
  show "tidy (on_msg True (MEntry e) j)"
    using assms by (auto simp: Let_def tidy_def fw queued_def known_session_def foreign_key_ok_def BATCH_MAX_def)
  show "volume_count (on_msg True (MEntry e) j) = volume_count j + (if is_decision e then 0 else 1)"
    by (simp add: Let_def volume_count_def fw w p)
  show "decision_trail (on_msg True (MEntry e) j) =
      filter is_decision (written j) @ (if is_decision e then [e] else []) @ queued j"
    using p w by (auto simp: Let_def decision_trail_def fw queued_def)
qed

lemma grow:
  assumes "tidy j" "fst ` set (db_sessions (j_db j)) \<subseteq> fst ` set (db_sessions d)" "db_entries d = db_entries (j_db j)"
  shows "tidy (j\<lparr>j_db := d, j_replies := r\<rparr>)" and "volume_count (j\<lparr>j_db := d, j_replies := r\<rparr>) = volume_count j"
    and "decision_trail (j\<lparr>j_db := d, j_replies := r\<rparr>) = decision_trail j"
proof -
  have k: "known_session j e \<Longrightarrow> known_session (j\<lparr>j_db := d, j_replies := r\<rparr>) e" for e
    using assms(2) by (auto simp: known_session_def foreign_key_ok_def)
  show "tidy (j\<lparr>j_db := d, j_replies := r\<rparr>)"
    unfolding tidy_def
  proof (intro conjI ballI)
    fix m assume "m \<in> set (j_volume (j\<lparr>j_db := d, j_replies := r\<rparr>))"
    then obtain e where "m = MEntry e" "\<not> is_decision e" "known_session j e"
      using assms(1) by (auto simp: tidy_def)
    then show "\<exists>e. m = MEntry e \<and> \<not> is_decision e \<and> known_session (j\<lparr>j_db := d, j_replies := r\<rparr>) e"
      using k by blast
  next
    fix e assume "e \<in> set (j_pending (j\<lparr>j_db := d, j_replies := r\<rparr>))"
    then have "\<not> is_decision e \<and> known_session j e" using assms(1) by (simp add: tidy_def)
    then show "\<not> is_decision e" "known_session (j\<lparr>j_db := d, j_replies := r\<rparr>) e" by (simp_all add: k)
  next
    fix e assume "e \<in> set (queued (j\<lparr>j_db := d, j_replies := r\<rparr>))"
    then have "is_decision e \<and> known_session j e" using assms(1) by (simp add: tidy_def queued_def)
    then show "is_decision e" "known_session (j\<lparr>j_db := d, j_replies := r\<rparr>) e" by (simp_all add: k)
  next
    show "length (j_pending (j\<lparr>j_db := d, j_replies := r\<rparr>)) < BATCH_MAX"
      and "length (j_volume (j\<lparr>j_db := d, j_replies := r\<rparr>)) \<le> VOLUME_CAPACITY"
      using assms(1) by (simp_all add: tidy_def)
  qed
qed (simp_all add: assms(3) volume_count_def decision_trail_def written_def queued_def)

definition kept_by :: "journal \<Rightarrow> journal \<Rightarrow> bool" where
  "kept_by j j' \<longleftrightarrow> tidy j' \<and> volume_count j' = volume_count j \<and> decision_trail j' = decision_trail j \<and>
     fst ` set (db_sessions (j_db j)) \<subseteq> fst ` set (db_sessions (j_db j'))"

lemma kept_flush: "tidy j \<Longrightarrow> kept_by j (flush True j)"
proof -
  assume t: "tidy j"
  then have "\<forall>e \<in> set (j_pending j). known_session j e" by (simp add: tidy_def)
  then have "db_sessions (j_db (flush True j)) = db_sessions (j_db j)" by (rule flush_written(2))
  then show ?thesis using tidy_flush [OF t] by (simp add: kept_by_def)
qed

lemma kept_grow:
  assumes "tidy j" "fst ` set (db_sessions (j_db j)) \<subseteq> fst ` set (db_sessions d)" "db_entries d = db_entries (j_db j)"
  shows "kept_by j (j\<lparr>j_db := d, j_replies := r\<rparr>)"
  using grow [OF assms] assms(2) by (simp add: kept_by_def)

lemma kept_trans: "kept_by i j \<Longrightarrow> kept_by j k \<Longrightarrow> kept_by i k"
  by (auto simp: kept_by_def)

lemma on_other_msg:
  assumes "tidy j" "entry_of m = None"
  shows "kept_by j (on_msg True m j)"
proof -
  let ?f = "flush True j"
  have f: "tidy ?f" "kept_by j ?f" using tidy_flush [OF assms(1)] kept_flush [OF assms(1)] by auto
  show ?thesis
  proof (cases m)
    case (MSession row k)
    have "kept_by ?f (on_msg True m j)"
      unfolding MSession by (simp add: Let_def insert_session_def split_def) (rule kept_grow [OF f(1)]; auto)
    with f(2) show ?thesis by (rule kept_trans)
  next
    case (MUpdateSession i row)
    have "on_msg True m j = ?f\<lparr>j_db := update_session_row True i row (j_db ?f), j_replies := j_replies ?f\<rparr>"
      by (simp add: MUpdateSession Let_def)
    moreover have "kept_by ?f \<dots>"
      by (rule kept_grow [OF f(1)]) (auto simp: update_session_row_def split_def image_image)
    ultimately show ?thesis using kept_trans [OF f(2)] by simp
  next
    case (MFlush k)
    have "on_msg True m j = ?f\<lparr>j_db := j_db ?f, j_replies := j_replies ?f @ [(k, None)]\<rparr>"
      by (simp add: MFlush Let_def)
    moreover have "kept_by ?f \<dots>" by (rule kept_grow [OF f(1)]) simp_all
    ultimately show ?thesis using kept_trans [OF f(2)] by simp
  qed (use assms(2) in simp)
qed

lemma writer_turn_keeps:
  assumes "tidy j"
  shows "kept_by j (writer_turn True j)"
proof (cases "j_decisions j")
  case (Cons m ms)
  let ?j = "j\<lparr>j_decisions := ms\<rparr>"
  have t: "tidy ?j"
    using assms Cons by (auto simp: tidy_def queued_def map_filter_Cons known_session_def split: option.splits)
  show ?thesis
  proof (cases "entry_of m")
    case None
    then have "queued ?j = queued j" using Cons by (simp add: queued_def map_filter_Cons)
    then show ?thesis
      using on_other_msg [OF t None] Cons
      by (simp add: kept_by_def volume_count_def [of ?j] volume_count_def [of j] decision_trail_def [of ?j]
          decision_trail_def [of j] written_def)
  next
    case (Some e)
    then have m: "m = MEntry e" by (cases m) auto
    then have e: "is_decision e" "known_session ?j e" "queued j = e # queued ?j"
      using assms Cons by (auto simp: tidy_def queued_def map_filter_Cons known_session_def)
    then show ?thesis
      using on_msg_entry [OF t e(2)] Cons m
      by (simp add: kept_by_def volume_count_def [of ?j] volume_count_def [of j] decision_trail_def [of j] written_def
          del: on_msg.simps)
  qed
next
  case Nil
  show ?thesis
  proof (cases "j_volume j")
    case Nil
    then show ?thesis using kept_flush [OF assms] \<open>j_decisions j = []\<close> by simp
  next
    case (Cons m ms)
    let ?j = "j\<lparr>j_volume := ms\<rparr>"
    obtain e where e: "m = MEntry e" "\<not> is_decision e" "known_session ?j e"
      using assms Cons by (auto simp: tidy_def known_session_def)
    have t: "tidy ?j" using assms Cons by (auto simp: tidy_def queued_def known_session_def)
    show ?thesis
      using on_msg_entry [OF t e(3)] Cons e \<open>j_decisions j = []\<close>
      by (simp add: kept_by_def volume_count_def [of ?j] volume_count_def [of j] decision_trail_def [of j] written_def
          queued_def del: on_msg.simps)
  qed
qed

lemma log_step:
  assumes "tidy j" "known_session j e"
  shows "tidy (log e j)" and "j_db (log e j) = j_db j"
    and "volume_count (log e j) = volume_count j + (if is_decision e then 0 else 1)"
    and "decision_trail (log e j) = decision_trail j @ (if is_decision e then [e] else [])"
  using assms
  by (auto simp: log_def tidy_def volume_count_def decision_trail_def written_def queued_def known_session_def
      map_filter_append map_filter_Cons List.map_filter_def)

lemma enqueue_step:
  assumes "tidy j" "entry_of m = None"
  shows "kept_by j (j\<lparr>j_decisions := j_decisions j @ [m]\<rparr>)"
proof -
  have "queued (j\<lparr>j_decisions := j_decisions j @ [m]\<rparr>) = queued j"
    using assms(2) by (simp add: queued_def map_filter_append map_filter_Cons)
  then show ?thesis using assms(1)
    by (simp add: kept_by_def tidy_def volume_count_def decision_trail_def written_def known_session_def)
qed

lemma submitted_snoc: "submitted (evs @ [ev]) = submitted evs @ (case logged_by ev of Some e \<Rightarrow> [e] | None \<Rightarrow> [])"
  by (simp add: submitted_def map_filter_append map_filter_Cons split: option.split)

lemma run_invariant:
  assumes "EWriter False \<notin> set evs" and "\<forall>e \<in> set (submitted evs). foreign_key_ok d e"
  shows "tidy (journal_run evs (journal_start d)) \<and>
    fst ` set (db_sessions d) \<subseteq> fst ` set (db_sessions (j_db (journal_run evs (journal_start d)))) \<and>
    decision_trail (journal_run evs (journal_start d)) =
      filter is_decision (map snd (db_entries d)) @ filter is_decision (submitted evs) \<and>
    volume_count (journal_run evs (journal_start d)) =
      length (filter (\<lambda>e. \<not> is_decision e) (map snd (db_entries d))) +
      length (filter (\<lambda>e. \<not> is_decision e) (submitted evs))"
  using assms
proof (induction evs rule: rev_induct)
  case Nil
  then show ?case
    by (simp add: journal_run_def journal_start_def tidy_def decision_trail_def volume_count_def written_def
        queued_def submitted_def List.map_filter_def BATCH_MAX_def)
next
  case (snoc ev evs)
  let ?j = "journal_run evs (journal_start d)"
  have run: "journal_run (evs @ [ev]) (journal_start d) = journal_step ev ?j"
    by (simp add: journal_run_def)
  have ih: "tidy ?j" "fst ` set (db_sessions d) \<subseteq> fst ` set (db_sessions (j_db ?j))"
    "decision_trail ?j = filter is_decision (map snd (db_entries d)) @ filter is_decision (submitted evs)"
    "volume_count ?j = length (filter (\<lambda>e. \<not> is_decision e) (map snd (db_entries d))) +
      length (filter (\<lambda>e. \<not> is_decision e) (submitted evs))"
    using snoc by (simp_all add: submitted_snoc)
  show ?case
  proof (cases "logged_by ev")
    case None
    have "kept_by ?j (journal_step ev ?j)"
      using None enqueue_step [OF ih(1)] writer_turn_keeps [OF ih(1)] snoc.prems(1)
      by (cases ev) (auto simp: open_session_def update_session_def flush_request_def simp del: writer_turn.simps)
    then show ?thesis using ih None unfolding run submitted_snoc by (auto simp: kept_by_def)
  next
    case (Some e)
    then have ev: "ev = ELog e" by (cases ev) auto
    have "known_session ?j e"
      using ih(2) snoc.prems(2) Some by (auto simp: submitted_snoc known_session_def foreign_key_ok_def)
    from log_step [OF ih(1) this] show ?thesis
      using ih by (simp add: run submitted_snoc ev [symmetric] Some) (simp add: ev)
  qed
qed

text \<open>
  C18: the journal loses no decision and miscounts no loss: after any interleaving of submissions and
  turns of the writer in which the disk obliges and every entry has a recorded session, the
  decisions in the database followed by those still in their channel are exactly the decisions
  submitted, in order and once each; and every other entry submitted is written, waiting in the
  batch or the channel, or counted as dropped.  A batch holds fewer than 256 waiting entries.
\<close>

theorem journal_accounts_for_everything:
  assumes "EWriter False \<notin> set evs" and "\<forall>e \<in> set (submitted evs). foreign_key_ok d e"
    and "j = journal_run evs (journal_start d)"
  shows "filter is_decision (map snd (db_entries (j_db j))) @ List.map_filter entry_of (j_decisions j) =
      filter is_decision (map snd (db_entries d)) @ filter is_decision (submitted evs) \<and>
    length (filter (\<lambda>e. \<not> is_decision e) (map snd (db_entries (j_db j)))) + length (j_pending j) +
      length (j_volume j) + j_dropped j =
      length (filter (\<lambda>e. \<not> is_decision e) (map snd (db_entries d))) +
      length (filter (\<lambda>e. \<not> is_decision e) (submitted evs)) \<and>
    length (j_pending j) < BATCH_MAX \<and> length (j_volume j) \<le> VOLUME_CAPACITY"
  using run_invariant [OF assms(1,2)] unfolding assms(3)
  by (simp add: decision_trail_def volume_count_def written_def queued_def tidy_def)

theorem journal_accounts_for_everything_witness:
  "filter is_decision (map snd (db_entries (j_db (journal_run [ELog \<lparr>e_ts = 1, e_session = 1, e_direction = ''to_server'', e_method = None, e_disposition = ''decide'', e_verdict = None, e_rule = None, e_preview = None, e_bytes = 0\<rparr>, ELog \<lparr>e_ts = 1, e_session = 1, e_direction = ''to_server'', e_method = None, e_disposition = ''decide'', e_verdict = Some ''deny'', e_rule = None, e_preview = None, e_bytes = 0\<rparr>, EWriter True, EWriter True]
     (journal_start \<lparr>db_sessions = [(1, \<lparr>s_started = 0, s_server_name = None, s_server_version = None, s_client_name = None, s_client_version = None, s_protocol_version = None, s_scope_key = [], s_scope_source = [], s_command = []\<rparr>)], db_entries = [], db_tools = []\<rparr>))))) = [\<lparr>e_ts = 1, e_session = 1, e_direction = ''to_server'', e_method = None, e_disposition = ''decide'', e_verdict = Some ''deny'', e_rule = None, e_preview = None, e_bytes = 0\<rparr>]"
proof -
  let ?d = "\<lparr>db_sessions = [(1, \<lparr>s_started = 0, s_server_name = None, s_server_version = None, s_client_name = None, s_client_version = None, s_protocol_version = None, s_scope_key = [], s_scope_source = [], s_command = []\<rparr>)], db_entries = [], db_tools = []\<rparr>"
  let ?evs = "[ELog \<lparr>e_ts = 1, e_session = 1, e_direction = ''to_server'', e_method = None, e_disposition = ''decide'', e_verdict = None, e_rule = None, e_preview = None, e_bytes = 0\<rparr>, ELog \<lparr>e_ts = 1, e_session = 1, e_direction = ''to_server'', e_method = None, e_disposition = ''decide'', e_verdict = Some ''deny'', e_rule = None, e_preview = None, e_bytes = 0\<rparr>, EWriter True, EWriter True]"
  have "\<forall>e \<in> set (submitted ?evs). foreign_key_ok ?d e"
    by (simp add: submitted_def List.map_filter_def foreign_key_ok_def)
  moreover have "List.map_filter entry_of (j_decisions (journal_run ?evs (journal_start ?d))) = []"
    by (simp add: journal_run_def journal_start_def log_def is_decision_def flush_def flush_pending_def
        VOLUME_CAPACITY_def BATCH_MAX_def Let_def List.map_filter_def)
  ultimately show ?thesis
    using journal_accounts_for_everything [of ?evs ?d "journal_run ?evs (journal_start ?d)"]
    by (simp add: submitted_def List.map_filter_def is_decision_def)
qed

text \<open>
  \<open>flush\<close> does not wait for everything submitted: it travels on the decisions channel, which the
  writer empties first, so the answer comes while an allowed call submitted before is still in the
  volume channel and not in the database.
\<close>

theorem flush_overtakes_volume:
  assumes "\<not> is_decision e" and "j = journal_run [ELog e, EFlush k, EWriter io_ok] (journal_start d)"
  shows "(k, None) \<in> set (j_replies j) \<and> j_volume j = [MEntry e] \<and> db_entries (j_db j) = db_entries d"
  using assms
  by (simp add: journal_run_def journal_start_def log_def flush_request_def flush_def flush_pending_def
      VOLUME_CAPACITY_def Let_def)

theorem flush_overtakes_volume_witness:
  "(7, None) \<in> set (j_replies (journal_run [ELog \<lparr>e_ts = 1, e_session = 1, e_direction = ''to_server'', e_method = None, e_disposition = ''decide'', e_verdict = None, e_rule = None, e_preview = None, e_bytes = 0\<rparr>, EFlush 7, EWriter True]
      (journal_start \<lparr>db_sessions = [(1, \<lparr>s_started = 0, s_server_name = None, s_server_version = None, s_client_name = None, s_client_version = None, s_protocol_version = None, s_scope_key = [], s_scope_source = [], s_command = []\<rparr>)], db_entries = [], db_tools = []\<rparr>)))"
  using flush_overtakes_volume [of "\<lparr>e_ts = 1, e_session = 1, e_direction = ''to_server'', e_method = None, e_disposition = ''decide'', e_verdict = None, e_rule = None, e_preview = None, e_bytes = 0\<rparr>" _ 7 True "\<lparr>db_sessions = [(1, \<lparr>s_started = 0, s_server_name = None, s_server_version = None, s_client_name = None, s_client_version = None, s_protocol_version = None, s_scope_key = [], s_scope_source = [], s_command = []\<rparr>)], db_entries = [], db_tools = []\<rparr>", OF _ refl]
  by (simp add: is_decision_def)

section \<open>Drift is reported once\<close>

definition drifted_in :: "db \<Rightarrow> bytes \<Rightarrow> bytes \<times> bytes \<Rightarrow> bool" where
  "drifted_in d server ts \<longleftrightarrow>
     (case map_of (db_tools d) (server, fst ts) of Some row \<Rightarrow> t_sha row \<noteq> snd ts | None \<Rightarrow> False)"

lemma upsert_lookup:
  "map_option t_sha (map_of (db_tools (upsert_tool now k sha d)) k') =
     (if k' = k then Some sha else map_option t_sha (map_of (db_tools d) k'))"
  by (auto simp: upsert_tool_def update_conv' map_add_def split: option.splits)

lemma record_loop_spec:
  assumes "distinct (map fst tools)"
  shows "fst (record_loop now server tools acc d) = acc @ map fst (filter (drifted_in d server) tools) \<and>
    (\<forall>k. map_option t_sha (map_of (db_tools (snd (record_loop now server tools acc d))) k) =
       (case (if fst k = server then map_of tools (snd k) else None) of
          Some sha \<Rightarrow> Some sha | None \<Rightarrow> map_option t_sha (map_of (db_tools d) k)))"
  using assms
proof (induction tools arbitrary: acc d)
  case (Cons ts tools)
  obtain tool sha where ts: "ts = (tool, sha)" by (cases ts)
  let ?d = "upsert_tool now (server, tool) sha d"
  let ?acc = "if drifted_in d server ts then acc @ [tool] else acc"
  have step: "record_loop now server (ts # tools) acc d = record_loop now server tools ?acc ?d"
    by (simp add: ts drifted_in_def Let_def split: option.split)
  have "drifted_in ?d server x = drifted_in d server x" if "x \<in> set tools" for x
  proof -
    have "fst x \<noteq> tool" using that Cons.prems by (auto simp: ts)
    then have "map_option t_sha (map_of (db_tools ?d) (server, fst x)) = map_option t_sha (map_of (db_tools d) (server, fst x))"
      by (simp add: upsert_lookup)
    then show ?thesis by (auto simp: drifted_in_def split: option.splits)
  qed
  then have flt: "filter (drifted_in ?d server) tools = filter (drifted_in d server) tools"
    by (rule filter_cong [OF refl])
  have notin: "map_of tools tool = None" using Cons.prems by (simp add: ts map_of_eq_None_iff)
  note ih = Cons.IH [of ?acc ?d]
  have "fst (record_loop now server tools ?acc ?d) = acc @ map fst (filter (drifted_in d server) (ts # tools))"
    using ih Cons.prems by (simp add: flt ts)
  moreover have "map_option t_sha (map_of (db_tools (snd (record_loop now server tools ?acc ?d))) k) =
       (case (if fst k = server then map_of (ts # tools) (snd k) else None) of
          Some sha \<Rightarrow> Some sha | None \<Rightarrow> map_option t_sha (map_of (db_tools d) k))" for k
    using ih Cons.prems notin by (cases k) (auto simp: ts upsert_lookup split: option.split)
  ultimately show ?case unfolding step by blast
qed simp

text \<open>
  A changed advertisement is reported exactly once: for a report that names each tool once,
  the tools returned are exactly those seen before with another hash, in order; a tool seen for the
  first time is not among them; afterwards the same report returns nothing, and no tool of another
  server or outside the report has changed its hash.
\<close>

theorem drift_is_reported_once:
  assumes "distinct (map fst tools)" and "record_descriptions True now server tools d = (r, d')"
  shows "r = Some (map fst (filter (drifted_in d server) tools)) \<and>
    fst (record_descriptions True now' server tools d') = Some [] \<and>
    (if server' = server \<and> t \<in> fst ` set tools then True
     else map_option t_sha (map_of (db_tools d') (server', t)) = map_option t_sha (map_of (db_tools d) (server', t)))"
proof (cases "tools = []")
  case True
  then show ?thesis using assms(2) by (auto simp: record_descriptions_def)
next
  case False
  then have r: "r = Some (fst (record_loop now server tools [] d))" "d' = snd (record_loop now server tools [] d)"
    using assms(2) by (auto simp: record_descriptions_def split_def Let_def)
  note spec = record_loop_spec [OF assms(1), of now server "[]" d, folded r(2)]
  have hash: "map_option t_sha (map_of (db_tools d') (server', t)) =
      (case (if server' = server then map_of tools t else None) of
         Some sha \<Rightarrow> Some sha | None \<Rightarrow> map_option t_sha (map_of (db_tools d) (server', t)))" for server' t
    using spec by simp
  have "\<not> drifted_in d' server ts" if "ts \<in> set tools" for ts
  proof -
    have "map_of tools (fst ts) = Some (snd ts)"
      using that assms(1) by (simp add: map_of_is_SomeI)
    then have "map_option t_sha (map_of (db_tools d') (server, fst ts)) = Some (snd ts)"
      using hash [of server "fst ts"] by simp
    then show ?thesis by (auto simp: drifted_in_def)
  qed
  then have "fst (record_descriptions True now' server tools d') = Some []"
    using record_loop_spec [OF assms(1), of now' server "[]" d'] False
    by (simp add: record_descriptions_def split_def Let_def filter_empty_conv)
  moreover have "if server' = server \<and> t \<in> fst ` set tools then True
     else map_option t_sha (map_of (db_tools d') (server', t)) = map_option t_sha (map_of (db_tools d) (server', t))"
    using hash [of server' t] by (auto simp: map_of_eq_None_iff [symmetric] split: option.splits)
  ultimately show ?thesis using r(1) spec by simp
qed

theorem drift_is_reported_once_witness:
  "fst (record_descriptions True 5 ''pg'' [(''query'', ''h2''), (''ping'', ''h1'')]
     \<lparr>db_sessions = [], db_entries = [],
      db_tools = [((''pg'', ''query''), \<lparr>t_sha = ''h1'', t_first_seen = 1, t_last_seen = 1\<rparr>)]\<rparr>) = Some [''query'']"
proof -
  let ?d = "\<lparr>db_sessions = [], db_entries = [],
      db_tools = [((''pg'', ''query''), \<lparr>t_sha = ''h1'', t_first_seen = 1, t_last_seen = 1\<rparr>)]\<rparr>"
  obtain r d' where rd: "record_descriptions True 5 ''pg'' [(''query'', ''h2''), (''ping'', ''h1'')] ?d = (r, d')"
    by fastforce
  have "filter (drifted_in ?d ''pg'') [(''query'', ''h2''), (''ping'', ''h1'')] = [(''query'', ''h2'')]"
    by (simp add: drifted_in_def)
  then show ?thesis
    using drift_is_reported_once [OF _ rd] by (simp add: rd)
qed

end
