(* ===== verification/Daemon.thy ===== *)
theory Daemon
  imports Policy Taint Journal Ipc
begin

text \<open>
  \<open>daemon/mod.rs\<close> and \<open>daemon/decide.rs\<close>: the daemon's state, each piece of the handlers between two
  awaits as one function, and the system of concurrent calls as a step relation over them.
\<close>

section \<open>State\<close>

text \<open>The third-party code the daemon calls, in one record.\<close>

record ('g, 's) libs =
  lib_globs :: "('g, 's) glob_lib"
  lib_home :: bytes
  lib_yaml :: parser
  lib_parse :: parser
  lib_render :: printer

record session_override =
  so_scope :: bytes
  so_tool :: bytes
  so_allow :: bool

definition so_matches :: "session_override \<Rightarrow> bytes \<Rightarrow> bytes option \<Rightarrow> bool" where
  "so_matches ov sk tool \<longleftrightarrow> so_scope ov = sk \<and> Some (so_tool ov) = tool"

text \<open>\<open>dm_drifted\<close> maps a server to the list of its drifted tools, read as a set.\<close>

record 's daemon =
  dm_policy :: "'s policy"
  dm_policy_path :: "bytes option"
  dm_overrides :: "session_override list"
  dm_pending :: "nat list"
  dm_subscribers :: nat
  dm_next_prompt :: nat
  dm_taint :: taint_store
  dm_drifted :: "(bytes \<times> bytes list) list"
  dm_db :: db
  dm_disk :: disk

definition daemon_new :: "'s policy \<Rightarrow> bytes option \<Rightarrow> db \<Rightarrow> disk \<Rightarrow> 's daemon" where
  "daemon_new p path d dsk =
     \<lparr>dm_policy = p, dm_policy_path = path, dm_overrides = [], dm_pending = [], dm_subscribers = 0,
      dm_next_prompt = 1, dm_taint = taint_new, dm_drifted = [], dm_db = d, dm_disk = dsk\<rparr>"

definition UNNAMED_SERVER :: bytes where "UNNAMED_SERVER = ''(unnamed)''"

definition server_key :: "bytes option \<Rightarrow> bytes" where
  "server_key s = (case s of Some n \<Rightarrow> n | None \<Rightarrow> UNNAMED_SERVER)"

definition drifted_tools :: "'s daemon \<Rightarrow> bytes \<Rightarrow> bytes list" where
  "drifted_tools d server = (case map_of (dm_drifted d) server of Some ts \<Rightarrow> ts | None \<Rightarrow> [])"

definition drift_remove :: "bytes \<Rightarrow> bytes \<Rightarrow> 's daemon \<Rightarrow> 's daemon" where
  "drift_remove server tool d =
     (case map_of (dm_drifted d) server of
        None \<Rightarrow> d
      | Some ts \<Rightarrow> d\<lparr>dm_drifted := AList.update server (removeAll tool ts) (dm_drifted d)\<rparr>)"

definition drift_extend :: "bytes \<Rightarrow> bytes list \<Rightarrow> 's daemon \<Rightarrow> 's daemon" where
  "drift_extend server ts d =
     d\<lparr>dm_drifted := AList.update server (drifted_tools d server @ ts) (dm_drifted d)\<rparr>"

section \<open>Deciding\<close>

definition parse_source :: "bytes \<Rightarrow> scope_source" where
  "parse_source s =
     (if s = ''injected'' then Injected else if s = ''roots'' then Roots
      else if s = ''cwd'' then Cwd else Unknown)"

definition request_scope :: "decide_request \<Rightarrow> scope" where
  "request_scope q = scope_new (parse_source (dq_scope_source q)) (dq_scope_paths q)"

text \<open>The request as the engine sees it: extracted from the frame, then completed by the daemon.\<close>

definition engine_request :: "('g, 's) libs \<Rightarrow> 's daemon \<Rightarrow> nat \<Rightarrow> decide_request \<Rightarrow> request" where
  "engine_request L d now q =
     (let rq = request_from_frame (lib_parse L) (dq_method q) (dq_frame q) (request_scope q) [] in
      rq\<lparr>rq_scope_key := dq_scope_key q,
         rq_tainted := (if store_is_empty (dm_taint d) then None
           else map_option m_origin (overlap (dm_taint d) (fingerprint_of (join_with '' '' (rq_values rq))) now)),
         rq_drifted := (case rq_tool rq of
             Some t \<Rightarrow> t \<in> set (drifted_tools d (server_key (dq_server q)))
           | None \<Rightarrow> False)\<rparr>)"

text \<open>
  The first block of \<open>decide\<close>, under the policy lock: reload, extract, evaluate, consume the drift.
  Its value is the decision, the tool and the ask timeout; or a panic, which ends the connection's
  task before the drift is consumed.
\<close>

definition judge ::
  "('g, 's) libs \<Rightarrow> nat \<Rightarrow> decide_request \<Rightarrow> 's daemon \<Rightarrow> (decision \<times> bytes option \<times> nat) outcome \<times> 's daemon" where
  "judge L now q d =
     (let p = snd (reload_if_changed (lib_globs L) (lib_home L) (lib_yaml L) (dm_disk d) (dm_policy d));
          d1 = d\<lparr>dm_policy := p\<rparr>;
          rq = engine_request L d1 now q
      in case evaluate (lib_globs L) p rq of
           Panicked \<Rightarrow> (Panicked, d1)
         | Returned dec \<Rightarrow>
             (Returned (dec, rq_tool rq, pf_ask_timeout (p_file p)),
              (case rq_tool rq of
                 Some t \<Rightarrow> if rq_drifted rq then drift_remove (server_key (dq_server q)) t d1 else d1
               | None \<Rightarrow> d1)))"

definition matching_override :: "bytes \<Rightarrow> bytes option \<Rightarrow> 's daemon \<Rightarrow> bool option" where
  "matching_override sk tool d = map_option so_allow (find (\<lambda>ov. so_matches ov sk tool) (dm_overrides d))"

definition respond :: "ipc_outcome \<Rightarrow> bytes option \<Rightarrow> bytes \<Rightarrow> bool \<Rightarrow> decide_response" where
  "respond out rule msg fv = \<lparr>dr_outcome = out, dr_rule = rule, dr_message = msg, dr_forever = fv\<rparr>"

text \<open>The second half: a recorded override first, then the action; \<open>None\<close> is the call of \<open>ask\<close>.\<close>

definition settle ::
  "decide_request \<Rightarrow> decision \<Rightarrow> bytes option \<Rightarrow> 's daemon \<Rightarrow> decide_response option" where
  "settle q dec tool d =
     (let fv = allows_forever (request_scope q) in
      case matching_override (dq_scope_key q) tool d of
        Some allow \<Rightarrow> Some (respond (if allow then OAllow else ODeny) (Some ''override'')
                        ''decision recorded for this project'' fv)
      | None \<Rightarrow>
          (case d_action dec of
             AAllow \<Rightarrow> Some (respond OAllow (d_rule dec) (d_message dec) fv)
           | ADeny \<Rightarrow> Some (respond ODeny (d_rule dec) (agent_message dec) fv)
           | AAsk \<Rightarrow> None))"

section \<open>Asking\<close>

definition deny_ask :: "decide_request \<Rightarrow> decision \<Rightarrow> bytes \<Rightarrow> decide_response" where
  "deny_ask q dec why =
     respond ODeny (d_rule dec) (agent_message dec @ '' ('' @ why @ '')'') (allows_forever (request_scope q))"

definition EM_DASH :: bytes where "EM_DASH = [CHR 0xE2, CHR 0x80, CHR 0x94]"

definition NO_INTERFACE :: bytes where
  "NO_INTERFACE = ''no interface to confirm with '' @ EM_DASH @ '' start the mcpwall application''"

text \<open>A readable excerpt of the arguments.\<close>

definition preview :: "parser \<Rightarrow> printer \<Rightarrow> bytes \<Rightarrow> bytes" where
  "preview parse render frame =
     (case parse frame of
        None \<Rightarrow> take_chars 400 frame
      | Some v \<Rightarrow>
          take_chars 400
            (case jget ''params'' v of
               None \<Rightarrow> []
             | Some p \<Rightarrow> (case jget ''arguments'' p of Some a \<Rightarrow> render a | None \<Rightarrow> render p)))"

fun severity_str :: "severity \<Rightarrow> bytes" where
  "severity_str Info = ''info''"
| "severity_str Low = ''low''"
| "severity_str Medium = ''medium''"
| "severity_str High = ''high''"
| "severity_str Critical = ''critical''"

definition make_prompt :: "('g, 's) libs \<Rightarrow> nat \<Rightarrow> decide_request \<Rightarrow> decision \<Rightarrow> bytes option \<Rightarrow> nat \<Rightarrow> prompt" where
  "make_prompt L i q dec tool timeout =
     \<lparr>pr_id = i, pr_method = dq_method q, pr_tool = tool, pr_server = dq_server q,
      pr_preview = preview (lib_parse L) (lib_render L) (dq_frame q), pr_rule = d_rule dec,
      pr_severity = severity_str (d_severity dec), pr_message = d_message dec,
      pr_findings = map describe (d_findings dec), pr_scope_key = dq_scope_key q,
      pr_scope_source = dq_scope_source q, pr_forever = allows_forever (request_scope q),
      pr_timeout = timeout\<rparr>"

text \<open>A fresh prompt id (an \<open>AtomicU64\<close>, which wraps) and its entry among the pending ones.\<close>

definition open_prompt :: "'s daemon \<Rightarrow> nat \<times> 's daemon" where
  "open_prompt d =
     (let i = dm_next_prompt d in
      (i, d\<lparr>dm_next_prompt := (i + 1) mod 2 ^ 64,
            dm_pending := (if i \<in> set (dm_pending d) then dm_pending d else dm_pending d @ [i])\<rparr>))"

definition close_prompt :: "nat \<Rightarrow> 's daemon \<Rightarrow> 's daemon" where
  "close_prompt i d = d\<lparr>dm_pending := removeAll i (dm_pending d)\<rparr>"

text \<open>\<open>forever\<close> is refused on a scope whose provenance does not warrant it.\<close>

definition granted_until :: "decide_request \<Rightarrow> answer \<Rightarrow> ipc_until" where
  "granted_until q a =
     (if an_until a = UForever \<and> \<not> allows_forever (request_scope q) then USession else an_until a)"

text \<open>
  \<open>record_override\<close>.  The policy file changes on disk where the append succeeds; the new
  modification time is an argument.
\<close>

definition persist ::
  "('g, 's) libs \<Rightarrow> nat option \<Rightarrow> bytes \<Rightarrow> bytes \<Rightarrow> bool \<Rightarrow> 's daemon \<Rightarrow> 's daemon" where
  "persist L mtime sk tool allow d =
     (case dm_policy_path d of
        None \<Rightarrow> d
      | Some path \<Rightarrow>
          (case append_override (lib_yaml L) (Option.bind (dm_disk d path) df_text) sk tool allow of
             None \<Rightarrow> d
           | Some new \<Rightarrow> d\<lparr>dm_disk := (dm_disk d)(path \<mapsto> \<lparr>df_text = Some new, df_mtime = mtime\<rparr>)\<rparr>))"

definition record_override ::
  "('g, 's) libs \<Rightarrow> nat option \<Rightarrow> bytes \<Rightarrow> bytes \<Rightarrow> bool \<Rightarrow> ipc_until \<Rightarrow> 's daemon \<Rightarrow> 's daemon" where
  "record_override L mtime sk tool allow un d =
     (let push = (\<lambda>d. d\<lparr>dm_overrides := dm_overrides d @ [\<lparr>so_scope = sk, so_tool = tool, so_allow = allow\<rparr>]\<rparr>) in
      case un of
        UOnce \<Rightarrow> d
      | USession \<Rightarrow> push d
      | UForever \<Rightarrow> persist L mtime sk tool allow (push d))"

definition conclude ::
  "('g, 's) libs \<Rightarrow> nat option \<Rightarrow> decide_request \<Rightarrow> decision \<Rightarrow> bytes option \<Rightarrow> answer \<Rightarrow> 's daemon
     \<Rightarrow> decide_response \<times> 's daemon" where
  "conclude L mtime q dec tool a d =
     ((if an_allow a then respond OAllow (d_rule dec) ''allowed by the user'' (allows_forever (request_scope q))
       else deny_ask q dec ''denied by the user''),
      (case tool of
         Some t \<Rightarrow> record_override L mtime (dq_scope_key q) t (an_allow a) (granted_until q a) d
       | None \<Rightarrow> d))"

section \<open>The other messages\<close>

definition take_taint :: "nat \<Rightarrow> taint_report \<Rightarrow> 's daemon \<Rightarrow> 's daemon" where
  "take_taint now r d =
     (let fp = \<lparr>ngrams = map word_of_nat (tn_ngrams r), tokens = map word_of_nat (tn_tokens r)\<rparr> in
      if fp_is_empty fp then d else d\<lparr>dm_taint := taint_record fp (tn_origin r) now (dm_taint d)\<rparr>)"

definition take_tools :: "bool \<Rightarrow> int \<Rightarrow> tools_report \<Rightarrow> 's daemon \<Rightarrow> 's daemon" where
  "take_tools io_ok now r d =
     (let (found, db') = record_descriptions io_ok now (tr_server r) (tr_tools r) (dm_db d);
          d' = d\<lparr>dm_db := db'\<rparr>
      in case found of
           Some changed \<Rightarrow> if changed = [] then d' else drift_extend (tr_server r) changed d'
         | None \<Rightarrow> d')"

definition daemon_status :: "bool \<Rightarrow> int \<Rightarrow> 's daemon \<Rightarrow> status" where
  "daemon_status readable now d =
     (let (c, b, s) = (if readable then today_counters (Some (dm_db d)) now else (0, 0, 0)) in
      \<lparr>su_calls = c, su_blocked = b, su_sessions = s, su_pending = int (length (dm_pending d)),
       su_dropped = 0,
       su_policy_path = (case dm_policy_path d of Some p \<Rightarrow> p | None \<Rightarrow> []),
       su_ui = 0 < dm_subscribers d\<rparr>)"

text \<open>The handshake: the daemon's hello is sent in any case, an incompatible peer is then left alone.\<close>

datatype greeting = Hangup | Greeted json bool

definition greet :: "('g, 's) libs \<Rightarrow> bytes \<Rightarrow> bytes option \<Rightarrow> 's daemon \<Rightarrow> greeting" where
  "greet L build first d =
     (case Option.bind (Option.bind first (lib_parse L)) dec_hello of
        None \<Rightarrow> Hangup
      | Some peer \<Rightarrow>
          Greeted (enc_hello ((hello_default build)\<lparr>h_ask_timeout := Some (pf_ask_timeout (p_file (dm_policy d)))\<rparr>))
            (compatible peer))"

text \<open>What a line of an established connection is: skipped when blank or unreadable.\<close>

definition read_line :: "('g, 's) libs \<Rightarrow> bytes \<Rightarrow> client_message option" where
  "read_line L line = (if trims_to_nothing line then None else Option.bind (lib_parse L line) dec_client)"

text \<open>What \<open>serve\<close> does with the path it is given, before it listens.\<close>

datatype bind = TooLong | AlreadyServed | RemoveThenBind | Bind

definition SUN_PATH_MAX :: nat where "SUN_PATH_MAX = 100"

definition prepare_socket :: "bytes \<Rightarrow> bool \<Rightarrow> bool \<Rightarrow> bind" where
  "prepare_socket path present answers =
     (if SUN_PATH_MAX < length path then TooLong
      else if present then (if answers then AlreadyServed else RemoveThenBind) else Bind)"

end
