(* ===== verification/Daemon_System.thy ===== *)
theory Daemon_System
  imports Daemon
begin

text \<open>
  The concurrent calls of \<open>daemon/decide.rs\<close>: each connection's task runs from one await to the next
  while the others, the interfaces and the user do as they please.  Where a task stands is its
  \<open>phase\<close>; a step takes one task through one piece of the code, or delivers a message.
\<close>

section \<open>Tasks and steps\<close>

datatype phase =
  Received decide_request
| Judged decide_request decision "bytes option"
| Asking decide_request decision "bytes option"
| Opening decide_request decision "bytes option"
| Waiting nat decide_request decision "bytes option"
| Answered answer decide_request decision "bytes option"
| Abandoned nat bytes decide_request decision "bytes option"
| Done decide_request decision "bytes option" decide_response
| Crashed

text \<open>\<open>sy_heard\<close> remembers the answers that reached a waiting call, with the call and its tool.\<close>

record 's system =
  sy_daemon :: "'s daemon"
  sy_tasks :: "nat \<Rightarrow> phase option"
  sy_heard :: "(answer \<times> decide_request \<times> bytes option) list"

definition at :: "nat \<Rightarrow> phase \<Rightarrow> 's daemon \<Rightarrow> 's system \<Rightarrow> 's system" where
  "at t ph d s = s\<lparr>sy_daemon := d, sy_tasks := (sy_tasks s)(t \<mapsto> ph)\<rparr>"

inductive sys_step :: "('g, 's) libs \<Rightarrow> 's system \<Rightarrow> 's system \<Rightarrow> bool" for L :: "('g, 's) libs" where
  arrives: "sy_tasks s t = None \<Longrightarrow> sys_step L s (at t (Received q) (sy_daemon s) s)"
| judged: "sy_tasks s t = Some (Received q) \<Longrightarrow> judge L now q (sy_daemon s) = (Returned (dec, tool, timeout), d) \<Longrightarrow>
    sys_step L s (at t (Judged q dec tool) d s)"
| panics: "sy_tasks s t = Some (Received q) \<Longrightarrow> judge L now q (sy_daemon s) = (Panicked, d) \<Longrightarrow>
    sys_step L s (at t Crashed d s)"
| settles: "sy_tasks s t = Some (Judged q dec tool) \<Longrightarrow> settle q dec tool (sy_daemon s) = Some r \<Longrightarrow>
    sys_step L s (at t (Done q dec tool r) (sy_daemon s) s)"
| asks: "sy_tasks s t = Some (Judged q dec tool) \<Longrightarrow> settle q dec tool (sy_daemon s) = None \<Longrightarrow>
    sys_step L s (at t (Asking q dec tool) (sy_daemon s) s)"
| alone: "sy_tasks s t = Some (Asking q dec tool) \<Longrightarrow> dm_subscribers (sy_daemon s) = 0 \<Longrightarrow>
    sys_step L s (at t (Done q dec tool (deny_ask q dec NO_INTERFACE)) (sy_daemon s) s)"
| attended: "sy_tasks s t = Some (Asking q dec tool) \<Longrightarrow> 0 < dm_subscribers (sy_daemon s) \<Longrightarrow>
    sys_step L s (at t (Opening q dec tool) (sy_daemon s) s)"
| prompts: "sy_tasks s t = Some (Opening q dec tool) \<Longrightarrow> open_prompt (sy_daemon s) = (i, d) \<Longrightarrow>
    sys_step L s (at t (Waiting i q dec tool) d s)"
| unreachable: "sy_tasks s t = Some (Opening q dec tool) \<Longrightarrow> open_prompt (sy_daemon s) = (i, d) \<Longrightarrow>
    sys_step L s (at t (Abandoned i ''interface unreachable'' q dec tool) d s)"
| expires: "sy_tasks s t = Some (Waiting i q dec tool) \<Longrightarrow>
    sys_step L s (at t (Abandoned i ''confirmation timed out'' q dec tool) (sy_daemon s) s)"
| withdrawn: "sy_tasks s t = Some (Abandoned i why q dec tool) \<Longrightarrow>
    sys_step L s (at t (Done q dec tool (deny_ask q dec why)) (close_prompt i (sy_daemon s)) s)"
| answered: "sy_tasks s t = Some (Waiting (an_prompt a) q dec tool) \<Longrightarrow>
    an_prompt a \<in> set (dm_pending (sy_daemon s)) \<Longrightarrow>
    sys_step L s ((at t (Answered a q dec tool) (close_prompt (an_prompt a) (sy_daemon s)) s)
      \<lparr>sy_heard := sy_heard s @ [(a, q, tool)]\<rparr>)"
| unheard: "(\<And>t q dec tool. sy_tasks s t \<noteq> Some (Waiting (an_prompt (a :: answer)) q dec tool)) \<Longrightarrow>
    sys_step L s (s\<lparr>sy_daemon := close_prompt (an_prompt a) (sy_daemon s)\<rparr>)"
| concludes: "sy_tasks s t = Some (Answered a q dec tool) \<Longrightarrow> conclude L mtime q dec tool a (sy_daemon s) = (r, d) \<Longrightarrow>
    sys_step L s (at t (Done q dec tool r) d s)"
| subscribes: "sys_step L s (s\<lparr>sy_daemon := (sy_daemon s)\<lparr>dm_subscribers := dm_subscribers (sy_daemon s) + 1\<rparr>\<rparr>)"
| leaves: "sys_step L s (s\<lparr>sy_daemon := (sy_daemon s)\<lparr>dm_subscribers := dm_subscribers (sy_daemon s) - 1\<rparr>\<rparr>)"
| reports_read: "sys_step L s (s\<lparr>sy_daemon := take_taint now tr (sy_daemon s)\<rparr>)"
| reports_tools: "sys_step L s (s\<lparr>sy_daemon := take_tools io_ok ts tl' (sy_daemon s)\<rparr>)"
| journals: "sys_step L s (s\<lparr>sy_daemon := (sy_daemon s)\<lparr>dm_db := db'\<rparr>\<rparr>)"
| edits: "sys_step L s (s\<lparr>sy_daemon := (sy_daemon s)\<lparr>dm_disk := dsk\<rparr>\<rparr>)"

text \<open>A daemon that has just started: no override yet, no call, no answer.\<close>

definition fresh_system :: "'s daemon \<Rightarrow> 's system" where
  "fresh_system d = \<lparr>sy_daemon = d\<lparr>dm_overrides := []\<rparr>, sy_tasks = (\<lambda>t. None), sy_heard = []\<rparr>"

inductive reachable :: "('g, 's) libs \<Rightarrow> 's daemon \<Rightarrow> 's system \<Rightarrow> bool" for L :: "('g, 's) libs" and d :: "'s daemon" where
  start: "reachable L d (fresh_system d)"
| step: "reachable L d s \<Longrightarrow> sys_step L s s' \<Longrightarrow> reachable L d s'"

section \<open>The overrides a piece of code records\<close>

lemma overrides_kept [simp]:
  "dm_overrides (drift_remove sv t d) = dm_overrides d"
  "dm_overrides (close_prompt i d) = dm_overrides d"
  "dm_overrides (take_taint now tr d) = dm_overrides d"
  "dm_overrides (persist L mtime sk tl' al d) = dm_overrides d"
  "dm_overrides (drift_extend sv ts d) = dm_overrides d"
  by (simp_all add: drift_remove_def close_prompt_def take_taint_def persist_def drift_extend_def Let_def
      split: option.splits)

lemma overrides_tools [simp]: "dm_overrides (take_tools io_ok now tr d) = dm_overrides d"
  by (simp add: take_tools_def Let_def split: prod.split option.split)

lemma overrides_judge: "judge L now q d = (x, d') \<Longrightarrow> dm_overrides d' = dm_overrides d"
  by (auto simp: judge_def Let_def split: outcome.splits option.splits if_splits)

lemma overrides_open: "open_prompt d = (i, d') \<Longrightarrow> dm_overrides d' = dm_overrides d"
  by (auto simp: open_prompt_def Let_def)

text \<open>The override, if any, that an answer to a call leaves behind.\<close>

definition granted :: "answer \<Rightarrow> decide_request \<Rightarrow> bytes option \<Rightarrow> session_override list" where
  "granted a q tool =
     (case tool of
        Some t \<Rightarrow> if an_until a = UOnce then []
                  else [\<lparr>so_scope = dq_scope_key q, so_tool = t, so_allow = an_allow a\<rparr>]
      | None \<Rightarrow> [])"

lemma overrides_conclude:
  "conclude L mtime q dec tool a d = (r, d') \<Longrightarrow> dm_overrides d' = dm_overrides d @ granted a q tool"
  by (auto simp: conclude_def granted_def record_override_def granted_until_def Let_def
      split: option.splits ipc_until.splits if_splits)

section \<open>Why a call is allowed\<close>

text \<open>What may lie behind an allowed call.\<close>

definition cause :: "'s system \<Rightarrow> decide_request \<Rightarrow> decision \<Rightarrow> bytes option \<Rightarrow> bool" where
  "cause s q dec tool \<longleftrightarrow>
     d_action dec = AAllow \<or>
     (\<exists>ov \<in> set (dm_overrides (sy_daemon s)). so_matches ov (dq_scope_key q) tool \<and> so_allow ov) \<or>
     d_action dec = AAsk \<and> (\<exists>a. (a, q, tool) \<in> set (sy_heard s) \<and> an_allow a)"

fun phase_ok :: "'s system \<Rightarrow> phase \<Rightarrow> bool" where
  "phase_ok s (Asking q dec tool) \<longleftrightarrow> d_action dec = AAsk"
| "phase_ok s (Opening q dec tool) \<longleftrightarrow> d_action dec = AAsk"
| "phase_ok s (Waiting i q dec tool) \<longleftrightarrow> d_action dec = AAsk"
| "phase_ok s (Answered a q dec tool) \<longleftrightarrow> d_action dec = AAsk \<and> (a, q, tool) \<in> set (sy_heard s)"
| "phase_ok s (Done q dec tool r) \<longleftrightarrow> (dr_outcome r = OAllow \<longrightarrow> cause s q dec tool)"
| "phase_ok s _ \<longleftrightarrow> True"

definition sound :: "'s system \<Rightarrow> bool" where
  "sound s \<longleftrightarrow>
     (\<forall>t ph. sy_tasks s t = Some ph \<longrightarrow> phase_ok s ph) \<and>
     (\<forall>ov \<in> set (dm_overrides (sy_daemon s)). \<exists>a q tool. (a, q, tool) \<in> set (sy_heard s) \<and> ov \<in> set (granted a q tool))"

text \<open>The facts about a phase stay true while overrides and answers accumulate.\<close>

definition extends :: "'s system \<Rightarrow> 's system \<Rightarrow> bool" where
  "extends s s' \<longleftrightarrow> set (dm_overrides (sy_daemon s)) \<subseteq> set (dm_overrides (sy_daemon s')) \<and>
     set (sy_heard s) \<subseteq> set (sy_heard s')"

lemma phase_ok_mono: "extends s s' \<Longrightarrow> phase_ok s ph \<Longrightarrow> phase_ok s' ph"
  by (cases ph) (auto simp: extends_def cause_def)

lemma sound_at:
  assumes "sound s" "dm_overrides d = dm_overrides (sy_daemon s)"
    and "phase_ok (at t ph d s) ph"
  shows "sound (at t ph d s)"
proof -
  have e: "extends s (at t ph d s)" by (simp add: extends_def at_def assms(2))
  show ?thesis
    unfolding sound_def
  proof (intro conjI allI impI ballI)
    fix t' ph' assume "sy_tasks (at t ph d s) t' = Some ph'"
    then show "phase_ok (at t ph d s) ph'"
      using assms(1,3) phase_ok_mono [OF e] by (auto simp: sound_def at_def split: if_splits)
  next
    fix ov assume "ov \<in> set (dm_overrides (sy_daemon (at t ph d s)))"
    then show "\<exists>a q tool. (a, q, tool) \<in> set (sy_heard (at t ph d s)) \<and> ov \<in> set (granted a q tool)"
      using assms(1,2) by (simp add: sound_def at_def)
  qed
qed

lemma sound_quiet:
  assumes "sound s" "dm_overrides d = dm_overrides (sy_daemon s)"
  shows "sound (s\<lparr>sy_daemon := d\<rparr>)"
proof -
  have e: "extends s (s\<lparr>sy_daemon := d\<rparr>)" by (simp add: extends_def assms(2))
  show ?thesis using assms phase_ok_mono [OF e] by (simp add: sound_def)
qed

lemma settle_cause:
  assumes "settle q dec tool (sy_daemon s) = Some r" "dr_outcome r = OAllow"
  shows "cause s q dec tool"
proof (cases "matching_override (dq_scope_key q) tool (sy_daemon s)")
  case None
  then show ?thesis using assms by (auto simp: settle_def cause_def respond_def Let_def split: action.splits)
next
  case (Some allow)
  then obtain ov where "find (\<lambda>ov. so_matches ov (dq_scope_key q) tool) (dm_overrides (sy_daemon s)) = Some ov"
    "allow = so_allow ov" by (auto simp: matching_override_def)
  moreover have "allow" using assms Some by (auto simp: settle_def respond_def Let_def split: if_splits)
  moreover have "ov \<in> set (dm_overrides (sy_daemon s))" "so_matches ov (dq_scope_key q) tool"
    using calculation(1) by (auto simp: find_Some_iff)
  ultimately show ?thesis unfolding cause_def by blast
qed

lemma settle_asks: "settle q dec tool d = None \<Longrightarrow> d_action dec = AAsk"
  by (auto simp: settle_def Let_def split: option.splits action.splits)

lemma deny_ask_denies [simp]: "dr_outcome (deny_ask q dec why) = ODeny"
  by (simp add: deny_ask_def respond_def)

lemma phase_here: "sy_tasks s t = Some ph \<Longrightarrow> sound s \<Longrightarrow> phase_ok s ph"
  by (simp add: sound_def)

lemma sound_step:
  assumes "sys_step L s s'" "sound s"
  shows "sound s'"
  using assms
proof (induction rule: sys_step.induct)
  case (settles s t q dec tool r)
  let ?s = "at t (Done q dec tool r) (sy_daemon s) s"
  have "dr_outcome r = OAllow \<Longrightarrow> cause s q dec tool" using settle_cause [OF settles(2)] .
  moreover have "extends s ?s" by (simp add: extends_def at_def)
  ultimately have "dr_outcome r = OAllow \<Longrightarrow> cause ?s q dec tool"
    using phase_ok_mono [of s ?s "Done q dec tool r"] by simp
  then show ?case by (intro sound_at [OF settles(3)]) simp_all
next
  case (asks s t q dec tool)
  then show ?case by (intro sound_at) (simp_all add: settle_asks)
next
  case (answered s t a q dec tool)
  let ?s = "(at t (Answered a q dec tool) (close_prompt (an_prompt a) (sy_daemon s)) s)
      \<lparr>sy_heard := sy_heard s @ [(a, q, tool)]\<rparr>"
  have e: "extends s ?s" by (auto simp: extends_def at_def)
  have ask: "d_action dec = AAsk" using answered by (fastforce simp: sound_def)
  show ?case
    unfolding sound_def
  proof (intro conjI allI impI ballI)
    fix t' ph assume "sy_tasks ?s t' = Some ph"
    then show "phase_ok ?s ph"
      using answered(3) ask phase_ok_mono [OF e] by (auto simp: sound_def at_def split: if_splits)
  next
    fix ov assume "ov \<in> set (dm_overrides (sy_daemon ?s))"
    then show "\<exists>a q tool. (a, q, tool) \<in> set (sy_heard ?s) \<and> ov \<in> set (granted a q tool)"
      using answered(3) by (fastforce simp: sound_def at_def)
  qed
next
  case (concludes s t a q dec tool mtime r d)
  let ?s = "at t (Done q dec tool r) d s"
  have ph: "d_action dec = AAsk" "(a, q, tool) \<in> set (sy_heard s)"
    using concludes by (fastforce simp: sound_def)+
  have ov: "dm_overrides d = dm_overrides (sy_daemon s) @ granted a q tool"
    using overrides_conclude concludes by blast
  have e: "extends s ?s" by (auto simp: extends_def at_def ov)
  have r: "dr_outcome r = OAllow \<Longrightarrow> an_allow a"
    using concludes(2) by (auto simp: conclude_def respond_def split: if_splits)
  show ?case
    unfolding sound_def
  proof (intro conjI allI impI ballI)
    fix t' ph' assume "sy_tasks ?s t' = Some ph'"
    then show "phase_ok ?s ph'"
      using concludes(3) ph r phase_ok_mono [OF e] by (auto simp: sound_def at_def cause_def split: if_splits)
  next
    fix o' assume "o' \<in> set (dm_overrides (sy_daemon ?s))"
    then show "\<exists>a q tool. (a, q, tool) \<in> set (sy_heard ?s) \<and> o' \<in> set (granted a q tool)"
      using concludes(3) ph(2) by (auto simp: sound_def at_def ov)
  qed
qed (auto intro!: sound_at sound_quiet simp: overrides_judge overrides_open dest: phase_here)

lemma reachable_sound: "reachable L d s \<Longrightarrow> sound s"
proof (induction rule: reachable.induct)
  case start
  then show ?case by (simp add: sound_def fresh_system_def)
next
  case (step s s')
  then show ?case by (blast intro: sound_step)
qed

text \<open>What lies behind an allowed call comes from the policy or from an answer that was heard.\<close>

lemma cause_heard:
  assumes "sound s" and "cause s q dec tool"
  shows "d_action dec = AAllow \<or>
    (\<exists>a q'. (a, q', tool) \<in> set (sy_heard s) \<and> an_allow a \<and>
       (q' = q \<and> d_action dec = AAsk \<or> dq_scope_key q' = dq_scope_key q \<and> an_until a \<noteq> UOnce))"
proof -
  consider "d_action dec = AAllow"
    | ov where "ov \<in> set (dm_overrides (sy_daemon s))" "so_matches ov (dq_scope_key q) tool" "so_allow ov"
    | a where "d_action dec = AAsk" "(a, q, tool) \<in> set (sy_heard s)" "an_allow a"
    using assms(2) by (auto simp: cause_def)
  then show ?thesis
  proof cases
    case 2
    then obtain a q' tool' where h: "(a, q', tool') \<in> set (sy_heard s)" "ov \<in> set (granted a q' tool')"
      using assms(1) by (auto simp: sound_def)
    then have "tool' = tool" "an_allow a" "an_until a \<noteq> UOnce" "dq_scope_key q' = dq_scope_key q"
      using 2 by (auto simp: granted_def so_matches_def split: option.splits if_splits)
    then show ?thesis using h(1) by auto
  qed auto
qed

text \<open>
  C4: nothing is let through behind the user's back: in every reachable state of the daemon, whatever
  calls, answers, expiries, reloads and disconnections have interleaved, a call that was answered
  with \<open>allow\<close> was allowed by the policy itself, or because the user allowed this very call when the
  policy said to ask, or because the user allowed an earlier call of the same tool in the same scope
  for longer than once.  An ask that nobody answers is never an allow.
\<close>

theorem allowed_calls_have_a_cause:
  assumes "reachable L d s" and "sy_tasks s t = Some (Done q dec tool r)" and "dr_outcome r = OAllow"
  shows "d_action dec = AAllow \<or>
    (\<exists>a q'. (a, q', tool) \<in> set (sy_heard s) \<and> an_allow a \<and>
       (q' = q \<and> d_action dec = AAsk \<or> dq_scope_key q' = dq_scope_key q \<and> an_until a \<noteq> UOnce))"
proof -
  have snd: "sound s" using assms(1) by (rule reachable_sound)
  have "cause s q dec tool" using phase_here [OF assms(2) snd] assms(3) by simp
  then show ?thesis by (rule cause_heard [OF snd])
qed

text \<open>A small concrete daemon, for the instances below.\<close>

definition plain_libs :: "(bytes, bytes list) libs" where
  "plain_libs = \<lparr>lib_globs = \<lparr>glob_new = Some, set_build = Some, set_match = (\<lambda>s x. x \<in> set s)\<rparr>,
     lib_home = ''/home/me'', lib_yaml = (\<lambda>_. None), lib_parse = (\<lambda>_. None), lib_render = (\<lambda>_. [])\<rparr>"

definition plain_daemon :: "policy_file \<Rightarrow> bytes list daemon" where
  "plain_daemon file = daemon_new (compile_policy (lib_globs plain_libs) ''/home/me'' file None None) None
     \<lparr>db_sessions = [], db_entries = [], db_tools = []\<rparr> Map.empty"

definition plain_call :: decide_request where
  "plain_call = \<lparr>dq_method = ''tools/call'', dq_frame = ''{}'', dq_scope_key = ''cwd:/p'', dq_scope_source = ''cwd'',
     dq_scope_paths = [''/p''], dq_server = None, dq_session = 1\<rparr>"

lemma plain_judge:
  "judge plain_libs 0 plain_call (plain_daemon policy_file_default) =
     (Returned (\<lparr>d_action = AAllow, d_rule = None, d_severity = Info, d_message = ''default policy'',
        d_findings = []\<rparr>, None, 60), plain_daemon policy_file_default)"
  by (simp add: judge_def plain_daemon_def daemon_new_def compile_policy_def reload_if_changed_def Let_def
      plain_call_def plain_libs_def engine_request_def request_from_frame_def evaluate_def policy_file_default_def
      collect_findings_def store_is_empty_def store_len_def taint_new_def default_ask_timeout_def)

theorem allowed_calls_have_a_cause_witness:
  "\<exists>s. reachable plain_libs (plain_daemon policy_file_default) s \<and>
     (\<exists>dec r. sy_tasks s 1 = Some (Done plain_call dec None r) \<and> dr_outcome r = OAllow \<and>
       (d_action dec = AAllow \<or>
        (\<exists>a q'. (a, q', None) \<in> set (sy_heard s) \<and> an_allow a \<and>
          (q' = plain_call \<and> d_action dec = AAsk \<or> dq_scope_key q' = dq_scope_key plain_call \<and> an_until a \<noteq> UOnce))))"
proof -
  let ?d = "plain_daemon policy_file_default"
  let ?dec = "\<lparr>d_action = AAllow, d_rule = None, d_severity = Info, d_message = ''default policy'', d_findings = []\<rparr>"
  let ?s0 = "fresh_system ?d"
  let ?s1 = "at 1 (Received plain_call) ?d ?s0"
  let ?s2 = "at 1 (Judged plain_call ?dec None) ?d ?s1"
  let ?r = "respond OAllow None ''default policy'' (allows_forever (request_scope plain_call))"
  let ?s3 = "at 1 (Done plain_call ?dec None ?r) ?d ?s2"
  have d: "sy_daemon ?s0 = ?d" by (simp add: fresh_system_def plain_daemon_def daemon_new_def)
  have "sys_step plain_libs ?s0 (at 1 (Received plain_call) (sy_daemon ?s0) ?s0)"
    by (rule arrives) (simp add: fresh_system_def)
  then have r1: "reachable plain_libs ?d ?s1" unfolding d by (rule reachable.step [OF reachable.start])
  have "sys_step plain_libs ?s1 ?s2"
    by (rule judged [where now = 0]) (simp_all add: at_def plain_judge)
  then have r2: "reachable plain_libs ?d ?s2" by (rule reachable.step [OF r1])
  have "settle plain_call ?dec None (sy_daemon ?s2) = Some ?r"
    by (simp add: at_def settle_def matching_override_def plain_daemon_def daemon_new_def Let_def)
  then have "sys_step plain_libs ?s2 (at 1 (Done plain_call ?dec None ?r) (sy_daemon ?s2) ?s2)"
    by (intro settles) (simp_all add: at_def)
  then have "sys_step plain_libs ?s2 ?s3" by (simp add: at_def)
  then have r3: "reachable plain_libs ?d ?s3" by (rule reachable.step [OF r2])
  have fin: "sy_tasks ?s3 1 = Some (Done plain_call ?dec None ?r)" "dr_outcome ?r = OAllow"
    by (simp_all add: at_def respond_def)
  then show ?thesis using allowed_calls_have_a_cause [OF r3 fin] r3 fin by blast
qed

text \<open>
  C16: a permanent permission needs a trusted scope: the daemon writes to the policy file only when
  the user answered \<open>forever\<close> for a named tool and the scope came from an injected directory or from
  the client's roots; and then what it writes is the old text with one override appended.
\<close>

theorem permanent_only_on_trusted_scope:
  assumes "conclude L mtime q dec tool a d = (r, d')" and "dm_disk d' \<noteq> dm_disk d"
  shows "an_until a = UForever \<and> dq_scope_paths q \<noteq> [] \<and>
    dq_scope_source q \<in> {''injected'', ''roots''} \<and>
    (\<exists>t path new. tool = Some t \<and> dm_policy_path d = Some path \<and>
       append_override (lib_yaml L) (Option.bind (dm_disk d path) df_text) (dq_scope_key q) t (an_allow a) = Some new \<and>
       dm_disk d' = (dm_disk d)(path \<mapsto> \<lparr>df_text = Some new, df_mtime = mtime\<rparr>))"
proof -
  obtain t where t: "tool = Some t" using assms by (auto simp: conclude_def split: option.splits)
  have d': "d' = record_override L mtime (dq_scope_key q) t (an_allow a) (granted_until q a) d"
    using assms(1) t by (simp add: conclude_def)
  have un: "granted_until q a = UForever"
    using assms(2) d' by (auto simp: record_override_def Let_def split: ipc_until.splits)
  then have "an_until a = UForever" "allows_forever (request_scope q)"
    by (auto simp: granted_until_def split: if_splits)
  then have trust: "dq_scope_paths q \<noteq> []" "dq_scope_source q \<in> {''injected'', ''roots''}"
    by (auto simp: request_scope_def allows_forever_def scope_new_src parse_source_def split: if_splits)
  let ?d = "d\<lparr>dm_overrides := dm_overrides d @ [\<lparr>so_scope = dq_scope_key q, so_tool = t, so_allow = an_allow a\<rparr>]\<rparr>"
  have "d' = persist L mtime (dq_scope_key q) t (an_allow a) ?d"
    using d' un by (simp add: record_override_def)
  then show ?thesis
    using assms(2) \<open>an_until a = UForever\<close> trust t by (auto simp: persist_def split: option.splits)
qed

theorem permanent_only_on_trusted_scope_witness:
  "\<exists>q d d' r. conclude (plain_libs\<lparr>lib_yaml := (\<lambda>_. Some (JObject []))\<rparr>) None q
       \<lparr>d_action = AAsk, d_rule = None, d_severity = Info, d_message = [], d_findings = []\<rparr> (Some ''post'')
       \<lparr>an_prompt = 1, an_allow = True, an_until = UForever\<rparr> d = (r, d') \<and>
     dm_disk d' \<noteq> dm_disk (d :: bytes list daemon) \<and> dq_scope_source q \<in> {''injected'', ''roots''}"
proof -
  let ?L = "plain_libs\<lparr>lib_yaml := (\<lambda>_. Some (JObject []))\<rparr>"
  let ?q = "plain_call\<lparr>dq_scope_source := ''roots''\<rparr>"
  let ?d = "(plain_daemon policy_file_default)\<lparr>dm_policy_path := Some ''/h/policy.yaml'',
      dm_disk := [''/h/policy.yaml'' \<mapsto> \<lparr>df_text = Some ''# mine'', df_mtime = None\<rparr>]\<rparr>"
  let ?dec = "\<lparr>d_action = AAsk, d_rule = None, d_severity = Info, d_message = [], d_findings = []\<rparr>"
  let ?a = "\<lparr>an_prompt = 1, an_allow = True, an_until = UForever\<rparr>"
  obtain r d' where c: "conclude ?L None ?q ?dec (Some ''post'') ?a ?d = (r, d')" by fastforce
  have "granted_until ?q ?a = UForever"
    by (simp add: granted_until_def request_scope_def allows_forever_def scope_new_src parse_source_def plain_call_def)
  then have "d' = record_override ?L None ''cwd:/p'' ''post'' True UForever ?d"
    using c by (simp add: conclude_def plain_call_def)
  then have "dm_disk d' ''/h/policy.yaml'' \<noteq> dm_disk ?d ''/h/policy.yaml''"
    using append_example by (simp add: record_override_def persist_def)
  then have ne: "dm_disk d' \<noteq> dm_disk ?d" by metis
  have "dq_scope_source ?q \<in> {''injected'', ''roots''}"
    using permanent_only_on_trusted_scope [OF c ne] by blast
  then show ?thesis using c ne by blast
qed

text \<open>
  The excerpt shown to the user is the arguments themselves: whenever they render to at most 400
  characters, \<open>preview\<close> is their whole text, so a credential among them is shown in full although the
  findings would only give its kind and a prefix.
\<close>

theorem preview_shows_the_arguments:
  assumes "parse frame = Some v" and "jpath [''params'', ''arguments''] v = Some args"
    and "length (utf8_chars (render args)) \<le> 400"
  shows "preview parse render frame = render args"
proof -
  obtain p where "jget ''params'' v = Some p" "jget ''arguments'' p = Some args"
    using assms(2) by (auto simp: bind_eq_Some_conv)
  then show ?thesis
    using assms(1,3) by (simp add: preview_def take_chars_def utf8_chars_concat)
qed

theorem preview_shows_the_arguments_witness:
  "preview (\<lambda>_. Some (JObject [(''params'', JObject [(''arguments'', JString ''sk-0123456789abcdefghij'')])]))
     (\<lambda>v. case v of JString s \<Rightarrow> s | _ \<Rightarrow> []) ''{}'' = ''sk-0123456789abcdefghij''"
proof -
  have len: "length (utf8_chars ''sk-0123456789abcdefghij'') = 23" by code_simp
  show ?thesis
    using preview_shows_the_arguments [of "\<lambda>_. Some (JObject [(''params'', JObject [(''arguments'', JString ''sk-0123456789abcdefghij'')])])"
        "''{}''" "JObject [(''params'', JObject [(''arguments'', JString ''sk-0123456789abcdefghij'')])]"
        "JString ''sk-0123456789abcdefghij''" "\<lambda>v. case v of JString s \<Rightarrow> s | _ \<Rightarrow> []"] len
    by simp
qed

end
