(* ===== verification/Gate.thy ===== *)
theory Gate
  imports Daemon_System
begin

text \<open>
  What \<open>daemon/decide.rs\<close> promises to the callers, as a machine without prompts, interfaces, timeouts,
  files or locks; and that the daemon refines it.  Then the progress of a single call.
\<close>

section \<open>The abstract gate\<close>

text \<open>A call as an outsider sees it.  \<open>Ruled\<close> is one the policy has looked at.\<close>

datatype call =
  Submitted decide_request
| Ruled decide_request action "bytes option"
| Confirming decide_request "bytes option"
| Heard answer decide_request "bytes option"
| Ended decide_request ipc_outcome
| Failed_call

record gate =
  ga_calls :: "nat \<Rightarrow> call option"
  ga_grants :: "session_override list"

definition idle_gate :: gate where
  "idle_gate = \<lparr>ga_calls = Map.empty, ga_grants = []\<rparr>"

definition enter :: "nat \<Rightarrow> call \<Rightarrow> gate \<Rightarrow> gate" where
  "enter t c g = g\<lparr>ga_calls := (ga_calls g)(t \<mapsto> c)\<rparr>"

definition grant_for :: "decide_request \<Rightarrow> bytes option \<Rightarrow> gate \<Rightarrow> session_override option" where
  "grant_for q tool g = find (\<lambda>ov. so_matches ov (dq_scope_key q) tool) (ga_grants g)"

definition yes_no :: "bool \<Rightarrow> ipc_outcome" where
  "yes_no b = (if b then OAllow else ODeny)"

text \<open>
  The oldest grant for the scope and the tool decides; without one the policy; and only where the
  policy asks, the user.  Not hearing from the user is a refusal.  Grants come from answers alone.
\<close>

inductive gate_step :: "gate \<Rightarrow> gate \<Rightarrow> bool" where
  submit: "ga_calls g t = None \<Longrightarrow> gate_step g (enter t (Submitted q) g)"
| rule_on: "ga_calls g t = Some (Submitted q) \<Longrightarrow> gate_step g (enter t (Ruled q act tool) g)"
| break_off: "ga_calls g t = Some (Submitted q) \<Longrightarrow> gate_step g (enter t Failed_call g)"
| by_grant: "ga_calls g t = Some (Ruled q act tool) \<Longrightarrow> grant_for q tool g = Some ov \<Longrightarrow>
    gate_step g (enter t (Ended q (yes_no (so_allow ov))) g)"
| by_policy: "ga_calls g t = Some (Ruled q act tool) \<Longrightarrow> grant_for q tool g = None \<Longrightarrow> act \<noteq> AAsk \<Longrightarrow>
    gate_step g (enter t (Ended q (yes_no (act = AAllow))) g)"
| confirm: "ga_calls g t = Some (Ruled q AAsk tool) \<Longrightarrow> grant_for q tool g = None \<Longrightarrow>
    gate_step g (enter t (Confirming q tool) g)"
| give_up: "ga_calls g t = Some (Confirming q tool) \<Longrightarrow> gate_step g (enter t (Ended q ODeny) g)"
| hear: "ga_calls g t = Some (Confirming q tool) \<Longrightarrow> gate_step g (enter t (Heard a q tool) g)"
| carry_out: "ga_calls g t = Some (Heard a q tool) \<Longrightarrow>
    gate_step g ((enter t (Ended q (yes_no (an_allow a))) g)\<lparr>ga_grants := ga_grants g @ granted a q tool\<rparr>)"

section \<open>The daemon is such a gate\<close>

fun call_of :: "phase \<Rightarrow> call" where
  "call_of (Received q) = Submitted q"
| "call_of (Judged q dec tool) = Ruled q (d_action dec) tool"
| "call_of (Asking q dec tool) = Confirming q tool"
| "call_of (Opening q dec tool) = Confirming q tool"
| "call_of (Waiting i q dec tool) = Confirming q tool"
| "call_of (Abandoned i why q dec tool) = Confirming q tool"
| "call_of (Answered a q dec tool) = Heard a q tool"
| "call_of (Done q dec tool r) = Ended q (dr_outcome r)"
| "call_of Crashed = Failed_call"

definition gate_of :: "'s system \<Rightarrow> gate" where
  "gate_of s = \<lparr>ga_calls = (\<lambda>t. map_option call_of (sy_tasks s t)), ga_grants = dm_overrides (sy_daemon s)\<rparr>"

lemma gate_of_at:
  "dm_overrides d = dm_overrides (sy_daemon s) \<Longrightarrow> gate_of (at t ph d s) = enter t (call_of ph) (gate_of s)"
  by (auto simp: gate_of_def at_def enter_def)

lemma gate_of_quiet:
  "dm_overrides d = dm_overrides (sy_daemon s) \<Longrightarrow> gate_of (s\<lparr>sy_daemon := d\<rparr>) = gate_of s"
  by (simp add: gate_of_def)

lemma gate_of_heard [simp]: "gate_of (s\<lparr>sy_heard := h\<rparr>) = gate_of s"
  by (simp add: gate_of_def)

lemma calls_of [simp]: "ga_calls (gate_of s) t = map_option call_of (sy_tasks s t)"
  by (simp add: gate_of_def)

lemma grants_of: "map_option so_allow (grant_for q tool (gate_of s)) = matching_override (dq_scope_key q) tool (sy_daemon s)"
  by (simp add: grant_for_def gate_of_def matching_override_def)

lemma enter_same [simp]: "ga_calls g t = Some c \<Longrightarrow> enter t c g = g"
  by (cases g) (auto simp: enter_def)

lemma settle_is_by_the_gate:
  assumes "sy_tasks s t = Some (Judged q dec tool)" and "settle q dec tool (sy_daemon s) = Some r"
  shows "gate_step (gate_of s) (enter t (Ended q (dr_outcome r)) (gate_of s))"
proof (cases "grant_for q tool (gate_of s)")
  case None
  then have "matching_override (dq_scope_key q) tool (sy_daemon s) = None" by (simp flip: grants_of)
  then have "d_action dec \<noteq> AAsk" "dr_outcome r = yes_no (d_action dec = AAllow)"
    using assms(2) by (auto simp: settle_def respond_def yes_no_def Let_def split: action.splits)
  then show ?thesis using by_policy [of "gate_of s" t q "d_action dec" tool] None assms(1) by simp
next
  case (Some ov)
  then have "matching_override (dq_scope_key q) tool (sy_daemon s) = Some (so_allow ov)" by (simp flip: grants_of)
  then have "dr_outcome r = yes_no (so_allow ov)"
    using assms(2) by (auto simp: settle_def respond_def yes_no_def Let_def)
  then show ?thesis using by_grant [of "gate_of s" t q "d_action dec" tool ov] Some assms(1) by simp
qed

lemma ask_is_by_the_gate:
  assumes "sy_tasks s t = Some (Judged q dec tool)" and "settle q dec tool (sy_daemon s) = None"
  shows "gate_step (gate_of s) (enter t (Confirming q tool) (gate_of s))"
proof -
  have "matching_override (dq_scope_key q) tool (sy_daemon s) = None"
    using assms(2) by (auto simp: settle_def Let_def split: option.splits)
  then have "grant_for q tool (gate_of s) = None" by (simp flip: grants_of)
  then show ?thesis using confirm [of "gate_of s" t q tool] assms settle_asks [OF assms(2)] by simp
qed

lemma conclude_is_by_the_gate:
  assumes "sy_tasks s t = Some (Answered a q dec tool)" and "conclude L mtime q dec tool a (sy_daemon s) = (r, d)"
  shows "gate_step (gate_of s) (gate_of (at t (Done q dec tool r) d s))"
proof -
  have "dr_outcome r = yes_no (an_allow a)" using assms(2) by (auto simp: conclude_def respond_def yes_no_def)
  moreover have "dm_overrides d = dm_overrides (sy_daemon s) @ granted a q tool"
    using overrides_conclude [OF assms(2)] .
  ultimately have "gate_of (at t (Done q dec tool r) d s) =
      (enter t (Ended q (yes_no (an_allow a))) (gate_of s))\<lparr>ga_grants := ga_grants (gate_of s) @ granted a q tool\<rparr>"
    by (auto simp: gate_of_def at_def enter_def)
  then show ?thesis using carry_out [of "gate_of s" t a q tool] assms(1) by simp
qed

lemma step_is_gate_step:
  assumes "sys_step L s s'"
  shows "gate_step\<^sup>=\<^sup>= (gate_of s) (gate_of s')"
  using assms
proof (induction rule: sys_step.induct)
  case (settles s t q dec tool r)
  then show ?case using settle_is_by_the_gate [OF settles] by (simp add: gate_of_at)
next
  case (asks s t q dec tool)
  then show ?case using ask_is_by_the_gate [OF asks] by (simp add: gate_of_at)
next
  case (concludes s t a q dec tool mtime r d)
  then show ?case using conclude_is_by_the_gate [OF concludes] by blast
qed (auto simp: gate_of_at gate_of_quiet overrides_judge overrides_open
    dest: overrides_judge overrides_open intro: gate_step.intros)

lemma gate_of_fresh [simp]: "gate_of (fresh_system d) = idle_gate"
  by (simp add: gate_of_def fresh_system_def idle_gate_def)

text \<open>
  C10: the daemon is the gate it should be: seen without its prompts, interfaces, timeouts, files and
  locks, every state the daemon can reach is a state the abstract gate can reach, and every step it takes
  is one step of the gate or none.  In the gate a recorded permission decides before the policy,
  the policy alone decides what it does not ask about, a question without an answer ends in a refusal,
  and only an answer creates a permission.
\<close>

theorem daemon_refines_gate:
  assumes "reachable L d s" and "sys_step L s s'"
  shows "gate_step\<^sup>*\<^sup>* idle_gate (gate_of s) \<and> gate_step\<^sup>=\<^sup>= (gate_of s) (gate_of s')"
proof
  show "gate_step\<^sup>*\<^sup>* idle_gate (gate_of s)" using assms(1)
  proof (induction rule: reachable.induct)
    case (step s s')
    then show ?case using step_is_gate_step by (fastforce intro: rtranclp.rtrancl_into_rtrancl)
  qed simp
  show "gate_step\<^sup>=\<^sup>= (gate_of s) (gate_of s')" using assms(2) by (rule step_is_gate_step)
qed

theorem daemon_refines_gate_witness:
  "\<exists>s. sys_step plain_libs (fresh_system (plain_daemon policy_file_default)) s \<and>
     gate_step\<^sup>=\<^sup>= idle_gate (gate_of s) \<and> ga_calls (gate_of s) 7 = Some (Submitted plain_call)"
proof -
  let ?s0 = "fresh_system (plain_daemon policy_file_default)"
  let ?s1 = "at 7 (Received plain_call) (sy_daemon ?s0) ?s0"
  have step: "sys_step plain_libs ?s0 ?s1" by (rule arrives) (simp add: fresh_system_def)
  have "gate_step\<^sup>=\<^sup>= idle_gate (gate_of ?s1)"
    using daemon_refines_gate [OF reachable.start step] by simp
  moreover have "ga_calls (gate_of ?s1) 7 = Some (Submitted plain_call)" by (simp add: at_def)
  ultimately show ?thesis using step by blast
qed

section \<open>Every call can end\<close>

fun steps_left :: "phase \<Rightarrow> nat" where
  "steps_left (Received q) = 6"
| "steps_left (Judged q dec tool) = 5"
| "steps_left (Asking q dec tool) = 4"
| "steps_left (Opening q dec tool) = 3"
| "steps_left (Waiting i q dec tool) = 2"
| "steps_left (Abandoned i why q dec tool) = 1"
| "steps_left (Answered a q dec tool) = 1"
| "steps_left (Done q dec tool r) = 0"
| "steps_left Crashed = 0"

text \<open>One step of task \<open>t\<close> alone, in which nobody answers anything.\<close>

definition moves_on :: "('g, 's) libs \<Rightarrow> nat \<Rightarrow> 's system \<Rightarrow> 's system \<Rightarrow> bool" where
  "moves_on L t s s' \<longleftrightarrow> sys_step L s s' \<and> sy_heard s' = sy_heard s \<and> sy_tasks s' = (sy_tasks s)(t := sy_tasks s' t)"

lemma moves_on_at: "sys_step L s (at t ph d s) \<Longrightarrow> moves_on L t s (at t ph d s)"
  by (simp add: moves_on_def at_def)

lemma at_phase [simp]: "sy_tasks (at t ph d s) t = Some ph"
  by (simp add: at_def)

lemma unfinished_moves_on:
  assumes "sy_tasks s t = Some ph" and "0 < steps_left ph"
  shows "\<exists>s' ph'. moves_on L t s s' \<and> sy_tasks s' t = Some ph' \<and> steps_left ph' < steps_left ph"
proof -
  have m: "\<exists>s' ph'. moves_on L t s s' \<and> sy_tasks s' t = Some ph' \<and> steps_left ph' < steps_left ph"
    if "sys_step L s (at t ph' d s)" "steps_left ph' < steps_left ph" for ph' d
    using moves_on_at [OF that(1)] that(2) at_phase by blast
  show ?thesis
  proof (cases ph)
    case (Received q)
    obtain x d where j: "judge L 0 q (sy_daemon s) = (x, d)" by fastforce
    show ?thesis
    proof (cases x)
      case (Returned y)
      then obtain dec tool timeout where "y = (dec, tool, timeout)" by (cases y) auto
      then show ?thesis using m [of "Judged q dec tool" d] judged [of s t q L 0 dec tool timeout d] j assms(1) Received Returned by simp
    next
      case Panicked
      then show ?thesis using m [of Crashed d] panics [of s t q L 0 d] j assms(1) Received by simp
    qed
  next
    case (Judged q dec tool)
    show ?thesis
    proof (cases "settle q dec tool (sy_daemon s)")
      case None
      then show ?thesis using m [of "Asking q dec tool"] asks [of s t q dec tool L] assms(1) Judged by simp
    next
      case (Some r)
      then show ?thesis using m [of "Done q dec tool r"] settles [of s t q dec tool r L] assms(1) Judged by simp
    qed
  next
    case (Asking q dec tool)
    show ?thesis
    proof (cases "dm_subscribers (sy_daemon s)")
      case 0
      then show ?thesis using m [OF alone] assms(1) Asking by simp
    next
      case (Suc n)
      then show ?thesis using m [OF attended] assms(1) Asking by simp
    qed
  next
    case (Opening q dec tool)
    obtain i d where "open_prompt (sy_daemon s) = (i, d)" by fastforce
    then show ?thesis using m [OF prompts] assms(1) Opening by simp
  next
    case (Waiting i q dec tool)
    then show ?thesis using m [OF expires] assms(1) by simp
  next
    case (Abandoned i why q dec tool)
    then show ?thesis using m [OF withdrawn] assms(1) by simp
  next
    case (Answered a q dec tool)
    obtain r d where "conclude L None q dec tool a (sy_daemon s) = (r, d)" by fastforce
    then show ?thesis using m [OF concludes] assms(1) Answered by simp
  qed (use assms(2) in simp_all)
qed

lemma no_step_back:
  assumes "sys_step L s s'" and "sy_tasks s t = Some ph"
  shows "\<exists>ph'. sy_tasks s' t = Some ph' \<and> (ph' = ph \<or> steps_left ph' < steps_left ph)"
  using assms by (induction rule: sys_step.induct) (auto simp: at_def)

text \<open>
  C31: no call hangs: wherever a call stands, it can be brought to its end within six steps of its own
  task, with no answer from anybody and without another call being touched; and no step of anyone
  ever takes a call back or keeps it turning, for every step that changes it brings it closer to its end.
\<close>

theorem every_call_can_end:
  assumes "sy_tasks s t = Some ph"
  shows "(\<exists>n s' ph'. n \<le> 6 \<and> (moves_on L t ^^ n) s s' \<and> sy_tasks s' t = Some ph' \<and> steps_left ph' = 0) \<and>
    (\<forall>s'. sys_step L s s' \<longrightarrow>
       (\<exists>ph'. sy_tasks s' t = Some ph' \<and> (ph' = ph \<or> steps_left ph' < steps_left ph)))"
proof
  have "\<exists>n s' ph'. n \<le> steps_left ph \<and> (moves_on L t ^^ n) s s' \<and> sy_tasks s' t = Some ph' \<and> steps_left ph' = 0"
    using assms
  proof (induction "steps_left ph" arbitrary: s ph rule: less_induct)
    case less
    show ?case
    proof (cases "steps_left ph")
      case 0
      then show ?thesis using less.prems by (intro exI [of _ 0]) auto
    next
      case (Suc k)
      then obtain s1 ph1 where one: "moves_on L t s s1" "sy_tasks s1 t = Some ph1" "steps_left ph1 < steps_left ph"
        using unfinished_moves_on [OF less.prems, of L] by auto
      then obtain n s' ph' where "n \<le> steps_left ph1" "(moves_on L t ^^ n) s1 s'" "sy_tasks s' t = Some ph'"
        "steps_left ph' = 0" using less.hyps by blast
      moreover have "(moves_on L t ^^ Suc n) s s'" using one(1) calculation(2) by (rule relpowp_Suc_I2)
      ultimately show ?thesis using one(3) by (meson le_less_trans Suc_leI)
    qed
  qed
  moreover have "steps_left ph \<le> 6" by (cases ph) simp_all
  ultimately show "\<exists>n s' ph'. n \<le> 6 \<and> (moves_on L t ^^ n) s s' \<and> sy_tasks s' t = Some ph' \<and> steps_left ph' = 0"
    by (meson le_trans)
  show "\<forall>s'. sys_step L s s' \<longrightarrow>
      (\<exists>ph'. sy_tasks s' t = Some ph' \<and> (ph' = ph \<or> steps_left ph' < steps_left ph))"
    using no_step_back [OF _ assms] by blast
qed

theorem every_call_can_end_witness:
  "\<exists>s n s' ph'. sy_tasks s 7 = Some (Received plain_call) \<and> n \<le> (6::nat) \<and> (moves_on plain_libs 7 ^^ n) s s' \<and>
     sy_tasks s' 7 = Some ph' \<and> steps_left ph' = 0"
proof -
  let ?s = "at 7 (Received plain_call) (plain_daemon policy_file_default)
      (fresh_system (plain_daemon policy_file_default))"
  have "sy_tasks ?s 7 = Some (Received plain_call)" by simp
  then show ?thesis using every_call_can_end [of ?s 7 "Received plain_call" plain_libs] by blast
qed

end
