(* ===== verification/Connection.thy ===== *)
theory Connection
  imports Gate
begin

text \<open>
  One connection of the daemon from its first line to its last (\<open>Daemon::handle\<close> of \<open>daemon/mod.rs\<close>), with
  \<open>Daemon::decide\<close> and \<open>Daemon::ask\<close> run to their end.  What the rest of the world does is an argument: the
  lines that arrive, what the user answers, whether a write succeeds, and what the other connections
  do to the shared state before each line.
\<close>

section \<open>A call from beginning to end\<close>

text \<open>How an ask goes: the prompt reaches nobody, nobody answers in time, or the user does.\<close>

datatype course = NoReceiver | Silence | Replied bool ipc_until "nat option"

definition run_ask ::
  "('g, 's) libs \<Rightarrow> course \<Rightarrow> decide_request \<Rightarrow> decision \<Rightarrow> bytes option \<Rightarrow> nat \<Rightarrow> 's daemon
     \<Rightarrow> decide_response \<times> server_message list \<times> 's daemon" where
  "run_ask L course q dec tool timeout d =
     (if dm_subscribers d = 0 then (deny_ask q dec NO_INTERFACE, [], d)
      else
        (let (i, d1) = open_prompt d;
             p = SPrompt (make_prompt L i q dec tool timeout);
             d2 = close_prompt i d1
         in case course of
              NoReceiver \<Rightarrow> (deny_ask q dec ''interface unreachable'', [], d2)
            | Silence \<Rightarrow> (deny_ask q dec ''confirmation timed out'', [p, SWithdraw i], d2)
            | Replied allow un mtime \<Rightarrow>
                (let (r, d3) = conclude L mtime q dec tool \<lparr>an_prompt = i, an_allow = allow, an_until = un\<rparr> d2
                 in (r, [p], d3))))"

definition run_decide ::
  "('g, 's) libs \<Rightarrow> nat \<Rightarrow> course \<Rightarrow> decide_request \<Rightarrow> 's daemon
     \<Rightarrow> decide_response option \<times> server_message list \<times> 's daemon" where
  "run_decide L now course q d =
     (case judge L now q d of
        (Panicked, d1) \<Rightarrow> (None, [], d1)
      | (Returned (dec, tool, timeout), d1) \<Rightarrow>
          (case settle q dec tool d1 of
             Some r \<Rightarrow> (Some r, [], d1)
           | None \<Rightarrow> (let (r, out, d2) = run_ask L course q dec tool timeout d1 in (Some r, out, d2))))"

section \<open>The connection\<close>

record 's moment =
  mo_now :: nat
  mo_ms :: int
  mo_db_ok :: bool
  mo_course :: course
  mo_writable :: bool
  mo_others :: "'s daemon \<Rightarrow> 's daemon"

datatype 's arrival = Arrived bytes "'s moment" | Unreadable

text \<open>
  \<open>cn_out\<close> is what the loop itself writes; \<open>cn_prompts\<close> what it hands to the task of each interface.  On a connection
  that has subscribed, its own such task writes to the same socket (\<open>on_socket\<close> below).
\<close>

record 's conn =
  cn_daemon :: "'s daemon"
  cn_subscribed :: bool
  cn_out :: "bytes list"
  cn_prompts :: "server_message list"

definition reply_line :: "('g, 's) libs \<Rightarrow> server_message \<Rightarrow> bytes" where
  "reply_line L m = lib_render L (enc_server m) @ [NL]"

definition send_reply :: "('g, 's) libs \<Rightarrow> bool \<Rightarrow> server_message \<Rightarrow> 's conn \<Rightarrow> 's conn \<times> bool" where
  "send_reply L writable m cn = (if writable then (cn\<lparr>cn_out := cn_out cn @ [reply_line L m]\<rparr>, True) else (cn, False))"

definition subscribe :: "'s conn \<Rightarrow> 's conn" where
  "subscribe cn =
     (if cn_subscribed cn then cn
      else cn\<lparr>cn_subscribed := True,
              cn_daemon := (cn_daemon cn)\<lparr>dm_subscribers := dm_subscribers (cn_daemon cn) + 1\<rparr>\<rparr>)"

text \<open>The value says whether the loop goes on: a failed write or a panic ends it.\<close>

fun handle_message :: "('g, 's) libs \<Rightarrow> 's moment \<Rightarrow> client_message \<Rightarrow> 's conn \<Rightarrow> 's conn \<times> bool" where
  "handle_message L e (CDecide q) cn =
     (let (r, out, d) = run_decide L (mo_now e) (mo_course e) q (cn_daemon cn);
          cn' = cn\<lparr>cn_daemon := d, cn_prompts := cn_prompts cn @ out\<rparr>
      in case r of None \<Rightarrow> (cn', False) | Some v \<Rightarrow> send_reply L (mo_writable e) (SVerdict v) cn')"
| "handle_message L e CSubscribe cn = (subscribe cn, True)"
| "handle_message L e (CTaint r) cn = (cn\<lparr>cn_daemon := take_taint (mo_now e) r (cn_daemon cn)\<rparr>, True)"
| "handle_message L e (CTools r) cn = (cn\<lparr>cn_daemon := take_tools (mo_db_ok e) (mo_ms e) r (cn_daemon cn)\<rparr>, True)"
| "handle_message L e (CAnswer a) cn = (cn\<lparr>cn_daemon := close_prompt (an_prompt a) (cn_daemon cn)\<rparr>, True)"
| "handle_message L e CStatus cn =
     send_reply L (mo_writable e) (SStatus (daemon_status (mo_db_ok e) (mo_ms e) (cn_daemon cn))) cn"

text \<open>The value says whether the stream ended in an orderly way, so that the code after the loop runs.\<close>

fun connection_loop :: "('g, 's) libs \<Rightarrow> 's arrival list \<Rightarrow> 's conn \<Rightarrow> 's conn \<times> bool" where
  "connection_loop L [] cn = (cn, True)"
| "connection_loop L (Unreadable # rest) cn = (cn, False)"
| "connection_loop L (Arrived line e # rest) cn =
     (let cn1 = cn\<lparr>cn_daemon := mo_others e (cn_daemon cn)\<rparr> in
      case read_line L line of
        None \<Rightarrow> connection_loop L rest cn1
      | Some m \<Rightarrow>
          (case handle_message L e m cn1 of
             (cn2, True) \<Rightarrow> connection_loop L rest cn2
           | (cn2, False) \<Rightarrow> (cn2, False)))"

text \<open>
  What the socket carries: the lines of the loop and, when the connection has subscribed, those of the task that forwards
  the prompts, whole lines in whatever order the two get to write.
\<close>

definition on_socket :: "'s conn \<Rightarrow> bytes list \<Rightarrow> bytes list \<Rightarrow> bool" where
  "on_socket cn forwarded wire \<longleftrightarrow> wire \<in> shuffles (cn_out cn) (if cn_subscribed cn then forwarded else [])"

definition unsubscribe :: "'s conn \<Rightarrow> 's conn" where
  "unsubscribe cn =
     (if cn_subscribed cn
      then cn\<lparr>cn_daemon := (cn_daemon cn)\<lparr>dm_subscribers := dm_subscribers (cn_daemon cn) - 1\<rparr>\<rparr> else cn)"

definition serve_connection ::
  "('g, 's) libs \<Rightarrow> bytes \<Rightarrow> bytes option \<Rightarrow> bool \<Rightarrow> 's arrival list \<Rightarrow> 's daemon \<Rightarrow> 's conn \<times> bool" where
  "serve_connection L build first writable arrivals d =
     (let cn = \<lparr>cn_daemon = d, cn_subscribed = False, cn_out = [], cn_prompts = []\<rparr> in
      case greet L build first d of
        Hangup \<Rightarrow> (cn, False)
      | Greeted hello ok \<Rightarrow>
          if \<not> writable then (cn, False)
          else
            (let cn1 = cn\<lparr>cn_out := [lib_render L hello @ [NL]]\<rparr> in
             if \<not> ok then (cn1, True)
             else (case connection_loop L arrivals cn1 of
                     (cn2, True) \<Rightarrow> (unsubscribe cn2, True)
                   | (cn2, False) \<Rightarrow> (cn2, False))))"

section \<open>A run of the system\<close>

text \<open>
  \<open>run_decide\<close> is one way through the small steps of \<open>sys_step\<close>, the one in which nothing comes between.
\<close>

lemma at_at [simp]: "at t ph' d' (at t ph d s) = at t ph' d' s"
  by (simp add: at_def)

lemma at_daemon [simp]: "sy_daemon (at t ph d s) = d"
  by (simp add: at_def)

lemma at_heard [simp]: "at t ph d (s\<lparr>sy_heard := h\<rparr>) = (at t ph d s)\<lparr>sy_heard := h\<rparr>"
  by (simp add: at_def)

text \<open>Task \<open>t\<close> gets from \<open>s\<close> to phase \<open>ph\<close> with the daemon in state \<open>d\<close>; answers may be heard on the way.\<close>

definition gets_to :: "('g, 's) libs \<Rightarrow> nat \<Rightarrow> 's system \<Rightarrow> phase \<Rightarrow> 's daemon \<Rightarrow> bool" where
  "gets_to L t s ph d \<longleftrightarrow> (\<exists>h. (sys_step L)\<^sup>*\<^sup>* s ((at t ph d s)\<lparr>sy_heard := h\<rparr>))"

lemma gets_to_start: "sy_tasks s t = Some ph \<Longrightarrow> gets_to L t s ph (sy_daemon s)"
  unfolding gets_to_def by (rule exI [of _ "sy_heard s"]) (simp add: at_def fun_upd_idem)

lemma gets_to_step:
  assumes "gets_to L t s ph d"
    and "\<And>s'. sy_tasks s' t = Some ph \<Longrightarrow> sy_daemon s' = d \<Longrightarrow> \<exists>h. sys_step L s' ((at t ph' d' s')\<lparr>sy_heard := h\<rparr>)"
  shows "gets_to L t s ph' d'"
proof -
  obtain h where s: "(sys_step L)\<^sup>*\<^sup>* s ((at t ph d s)\<lparr>sy_heard := h\<rparr>)" using assms(1) by (auto simp: gets_to_def)
  obtain h' where "sys_step L ((at t ph d s)\<lparr>sy_heard := h\<rparr>) ((at t ph' d' ((at t ph d s)\<lparr>sy_heard := h\<rparr>))\<lparr>sy_heard := h'\<rparr>)"
    using assms(2) [of "(at t ph d s)\<lparr>sy_heard := h\<rparr>"] by auto
  then have "sys_step L ((at t ph d s)\<lparr>sy_heard := h\<rparr>) ((at t ph' d' s)\<lparr>sy_heard := h'\<rparr>)" by simp
  then show ?thesis using s unfolding gets_to_def by (meson rtranclp.rtrancl_into_rtrancl)
qed

lemma gets_to_quietly:
  fixes L :: "('g, 's) libs"
  assumes "gets_to L t s ph d"
    and "\<And>s'. sy_tasks s' t = Some ph \<Longrightarrow> sy_daemon s' = d \<Longrightarrow> sys_step L s' (at t ph' d' s')"
  shows "gets_to L t s ph' d'"
proof (rule gets_to_step [OF assms(1)])
  fix s' :: "'s system" assume "sy_tasks s' t = Some ph" "sy_daemon s' = d"
  then have "sys_step L s' (at t ph' d' s')" by (rule assms(2))
  then show "\<exists>h. sys_step L s' ((at t ph' d' s')\<lparr>sy_heard := h\<rparr>)"
    by (intro exI [of _ "sy_heard s'"]) (simp add: at_def)
qed

lemma gets_to_end:
  "gets_to L t s (Abandoned i why q dec tool) d \<Longrightarrow> gets_to L t s (Done q dec tool (deny_ask q dec why)) (close_prompt i d)"
  by (erule gets_to_quietly) (auto intro: withdrawn)

lemma gets_to_answer:
  assumes "gets_to L t s (Waiting i q dec tool) d" and "i \<in> set (dm_pending d)" and "an_prompt a = i"
    and "conclude L mtime q dec tool a (close_prompt i d) = (r, d')"
  shows "gets_to L t s (Done q dec tool r) d'"
proof -
  have "gets_to L t s (Answered a q dec tool) (close_prompt i d)"
    using assms(2,3) by (intro gets_to_step [OF assms(1)]) (blast intro: answered)
  then show ?thesis by (rule gets_to_quietly) (use assms(4) in \<open>auto intro: concludes\<close>)
qed

lemma ask_is_a_run:
  assumes "gets_to L t s (Asking q dec tool) d" and "run_ask L course q dec tool timeout d = (r, out, d')"
  shows "gets_to L t s (Done q dec tool r) d'"
proof (cases "dm_subscribers d = 0")
  case True
  then show ?thesis
    using assms(2) by (intro gets_to_quietly [OF assms(1)]) (auto simp: run_ask_def intro: alone)
next
  case False
  obtain i d1 where o: "open_prompt d = (i, d1)" by fastforce
  have op: "gets_to L t s (Opening q dec tool) d"
    using False by (intro gets_to_quietly [OF assms(1)]) (auto intro: attended)
  have wt: "gets_to L t s (Waiting i q dec tool) d1"
    using o by (intro gets_to_quietly [OF op]) (auto intro: prompts)
  show ?thesis
  proof (cases course)
    case NoReceiver
    have "gets_to L t s (Abandoned i ''interface unreachable'' q dec tool) d1"
      using o by (intro gets_to_quietly [OF op]) (auto intro: unreachable)
    from gets_to_end [OF this] show ?thesis using assms(2) False o NoReceiver by (simp add: run_ask_def)
  next
    case Silence
    have "gets_to L t s (Abandoned i ''confirmation timed out'' q dec tool) d1"
      by (rule gets_to_quietly [OF wt]) (auto intro: expires)
    from gets_to_end [OF this] show ?thesis using assms(2) False o Silence by (simp add: run_ask_def)
  next
    case (Replied allow un mtime)
    let ?a = "\<lparr>an_prompt = i, an_allow = allow, an_until = un\<rparr>"
    have "i \<in> set (dm_pending d1)" using o by (auto simp: open_prompt_def Let_def)
    moreover have "conclude L mtime q dec tool ?a (close_prompt i d1) = (r, d')"
      using assms(2) False o Replied by (auto simp: run_ask_def Let_def split: prod.splits)
    ultimately show ?thesis by (intro gets_to_answer [OF wt]) auto
  qed
qed

lemma decide_gets_to:
  assumes "sy_tasks s t = Some (Received q)" and "run_decide L now course q (sy_daemon s) = (v, out, d')"
  shows "\<exists>dec tool. gets_to L t s (case v of Some r \<Rightarrow> Done q dec tool r | None \<Rightarrow> Crashed) d'"
proof -
  obtain x d1 where j: "judge L now q (sy_daemon s) = (x, d1)" by fastforce
  note start = gets_to_start [OF assms(1)]
  show ?thesis
  proof (cases x)
    case Panicked
    then have "gets_to L t s Crashed d1" using j by (intro gets_to_quietly [OF start]) (auto intro: panics)
    then show ?thesis using assms(2) j Panicked by (auto simp: run_decide_def)
  next
    case (Returned y)
    obtain dec tool timeout where y: "y = (dec, tool, timeout)" by (cases y) auto
    have jd: "gets_to L t s (Judged q dec tool) d1"
      using j Returned y by (intro gets_to_quietly [OF start]) (auto intro: judged)
    show ?thesis
    proof (cases "settle q dec tool d1")
      case (Some r)
      then have "gets_to L t s (Done q dec tool r) d1" by (intro gets_to_quietly [OF jd]) (auto intro: settles)
      moreover have "v = Some r" "d' = d1" using assms(2) j Returned y Some by (simp_all add: run_decide_def)
      ultimately show ?thesis by auto
    next
      case None
      then have ask: "gets_to L t s (Asking q dec tool) d1" by (intro gets_to_quietly [OF jd]) (auto intro: asks)
      obtain r out' d2 where "run_ask L course q dec tool timeout d1 = (r, out', d2)" by (metis prod_cases3)
      moreover from this have "gets_to L t s (Done q dec tool r) d2" by (rule ask_is_a_run [OF ask])
      moreover have "v = Some r" "d' = d2"
        using calculation(1) assms(2) j Returned y None by (simp_all add: run_decide_def)
      ultimately show ?thesis by auto
    qed
  qed
qed

text \<open>
  Deciding a call in one go is one of the ways through the small steps: whatever the policy says and
  however the ask goes, the verdict that the connection writes and the state it leaves are those of a run
  of the concurrent system from the arrival of the call to its end, so that all that holds of every reachable
  state holds of them; a panic is the crash of the task.
\<close>

theorem decide_is_a_run:
  assumes "sy_tasks s t = Some (Received q)" and "run_decide L now course q (sy_daemon s) = (v, out, d')"
  shows "\<exists>s' dec tool. (sys_step L)\<^sup>*\<^sup>* s s' \<and> sy_daemon s' = d' \<and>
    sy_tasks s' = (sy_tasks s)(t \<mapsto> (case v of Some r \<Rightarrow> Done q dec tool r | None \<Rightarrow> Crashed))"
proof -
  obtain dec tool h where
    "(sys_step L)\<^sup>*\<^sup>* s ((at t (case v of Some r \<Rightarrow> Done q dec tool r | None \<Rightarrow> Crashed) d' s)\<lparr>sy_heard := h\<rparr>)"
    using decide_gets_to [OF assms] by (auto simp: gets_to_def)
  then show ?thesis by (intro exI conjI) (assumption, simp_all add: at_def)
qed

theorem decide_is_a_run_witness:
  "\<exists>s' dec tool. (sys_step plain_libs)\<^sup>*\<^sup>* (at 3 (Received plain_call) (plain_daemon policy_file_default)
       (fresh_system (plain_daemon policy_file_default))) s' \<and>
     sy_tasks s' 3 = Some (Done plain_call dec tool (respond OAllow None ''default policy'' False))"
proof -
  let ?s = "at 3 (Received plain_call) (plain_daemon policy_file_default) (fresh_system (plain_daemon policy_file_default))"
  have "\<not> allows_forever (request_scope plain_call)"
    by (simp add: request_scope_def allows_forever_def scope_new_src parse_source_def plain_call_def)
  then have "settle plain_call \<lparr>d_action = AAllow, d_rule = None, d_severity = Info, d_message = ''default policy'',
      d_findings = []\<rparr> None (plain_daemon policy_file_default) = Some (respond OAllow None ''default policy'' False)"
    by (simp add: settle_def matching_override_def plain_daemon_def daemon_new_def Let_def)
  then have "run_decide plain_libs 0 Silence plain_call (sy_daemon ?s) =
      (Some (respond OAllow None ''default policy'' False), [], plain_daemon policy_file_default)"
    by (simp add: run_decide_def plain_judge)
  from decide_is_a_run [OF at_phase this] show ?thesis by fastforce
qed

section \<open>One line for each question\<close>

text \<open>The messages that have an answer, and what answers them in the state the daemon is in when they are read.\<close>

fun asked :: "client_message \<Rightarrow> bool" where
  "asked (CDecide q) = True"
| "asked CStatus = True"
| "asked m = False"

fun answers_now :: "('g, 's) libs \<Rightarrow> 's moment \<Rightarrow> client_message \<Rightarrow> 's daemon \<Rightarrow> server_message \<Rightarrow> bool" where
  "answers_now L e (CDecide q) d a \<longleftrightarrow>
     (\<exists>r out d'. run_decide L (mo_now e) (mo_course e) q d = (Some r, out, d') \<and> a = SVerdict r)"
| "answers_now L e CStatus d a \<longleftrightarrow> a = SStatus (daemon_status (mo_db_ok e) (mo_ms e) d)"
| "answers_now L e m d a \<longleftrightarrow> False"

definition questions :: "('g, 's) libs \<Rightarrow> 's arrival list \<Rightarrow> client_message list" where
  "questions L arrivals =
     filter asked (List.map_filter (\<lambda>a. case a of Arrived line e \<Rightarrow> read_line L line | Unreadable \<Rightarrow> None) arrivals)"

lemma questions_simps [simp]:
  "questions L [] = []"
  "questions L (Unreadable # as) = questions L as"
  "read_line L line = None \<Longrightarrow> questions L (Arrived line e # as) = questions L as"
  "read_line L line = Some m \<Longrightarrow> questions L (Arrived line e # as) = (if asked m then [m] else []) @ questions L as"
  by (simp_all add: questions_def)

lemma message_answered:
  assumes "handle_message L e m cn = (cn', go)"
  shows "cn_out cn' = cn_out cn \<and> (asked m = (\<not> go)) \<or>
    go \<and> asked m \<and> (\<exists>a. answers_now L e m (cn_daemon cn) a \<and> cn_out cn' = cn_out cn @ [reply_line L a])"
proof (cases m)
  case (CDecide q)
  obtain r out d where "run_decide L (mo_now e) (mo_course e) q (cn_daemon cn) = (r, out, d)" by (metis prod_cases3)
  then show ?thesis using assms CDecide by (cases r) (auto simp: send_reply_def Let_def split: if_splits)
next
  case CStatus
  then show ?thesis using assms by (auto simp: send_reply_def split: if_splits)
qed (use assms in \<open>auto simp: subscribe_def\<close>)

text \<open>The loop writes at most a line for each question, and one for each when the stream ends in an orderly way.\<close>

lemma loop_answers:
  "connection_loop L arrivals cn = (cn', ok) \<Longrightarrow>
   \<exists>ls. cn_out cn' = cn_out cn @ ls \<and> length ls \<le> length (questions L arrivals) \<and>
     (ok \<longrightarrow> length ls = length (questions L arrivals))"
proof (induction L arrivals cn rule: connection_loop.induct)
  case (3 L line e rest cn)
  let ?cn1 = "cn\<lparr>cn_daemon := mo_others e (cn_daemon cn)\<rparr>"
  show ?case
  proof (cases "read_line L line")
    case None
    then show ?thesis using 3 by simp
  next
    case (Some m)
    obtain cn2 go where h: "handle_message L e m ?cn1 = (cn2, go)" by fastforce
    show ?thesis
    proof (cases go)
      case False
      then have "cn' = cn2" "\<not> ok" using 3(3) Some h by simp_all
      then show ?thesis using message_answered [OF h] False by auto
    next
      case True
      then obtain ls where "cn_out cn' = cn_out cn2 @ ls" "length ls \<le> length (questions L rest)"
        "ok \<longrightarrow> length ls = length (questions L rest)"
        using 3(2) [OF refl Some h [symmetric]] 3(3) Some h by auto
      then show ?thesis using message_answered [OF h] True Some by auto
    qed
  qed
qed simp_all

lemma loop_append:
  "connection_loop L (xs @ ys) cn =
     (case connection_loop L xs cn of (cn1, True) \<Rightarrow> connection_loop L ys cn1 | (cn1, False) \<Rightarrow> (cn1, False))"
  by (induction L xs cn rule: connection_loop.induct) (auto simp: Let_def split: option.splits prod.splits bool.splits)

text \<open>The line of a question stands where the number of the questions before it says, and answers it in its moment.\<close>

lemma loop_answer_at:
  assumes "connection_loop L (xs @ Arrived line e # ys) cn = (cn', ok)"
    and "read_line L line = Some m" and "asked m"
    and "length (cn_out cn) + length (questions L xs) < length (cn_out cn')"
  shows "\<exists>cn1 a. connection_loop L xs cn = (cn1, True) \<and> answers_now L e m (mo_others e (cn_daemon cn1)) a \<and>
    cn_out cn' ! (length (cn_out cn) + length (questions L xs)) = reply_line L a"
proof -
  obtain cn1 ok1 where x: "connection_loop L xs cn = (cn1, ok1)" by fastforce
  obtain ls where ls: "cn_out cn1 = cn_out cn @ ls" "length ls \<le> length (questions L xs)"
    "ok1 \<longrightarrow> length ls = length (questions L xs)"
    using loop_answers [OF x] by blast
  have ok1: ok1 using assms(1,4) x ls by (cases ok1) (auto simp: loop_append)
  let ?cn1 = "cn1\<lparr>cn_daemon := mo_others e (cn_daemon cn1)\<rparr>"
  obtain cn2 go where h: "handle_message L e m ?cn1 = (cn2, go)" by fastforce
  have r: "(if go then connection_loop L ys cn2 else (cn2, False)) = (cn', ok)"
    using assms(1,2) x ok1 h by (cases go) (simp_all add: loop_append)
  have go: go using message_answered [OF h] r assms(3,4) ls ok1 by (cases go) auto
  then obtain a where "answers_now L e m (cn_daemon ?cn1) a" "cn_out cn2 = cn_out cn1 @ [reply_line L a]"
    using message_answered [OF h] assms(3) by auto
  moreover obtain ls' where "cn_out cn' = cn_out cn2 @ ls'" using loop_answers [of L ys cn2] r go by auto
  ultimately show ?thesis using x ls ok1 by (auto simp: nth_append)
qed

lemma unsubscribe_out [simp]: "cn_out (unsubscribe cn) = cn_out cn" "cn_subscribed (unsubscribe cn) = cn_subscribed cn"
  by (simp_all add: unsubscribe_def)

text \<open>The connection after a handshake that succeeded.\<close>

definition opened :: "('g, 's) libs \<Rightarrow> json \<Rightarrow> 's daemon \<Rightarrow> 's conn" where
  "opened L hello d =
     \<lparr>cn_daemon = d, cn_subscribed = False, cn_out = [lib_render L hello @ [NL]], cn_prompts = []\<rparr>"

text \<open>
  C28: one line for each question, in its place: on a connection that never subscribed, as a shim's, whose handshake
  succeeded, the socket carries the daemon's hello and then one line for each decision and status that was asked,
  all of them when the stream ends in an orderly way, and those up to where it broke off otherwise.  The line after
  as many questions as came before answers this question and no other: a verdict is what deciding this request gives in
  the state the daemon was in when its line was read, a status describes that state.  Blank and unreadable lines, taint
  and tool reports and answers put nothing on the socket, which a shim would read as its next verdict.
\<close>

theorem one_line_per_question:
  assumes "serve_connection L build first True arrivals d = (cn, ok)" and "greet L build first d = Greeted hello True"
    and "on_socket cn forwarded wire" and "\<not> cn_subscribed cn"
  shows "wire \<noteq> [] \<and> hd wire = lib_render L hello @ [NL] \<and>
    length wire \<le> Suc (length (questions L arrivals)) \<and>
    (ok \<longrightarrow> length wire = Suc (length (questions L arrivals))) \<and>
    (\<forall>before line e rest m. arrivals = before @ Arrived line e # rest \<longrightarrow> read_line L line = Some m \<longrightarrow> asked m \<longrightarrow>
       Suc (length (questions L before)) < length wire \<longrightarrow>
       (\<exists>cn1 a. connection_loop L before (opened L hello d) = (cn1, True) \<and>
          answers_now L e m (mo_others e (cn_daemon cn1)) a \<and>
          wire ! Suc (length (questions L before)) = reply_line L a))"
proof -
  let ?cn1 = "opened L hello d"
  obtain cn2 ok2 where l: "connection_loop L arrivals ?cn1 = (cn2, ok2)" by fastforce
  have "cn_out cn = cn_out cn2 \<and> ok = ok2"
    using assms(1,2) l by (cases ok2) (auto simp: serve_connection_def opened_def Let_def)
  then have ok: "ok = ok2" and out: "cn_out cn = cn_out cn2" by simp_all
  have w: "wire = cn_out cn2" using assms(3,4) out by (simp add: on_socket_def)
  have o: "cn_out ?cn1 = [lib_render L hello @ [NL]]" by (simp add: opened_def)
  obtain ls where "cn_out cn2 = cn_out ?cn1 @ ls" "length ls \<le> length (questions L arrivals)"
    "ok2 \<longrightarrow> length ls = length (questions L arrivals)"
    using loop_answers [OF l] by blast
  moreover have "\<exists>cn1 a. connection_loop L before ?cn1 = (cn1, True) \<and>
      answers_now L e m (mo_others e (cn_daemon cn1)) a \<and>
      wire ! Suc (length (questions L before)) = reply_line L a"
    if "arrivals = before @ Arrived line e # rest" "read_line L line = Some m" "asked m"
      "Suc (length (questions L before)) < length wire" for before line e rest m
    using loop_answer_at [OF l [unfolded that(1)] that(2,3)] that(4) w o by simp
  ultimately show ?thesis using w ok o by auto
qed

section \<open>How many interfaces there are\<close>

lemma subscribers_kept [simp]:
  "dm_subscribers (drift_remove sv t d) = dm_subscribers d"
  "dm_subscribers (close_prompt i d) = dm_subscribers d"
  "dm_subscribers (take_taint now tr d) = dm_subscribers d"
  "dm_subscribers (persist L mtime sk tl' al d) = dm_subscribers d"
  "dm_subscribers (drift_extend sv ts d) = dm_subscribers d"
  by (simp_all add: drift_remove_def close_prompt_def take_taint_def persist_def drift_extend_def Let_def
      split: option.splits)

lemma subscribers_tools [simp]: "dm_subscribers (take_tools io_ok now tr d) = dm_subscribers d"
  by (simp add: take_tools_def Let_def split: prod.split option.split)

lemma subscribers_judge: "judge L now q d = (x, d') \<Longrightarrow> dm_subscribers d' = dm_subscribers d"
  by (auto simp: judge_def Let_def split: outcome.splits option.splits if_splits)

lemma subscribers_conclude: "conclude L mtime q dec tool a d = (r, d') \<Longrightarrow> dm_subscribers d' = dm_subscribers d"
  by (auto simp: conclude_def record_override_def Let_def split: option.splits ipc_until.splits)

lemma subscribers_ask: "run_ask L course q dec tool timeout d = (r, out, d') \<Longrightarrow> dm_subscribers d' = dm_subscribers d"
  by (auto simp: run_ask_def open_prompt_def Let_def dest: subscribers_conclude split: if_splits course.splits prod.splits)

lemma subscribers_decide:
  "run_decide L now course q d = (v, out, d') \<Longrightarrow> dm_subscribers d' = dm_subscribers d"
  by (auto simp: run_decide_def Let_def dest!: subscribers_judge subscribers_ask
      split: prod.splits outcome.splits option.splits)

text \<open>What this connection has added to the count of its daemon.\<close>

definition counted :: "nat \<Rightarrow> 's conn \<Rightarrow> bool" where
  "counted n cn \<longleftrightarrow> dm_subscribers (cn_daemon cn) = n + (if cn_subscribed cn then 1 else 0)"

lemma counted_message:
  assumes "handle_message L e m cn = (cn', go)" and "counted n cn"
  shows "counted n cn'"
proof (cases m)
  case (CDecide q)
  obtain r out d where r: "run_decide L (mo_now e) (mo_course e) q (cn_daemon cn) = (r, out, d)" by (metis prod_cases3)
  then have "dm_subscribers d = dm_subscribers (cn_daemon cn)" by (rule subscribers_decide)
  then show ?thesis
    using assms CDecide r by (cases r) (auto simp: send_reply_def counted_def Let_def split: if_splits)
qed (use assms in \<open>auto simp: subscribe_def send_reply_def counted_def split: if_splits\<close>)

definition others_keep_count :: "'s arrival \<Rightarrow> bool" where
  "others_keep_count a \<longleftrightarrow> (case a of Arrived l e \<Rightarrow> (\<forall>d. dm_subscribers (mo_others e d) = dm_subscribers d) | Unreadable \<Rightarrow> True)"

lemma counted_loop:
  "connection_loop L arrivals cn = (cn', ok) \<Longrightarrow> counted n cn \<Longrightarrow> list_all others_keep_count arrivals \<Longrightarrow> counted n cn'"
proof (induction L arrivals cn rule: connection_loop.induct)
  case (3 L line e rest cn)
  let ?cn1 = "cn\<lparr>cn_daemon := mo_others e (cn_daemon cn)\<rparr>"
  have c1: "counted n ?cn1" using 3(4,5) by (simp add: counted_def others_keep_count_def)
  show ?case
  proof (cases "read_line L line")
    case None
    then show ?thesis using 3 c1 by simp
  next
    case (Some m)
    obtain cn2 go where h: "handle_message L e m ?cn1 = (cn2, go)" by fastforce
    show ?thesis
      using 3(2) [OF refl Some h [symmetric]] 3(3,5) Some h counted_message [OF h c1] by (cases go) auto
  qed
qed simp_all

text \<open>
  An interface that leaves in an orderly way is no longer counted: when the stream of a connection ends,
  the number of interfaces is what it was before it, whether it had subscribed or not and however often.  But the
  early returns of the loop, on an unreadable stream, a failed write or a panic, skip that line:
  an interface that goes that way is counted for ever, and calls are put to a user who is not there.
\<close>

theorem interfaces_are_counted:
  assumes "serve_connection L build first writable arrivals d = (cn, ok)" and "list_all others_keep_count arrivals"
  shows "dm_subscribers (cn_daemon cn) = dm_subscribers d + (if cn_subscribed cn \<and> \<not> ok then 1 else 0)"
proof -
  show ?thesis
  proof (cases "\<exists>hello. greet L build first d = Greeted hello True \<and> writable")
    case False
    then show ?thesis
      using assms(1) by (cases "greet L build first d") (auto simp: serve_connection_def Let_def split: if_splits)
  next
    case True
    then obtain hello where g: "greet L build first d = Greeted hello True" writable by blast
    let ?cn1 = "\<lparr>cn_daemon = d, cn_subscribed = False, cn_out = [lib_render L hello @ [NL]], cn_prompts = []\<rparr>"
    obtain cn2 ok2 where l: "connection_loop L arrivals ?cn1 = (cn2, ok2)" by fastforce
    have "counted (dm_subscribers d) cn2"
      by (rule counted_loop [OF l _ assms(2)]) (simp add: counted_def)
    moreover have "ok = ok2 \<and> cn = (if ok2 then unsubscribe cn2 else cn2)"
      using assms(1) g l by (cases ok2) (simp_all add: serve_connection_def Let_def)
    ultimately show ?thesis by (auto simp: counted_def unsubscribe_def)
  qed
qed

definition chatty_libs :: "(bytes, bytes list) libs" where
  "chatty_libs = plain_libs\<lparr>lib_parse := (\<lambda>s.
     if s = ''hello'' then Some (enc_hello (hello_default ''t''))
     else if s = ''sub'' then Some (enc_client CSubscribe)
     else if s = ''status'' then Some (enc_client CStatus) else None)\<rparr>"

definition a_moment :: "bytes list moment" where
  "a_moment = \<lparr>mo_now = 0, mo_ms = 0, mo_db_ok = False, mo_course = Silence, mo_writable = True, mo_others = (\<lambda>d. d)\<rparr>"

lemma chatty_lines:
  "read_line chatty_libs ''sub'' = Some CSubscribe" "read_line chatty_libs ''status'' = Some CStatus"
  "greet chatty_libs b (Some ''hello'') d = Greeted (enc_hello ((hello_default b)
     \<lparr>h_ask_timeout := Some (pf_ask_timeout (p_file (dm_policy d)))\<rparr>)) True"
proof -
  have "dec_client (enc_client CSubscribe) = Some CSubscribe" "dec_client (enc_client CStatus) = Some CStatus"
    "dec_hello (enc_hello (hello_default ''t'')) = Some (hello_default ''t'')"
    by (simp_all add: dec_enc_client dec_enc_hello hello_wf_def hello_default_def IPC_VERSION_def
        del: enc_client.simps)
  moreover have "\<not> trims_to_nothing ''sub''" "\<not> trims_to_nothing ''status''" by code_simp+
  ultimately show "read_line chatty_libs ''sub'' = Some CSubscribe" "read_line chatty_libs ''status'' = Some CStatus"
    "greet chatty_libs b (Some ''hello'') d = Greeted (enc_hello ((hello_default b)
     \<lparr>h_ask_timeout := Some (pf_ask_timeout (p_file (dm_policy d)))\<rparr>)) True"
    by (simp_all add: read_line_def greet_def chatty_libs_def compatible_def hello_default_def
        del: enc_client.simps)
qed

theorem one_line_per_question_witness:
  "\<exists>cn h a. serve_connection chatty_libs ''b'' (Some ''hello'') True [Arrived ''x'' a_moment, Arrived ''status'' a_moment]
     (plain_daemon policy_file_default) = (cn, True) \<and> \<not> cn_subscribed cn \<and>
     cn_out cn = [h, reply_line chatty_libs (SStatus (daemon_status False 0 (plain_daemon policy_file_default)))]"
proof -
  let ?as = "[Arrived ''x'' a_moment, Arrived ''status'' a_moment]"
  let ?d = "plain_daemon policy_file_default"
  have x: "read_line chatty_libs ''x'' = None" by (simp add: read_line_def chatty_libs_def)
  have q: "questions chatty_libs ?as = [CStatus]" by (simp add: chatty_lines x)
  obtain cn where s: "serve_connection chatty_libs ''b'' (Some ''hello'') True ?as ?d = (cn, True)" "\<not> cn_subscribed cn"
    by (simp add: serve_connection_def chatty_lines x Let_def send_reply_def a_moment_def unsubscribe_def)
  have o: "on_socket cn [] (cn_out cn)" using s(2) by (simp add: on_socket_def)
  note line = one_line_per_question [OF s(1) chatty_lines(3) o s(2), unfolded q]
  have len: "length (cn_out cn) = 2" using line by simp
  have at: "?as = [Arrived ''x'' a_moment] @ Arrived ''status'' a_moment # []" by simp
  have "\<forall>before line e rest m. ?as = before @ Arrived line e # rest \<longrightarrow> read_line chatty_libs line = Some m \<longrightarrow> asked m \<longrightarrow>
      Suc (length (questions chatty_libs before)) < length (cn_out cn) \<longrightarrow>
      (\<exists>cn1 a. connection_loop chatty_libs before (opened chatty_libs (enc_hello ((hello_default ''b'')
          \<lparr>h_ask_timeout := Some (pf_ask_timeout (p_file (dm_policy ?d)))\<rparr>)) ?d) = (cn1, True) \<and>
        answers_now chatty_libs e m (mo_others e (cn_daemon cn1)) a \<and>
        cn_out cn ! Suc (length (questions chatty_libs before)) = reply_line chatty_libs a)"
    using line by blast
  note this [rule_format, OF at chatty_lines(2)]
  then obtain cn1 a where c: "connection_loop chatty_libs [Arrived ''x'' a_moment] (opened chatty_libs (enc_hello ((hello_default ''b'')
      \<lparr>h_ask_timeout := Some (pf_ask_timeout (p_file (dm_policy ?d)))\<rparr>)) ?d) = (cn1, True)"
    "answers_now chatty_libs a_moment CStatus (mo_others a_moment (cn_daemon cn1)) a"
    "cn_out cn ! 1 = reply_line chatty_libs a"
    using len x by auto
  then have "a = SStatus (daemon_status False 0 ?d)" by (auto simp: x opened_def a_moment_def)
  then show ?thesis using s c(3) len by (cases "cn_out cn") (auto simp: length_Suc_conv)
qed

theorem interfaces_are_counted_witness:
  "\<exists>cn cn'. serve_connection chatty_libs ''b'' (Some ''hello'') True [Arrived ''sub'' a_moment]
     (plain_daemon policy_file_default) = (cn, True) \<and> dm_subscribers (cn_daemon cn) = 0 \<and>
   serve_connection chatty_libs ''b'' (Some ''hello'') True [Arrived ''sub'' a_moment, Unreadable]
     (plain_daemon policy_file_default) = (cn', False) \<and> dm_subscribers (cn_daemon cn') = 1"
proof -
  let ?d = "plain_daemon policy_file_default"
  have o: "list_all others_keep_count [Arrived ''sub'' a_moment]"
    "list_all others_keep_count [Arrived ''sub'' a_moment, Unreadable]"
    by (simp_all add: others_keep_count_def a_moment_def)
  have n: "dm_subscribers ?d = 0" by (simp add: plain_daemon_def daemon_new_def)
  obtain cn where s: "serve_connection chatty_libs ''b'' (Some ''hello'') True [Arrived ''sub'' a_moment] ?d = (cn, True)"
    by (simp add: serve_connection_def chatty_lines Let_def)
  obtain cn' where s': "serve_connection chatty_libs ''b'' (Some ''hello'') True [Arrived ''sub'' a_moment, Unreadable] ?d = (cn', False)"
    "cn_subscribed cn'"
    by (simp add: serve_connection_def chatty_lines Let_def subscribe_def)
  show ?thesis
    using interfaces_are_counted [OF s o(1)] interfaces_are_counted [OF s'(1) o(2)] s s' n by auto
qed

end
