(* ===== verification/Wire_Types.thy ===== *)
theory Wire_Types
  imports Connection
begin

text \<open>
  The types of what the daemon sends: the \<open>u64\<close> and \<open>u32\<close> fields of its messages hold values of these
  types in every state, so that the other end reads what was meant.
\<close>

section \<open>A well-typed daemon\<close>

definition daemon_wf :: "'s daemon \<Rightarrow> bool" where
  "daemon_wf d \<longleftrightarrow> is_u64 (dm_next_prompt d) \<and> list_all is_u64 (dm_pending d) \<and> is_u64 (pf_ask_timeout (p_file (dm_policy d)))"

lemma optional_u64: "optional k as_u64 n m = Some t \<Longrightarrow> is_u64 n \<Longrightarrow> is_u64 t"
  by (auto simp: optional_def as_u64_def is_u64_def split: option.splits json.splits if_splits)

lemma de_policy_timeout:
  assumes "de_policy v = Some f"
  shows "is_u64 (pf_ask_timeout f)"
proof -
  have "is_u64 default_ask_timeout" by (simp add: is_u64_def default_ask_timeout_def)
  moreover obtain m where "optional ''ask_timeout_seconds'' as_u64 default_ask_timeout m = Some (pf_ask_timeout f)"
    using assms unfolding de_policy_def bind_eq_Some_conv by force
  ultimately show ?thesis using optional_u64 by blast
qed

lemma reload_timeout:
  "is_u64 (pf_ask_timeout (p_file p)) \<Longrightarrow> is_u64 (pf_ask_timeout (p_file (snd (reload_if_changed G home yaml dsk p))))"
  by (auto simp: reload_if_changed_def load_policy_def parse_policy_def compile_policy_def Let_def bind_eq_Some_conv
      dest: de_policy_timeout split: option.splits if_splits)

lemma wf_kept [simp]:
  "daemon_wf (drift_remove sv t d) = daemon_wf d"
  "daemon_wf (take_taint now tr d) = daemon_wf d"
  "daemon_wf (persist L mtime sk tl' al d) = daemon_wf d"
  "daemon_wf (drift_extend sv ts d) = daemon_wf d"
  "daemon_wf (d\<lparr>dm_overrides := ovs\<rparr>) = daemon_wf d"
  "daemon_wf (d\<lparr>dm_subscribers := n\<rparr>) = daemon_wf d"
  "daemon_wf (d\<lparr>dm_db := db'\<rparr>) = daemon_wf d"
  by (simp_all add: daemon_wf_def drift_remove_def take_taint_def persist_def drift_extend_def Let_def
      split: option.splits)

lemma wf_tools [simp]: "daemon_wf (take_tools io_ok now tr d) = daemon_wf d"
  by (simp add: take_tools_def Let_def split: prod.split option.split)

lemma wf_close: "daemon_wf d \<Longrightarrow> daemon_wf (close_prompt i d)"
  by (simp add: daemon_wf_def close_prompt_def list_all_iff)

lemma wf_open: "daemon_wf d \<Longrightarrow> open_prompt d = (i, d') \<Longrightarrow> daemon_wf d' \<and> is_u64 i"
  by (auto simp: daemon_wf_def open_prompt_def is_u64_def Let_def)

lemma wf_judge:
  assumes "judge L now q d = (x, d')" and "daemon_wf d"
  shows "daemon_wf d' \<and> (\<forall>dec tool timeout. x = Returned (dec, tool, timeout) \<longrightarrow> is_u64 timeout)"
proof -
  let ?p = "snd (reload_if_changed (lib_globs L) (lib_home L) (lib_yaml L) (dm_disk d) (dm_policy d))"
  have "is_u64 (pf_ask_timeout (p_file ?p))" using assms(2) by (intro reload_timeout) (simp add: daemon_wf_def)
  moreover from this have "daemon_wf (d\<lparr>dm_policy := ?p\<rparr>)" using assms(2) by (simp add: daemon_wf_def)
  ultimately show ?thesis
    using assms(1) by (auto simp: judge_def Let_def split: outcome.splits option.splits if_splits)
qed

lemma wf_conclude: "conclude L mtime q dec tool a d = (r, d') \<Longrightarrow> daemon_wf d \<Longrightarrow> daemon_wf d'"
  by (auto simp: conclude_def record_override_def Let_def split: option.splits ipc_until.splits)

lemma wf_ask:
  assumes "run_ask L course q dec tool timeout d = (r, out, d')" and "daemon_wf d" and "is_u64 timeout"
  shows "daemon_wf d' \<and> list_all server_wf out"
proof (cases "dm_subscribers d = 0")
  case True
  then show ?thesis using assms by (auto simp: run_ask_def)
next
  case False
  obtain i d1 where o: "open_prompt d = (i, d1)" by fastforce
  then have w: "daemon_wf (close_prompt i d1)" "is_u64 i" using wf_open [OF assms(2)] wf_close by blast+
  then have p: "server_wf (SPrompt (make_prompt L i q dec tool timeout))" using assms(3) by (simp add: make_prompt_def)
  show ?thesis
  proof (cases course)
    case (Replied allow un mtime)
    obtain r' d3 where c: "conclude L mtime q dec tool \<lparr>an_prompt = i, an_allow = allow, an_until = un\<rparr> (close_prompt i d1) = (r', d3)"
      by fastforce
    then show ?thesis using assms(1) False o p Replied wf_conclude [OF c w(1)] by (auto simp: run_ask_def)
  qed (use assms(1) False o w p in \<open>auto simp: run_ask_def\<close>)
qed

lemma wf_decide:
  assumes "run_decide L now course q d = (v, out, d')" and "daemon_wf d"
  shows "daemon_wf d' \<and> list_all server_wf out"
proof -
  obtain x d1 where j: "judge L now q d = (x, d1)" by fastforce
  show ?thesis
  proof (cases x)
    case Panicked
    then show ?thesis using assms j wf_judge [OF j] by (auto simp: run_decide_def)
  next
    case (Returned y)
    obtain dec tool timeout where y: "y = (dec, tool, timeout)" by (cases y) auto
    then have w: "daemon_wf d1" "is_u64 timeout" using wf_judge [OF j assms(2)] Returned by auto
    show ?thesis
    proof (cases "settle q dec tool d1")
      case None
      obtain r out' d2 where a: "run_ask L course q dec tool timeout d1 = (r, out', d2)" by (metis prod_cases3)
      then show ?thesis using assms(1) j Returned y None wf_ask [OF a w] by (simp add: run_decide_def)
    qed (use assms(1) j Returned y w in \<open>simp add: run_decide_def\<close>)
  qed
qed

section \<open>A well-typed connection\<close>

definition conn_wf :: "'s conn \<Rightarrow> bool" where
  "conn_wf cn \<longleftrightarrow> daemon_wf (cn_daemon cn) \<and> list_all server_wf (cn_prompts cn)"

definition others_keep_types :: "'s arrival \<Rightarrow> bool" where
  "others_keep_types a \<longleftrightarrow> (case a of Arrived l e \<Rightarrow> (\<forall>d. daemon_wf d \<longrightarrow> daemon_wf (mo_others e d)) | Unreadable \<Rightarrow> True)"

lemma wf_message:
  assumes "handle_message L e m cn = (cn', go)" and "conn_wf cn"
  shows "conn_wf cn'"
proof (cases m)
  case (CDecide q)
  obtain r out d where r: "run_decide L (mo_now e) (mo_course e) q (cn_daemon cn) = (r, out, d)" by (metis prod_cases3)
  then have "daemon_wf d \<and> list_all server_wf out" by (rule wf_decide) (use assms(2) in \<open>simp add: conn_wf_def\<close>)
  then show ?thesis
    using assms CDecide r by (cases r) (auto simp: send_reply_def conn_wf_def Let_def split: if_splits)
qed (use assms in \<open>auto simp: subscribe_def send_reply_def conn_wf_def wf_close split: if_splits\<close>)

lemma wf_loop:
  "connection_loop L arrivals cn = (cn', ok) \<Longrightarrow> conn_wf cn \<Longrightarrow> list_all others_keep_types arrivals \<Longrightarrow> conn_wf cn'"
proof (induction L arrivals cn rule: connection_loop.induct)
  case (3 L line e rest cn)
  let ?cn1 = "cn\<lparr>cn_daemon := mo_others e (cn_daemon cn)\<rparr>"
  have c1: "conn_wf ?cn1" using 3(4,5) by (simp add: conn_wf_def others_keep_types_def)
  show ?case
  proof (cases "read_line L line")
    case None
    then show ?thesis using 3 c1 by simp
  next
    case (Some m)
    obtain cn2 go where h: "handle_message L e m ?cn1 = (cn2, go)" by fastforce
    show ?thesis
      using 3(2) [OF refl Some h [symmetric]] 3(3,5) Some h wf_message [OF h c1] by (cases go) auto
  qed
qed simp_all

lemma wf_serve:
  assumes "serve_connection L build first writable arrivals d = (cn, ok)" and "daemon_wf d"
    and "list_all others_keep_types arrivals"
  shows "conn_wf cn"
proof -
  have start: "conn_wf \<lparr>cn_daemon = d, cn_subscribed = False, cn_out = out, cn_prompts = []\<rparr>" for out
    using assms(2) by (simp add: conn_wf_def)
  show ?thesis
  proof (cases "\<exists>hello. greet L build first d = Greeted hello True \<and> writable")
    case False
    then show ?thesis using assms(1) start
      by (cases "greet L build first d") (auto simp: serve_connection_def Let_def split: if_splits)
  next
    case True
    then obtain hello where g: "greet L build first d = Greeted hello True" writable by blast
    obtain cn2 ok2 where l: "connection_loop L arrivals
        \<lparr>cn_daemon = d, cn_subscribed = False, cn_out = [lib_render L hello @ [NL]], cn_prompts = []\<rparr> = (cn2, ok2)"
      by fastforce
    have "conn_wf cn2" by (rule wf_loop [OF l start assms(3)])
    moreover have "cn = (if ok2 then unsubscribe cn2 else cn2)"
      using assms(1) g l by (cases ok2) (simp_all add: serve_connection_def Let_def)
    ultimately show ?thesis by (auto simp: conn_wf_def unsubscribe_def)
  qed
qed

text \<open>
  The daemon stays well typed and is understood: from a state whose prompt ids and ask timeout fit a
  \<open>u64\<close>, whatever arrives on a connection, a reload of the policy and the wrap-around of the prompt counter
  included, leaves such a state; the hello it greets with and every prompt and withdrawal it
  sends to the interfaces decode there to the very message, with its id and its timeout.
\<close>

theorem what_is_sent_is_understood:
  assumes "serve_connection L build first writable arrivals d = (cn, ok)" and "daemon_wf d"
    and "list_all others_keep_types arrivals"
  shows "daemon_wf (cn_daemon cn) \<and> list_all (\<lambda>m. dec_server (enc_server m) = Some m) (cn_prompts cn) \<and>
    (case greet L build first d of Hangup \<Rightarrow> True | Greeted hello ok' \<Rightarrow>
       dec_hello hello = Some \<lparr>h_version = 2, h_build = build, h_ask_timeout = Some (pf_ask_timeout (p_file (dm_policy d)))\<rparr>)"
proof -
  have w: "conn_wf cn" using wf_serve [OF assms] .
  then have "list_all (\<lambda>m. dec_server (enc_server m) = Some m) (cn_prompts cn)"
    by (auto simp: conn_wf_def list_all_iff dec_enc_server simp del: enc_server.simps)
  moreover have "hello_wf \<lparr>h_version = 2, h_build = build, h_ask_timeout = Some (pf_ask_timeout (p_file (dm_policy d)))\<rparr>"
    using assms(2) by (simp add: hello_wf_def daemon_wf_def)
  then have "case greet L build first d of Hangup \<Rightarrow> True | Greeted hello ok' \<Rightarrow>
      dec_hello hello = Some \<lparr>h_version = 2, h_build = build, h_ask_timeout = Some (pf_ask_timeout (p_file (dm_policy d)))\<rparr>"
    by (auto simp: greet_def hello_default_def IPC_VERSION_def dec_enc_hello split: option.splits)
  ultimately show ?thesis using w by (simp add: conn_wf_def)
qed

theorem what_is_sent_is_understood_witness:
  "\<exists>cn. serve_connection chatty_libs ''b'' (Some ''hello'') True [Arrived ''sub'' a_moment]
      (plain_daemon policy_file_default) = (cn, True) \<and> daemon_wf (cn_daemon cn) \<and>
    dec_hello (enc_hello \<lparr>h_version = 2, h_build = ''b'', h_ask_timeout = Some 60\<rparr>) =
      Some \<lparr>h_version = 2, h_build = ''b'', h_ask_timeout = Some 60\<rparr>"
proof -
  let ?d = "plain_daemon policy_file_default"
  have w: "daemon_wf ?d" "pf_ask_timeout (p_file (dm_policy ?d)) = 60"
    by (simp_all add: daemon_wf_def plain_daemon_def daemon_new_def compile_policy_def policy_file_default_def
        default_ask_timeout_def is_u64_def)
  have o: "list_all others_keep_types [Arrived ''sub'' a_moment]" by (simp add: others_keep_types_def a_moment_def)
  obtain cn where s: "serve_connection chatty_libs ''b'' (Some ''hello'') True [Arrived ''sub'' a_moment] ?d = (cn, True)"
    by (simp add: serve_connection_def chatty_lines Let_def)
  show ?thesis
    using what_is_sent_is_understood [OF s w(1) o] s w(2)
    by (simp add: chatty_lines hello_default_def IPC_VERSION_def)
qed

end
