(* ===== verification/Session.thy ===== *)
theory Session
  imports Relay
begin

text \<open>
  \<open>transport/session.rs\<close>: how a session with an upstream process is set up and how it ends.  Which of the
  three ends comes first, how the process reacts and what fails are arguments; the value is what \<open>run\<close> returns
  and what is done to the process.
\<close>

section \<open>Configuration\<close>

record session_config =
  sc_program :: bytes
  sc_args :: "bytes list"
  sc_max_frame_bytes :: nat
  sc_project :: "bytes option"

definition session_config_new :: "bytes \<Rightarrow> bytes list \<Rightarrow> session_config" where
  "session_config_new program args = \<lparr>sc_program = program, sc_args = args,
     sc_max_frame_bytes = DEFAULT_MAX_FRAME_BYTES, sc_project = None\<rparr>"

text \<open>The two pumps share the decision point; only the upward one has a return path.\<close>

definition up_pump :: "session_config \<Rightarrow> 'd point \<Rightarrow> 'd pump" where
  "up_pump c pt = \<lparr>pu_direction = ToServer, pu_max = sc_max_frame_bytes c, pu_point = pt, pu_return = True\<rparr>"

definition down_pump :: "session_config \<Rightarrow> 'd point \<Rightarrow> 'd pump" where
  "down_pump c pt = \<lparr>pu_direction = ToClient, pu_max = sc_max_frame_bytes c, pu_point = pt, pu_return = False\<rparr>"

section \<open>The end\<close>

record exit_status =
  es_code :: "int option"
  es_signal :: "int option"

definition exit_code :: "exit_status \<Rightarrow> int" where
  "exit_code st =
     (case es_code st of
        Some c \<Rightarrow> c
      | None \<Rightarrow> (case es_signal st of Some sig \<Rightarrow> 128 + sig | None \<Rightarrow> 1))"

datatype term_signal = SigTerm | SigInt

fun term_signal_str :: "term_signal \<Rightarrow> bytes" where
  "term_signal_str SigTerm = ''SIGTERM''"
| "term_signal_str SigInt = ''SIGINT''"

text \<open>What is done to the process, in order.\<close>

datatype blow = Send term_signal | ForceKill

definition terminate :: "bool \<Rightarrow> bool \<Rightarrow> term_signal \<Rightarrow> blow list" where
  "terminate has_pid dies_in_time sig =
     (if has_pid then [Send sig] else []) @ (if dies_in_time then [] else [ForceKill])"

datatype first_end = UpstreamExited | Signalled "term_signal option" | ClientClosed

text \<open>\<open>obeys_close\<close>: does it exit in the grace after its stdin is closed; \<open>obeys_signal\<close>: after a signal.\<close>

definition session_end :: "bool \<Rightarrow> bool \<Rightarrow> bool \<Rightarrow> first_end \<Rightarrow> blow list" where
  "session_end has_pid obeys_close obeys_signal e =
     (case e of
        UpstreamExited \<Rightarrow> []
      | Signalled sig \<Rightarrow> terminate has_pid obeys_signal (case sig of Some s \<Rightarrow> s | None \<Rightarrow> SigTerm)
      | ClientClosed \<Rightarrow> if obeys_close then [] else terminate has_pid obeys_signal SigTerm)"

section \<open>No orphan and no false success\<close>

text \<open>A process is gone when it left by itself, obeyed, or was killed.\<close>

definition gone :: "bool \<Rightarrow> bool \<Rightarrow> first_end \<Rightarrow> blow list \<Rightarrow> bool" where
  "gone obeys_close obeys_signal e blows \<longleftrightarrow>
     e = UpstreamExited \<or> (e = ClientClosed \<and> obeys_close) \<or>
     (obeys_signal \<and> (\<exists>s. Send s \<in> set blows)) \<or> ForceKill \<in> set blows"

lemma no_orphan: "gone obeys_close obeys_signal e (session_end True obeys_close obeys_signal e)"
  by (cases e) (auto simp: gone_def session_end_def terminate_def)

lemma killed_is_no_success: "es_code st = None \<Longrightarrow> es_signal st \<noteq> Some (- 128) \<Longrightarrow> exit_code st \<noteq> 0"
  by (auto simp: exit_code_def split: option.splits)

section \<open>The whole of \<open>run\<close>\<close>

text \<open>
  What the system does with a session: whether the program starts, gives its two pipes and lets the signals be
  listened to; what comes first; how the process reacts; and what waiting for it gives.
\<close>

record fate =
  ft_starts :: bool
  ft_stdin :: bool
  ft_stdout :: bool
  ft_signals :: bool
  ft_first :: first_end
  ft_has_pid :: bool
  ft_obeys_close :: bool
  ft_obeys_signal :: bool
  ft_status :: "exit_status option"

datatype session_error = NotStarted | NoStdin | NoStdout | NoSignals | NotWaitedFor

text \<open>\<open>kill_on_drop\<close>: a process whose handle goes away before it was waited for is killed.\<close>

definition session_run :: "fate \<Rightarrow> (session_error + int) \<times> blow list" where
  "session_run f =
     (if \<not> ft_starts f then (Inl NotStarted, [])
      else if \<not> ft_stdin f then (Inl NoStdin, [ForceKill])
      else if \<not> ft_stdout f then (Inl NoStdout, [ForceKill])
      else if \<not> ft_signals f then (Inl NoSignals, [ForceKill])
      else
        (let blows = session_end (ft_has_pid f) (ft_obeys_close f) (ft_obeys_signal f) (ft_first f) in
         case ft_status f of
           None \<Rightarrow> (Inl NotWaitedFor, blows @ [ForceKill])
         | Some st \<Rightarrow> (Inr (exit_code st), blows)))"

text \<open>
  No orphan and no false success: on every way through a session, early errors included, a process that
  was started and not yet reaped has left by itself, obeyed or been killed when \<open>run\<close> returns; and \<open>run\<close> returns the
  code zero only for a process that exited with zero, never for one that a signal killed.
\<close>

theorem no_session_leaves_an_orphan:
  assumes "session_run f = (res, blows)" and "ft_starts f" and "ft_has_pid f"
    and "\<forall>st sig. ft_status f = Some st \<longrightarrow> es_signal st = Some sig \<longrightarrow> 0 < sig"
  shows "gone (ft_obeys_close f) (ft_obeys_signal f) (ft_first f) blows \<and>
    (res = Inr 0 \<longrightarrow> (\<exists>st. ft_status f = Some st \<and> es_code st = Some 0))"
proof
  let ?blows = "session_end True (ft_obeys_close f) (ft_obeys_signal f) (ft_first f)"
  have "blows = ?blows \<or> ForceKill \<in> set blows"
    using assms(1-3) by (auto simp: session_run_def Let_def split: if_splits option.splits)
  then show "gone (ft_obeys_close f) (ft_obeys_signal f) (ft_first f) blows"
    using no_orphan by (auto simp: gone_def)
  show "res = Inr 0 \<longrightarrow> (\<exists>st. ft_status f = Some st \<and> es_code st = Some 0)"
  proof
    assume "res = Inr 0"
    then obtain st where st: "ft_status f = Some st" "exit_code st = 0"
      using assms(1) by (auto simp: session_run_def Let_def split: if_splits option.splits)
    then have "es_code st = Some 0"
      using assms(4) st(1) by (fastforce simp: exit_code_def split: option.splits)
    then show "\<exists>st. ft_status f = Some st \<and> es_code st = Some 0" using st by blast
  qed
qed

theorem no_session_leaves_an_orphan_witness:
  "gone False False (Signalled None) (snd (session_run \<lparr>ft_starts = True, ft_stdin = True, ft_stdout = True,
     ft_signals = True, ft_first = Signalled None, ft_has_pid = True, ft_obeys_close = False, ft_obeys_signal = False,
     ft_status = Some \<lparr>es_code = None, es_signal = Some 9\<rparr>\<rparr>))"
  using no_session_leaves_an_orphan [OF prod.collapse [symmetric], of "\<lparr>ft_starts = True, ft_stdin = True, ft_stdout = True,
     ft_signals = True, ft_first = Signalled None, ft_has_pid = True, ft_obeys_close = False, ft_obeys_signal = False,
     ft_status = Some \<lparr>es_code = None, es_signal = Some 9\<rparr>\<rparr>"]
  by (auto split: if_splits)

end
