(* ===== verification/Session_System.thy ===== *)
theory Session_System
  imports Session
begin

text \<open>
  A session as \<open>run\<close> of \<open>transport/session.rs\<close> sets it up: two pumps that run on their own, one decision point,
  and the channel for refusals from the upward pump to the downward one.  A step is what a pump does between
  two awaits: a read, one frame, a refusal taken from the channel, the end of its stream.
\<close>

section \<open>States and steps\<close>

datatype pump_phase = Reading | Draining | Finished

record 'd session =
  se_up :: splitter
  se_up_phase :: pump_phase
  se_down :: splitter
  se_down_phase :: pump_phase
  se_server :: bytes
  se_client :: bytes
  se_queue :: "bytes list"
  se_notes :: "notice list"
  se_point :: 'd

definition session_start :: "session_config \<Rightarrow> 'd \<Rightarrow> 'd session" where
  "session_start c d =
     \<lparr>se_up = splitter_new (sc_max_frame_bytes c), se_up_phase = Reading,
      se_down = splitter_new (sc_max_frame_bytes c), se_down_phase = Reading,
      se_server = [], se_client = [], se_queue = [], se_notes = [], se_point = d\<rparr>"

text \<open>The session as the upward pump sees it, and as the downward one does.\<close>

definition as_up :: "'d session \<Rightarrow> 'd relay" where
  "as_up s = \<lparr>rl_out = se_server s, rl_denied = se_queue s, rl_notes = se_notes s, rl_state = se_point s\<rparr>"

definition from_up :: "'d relay \<Rightarrow> 'd session \<Rightarrow> 'd session" where
  "from_up r s = s\<lparr>se_server := rl_out r, se_queue := rl_denied r, se_notes := rl_notes r, se_point := rl_state r\<rparr>"

definition as_down :: "'d session \<Rightarrow> 'd relay" where
  "as_down s = \<lparr>rl_out = se_client s, rl_denied = [], rl_notes = se_notes s, rl_state = se_point s\<rparr>"

definition from_down :: "'d relay \<Rightarrow> 'd session \<Rightarrow> 'd session" where
  "from_down r s = s\<lparr>se_client := rl_out r, se_notes := rl_notes r, se_point := rl_state r\<rparr>"

text \<open>A step is labelled with what happened; a frame going up with the verdict on it.\<close>

datatype act =
  UpRead bytes
| UpResult "frame_error + frame" "verdict option"
| UpEnd "(frame \<times> verdict option) option"
| DownRead bytes
| DownResult "frame_error + frame"
| DownEnd "frame option"
| Delivered bytes
| Quiet

definition verdict_now :: "'d pump \<Rightarrow> frame \<Rightarrow> 'd session \<Rightarrow> verdict option" where
  "verdict_now P f s = fst (verdict_on P f (se_point s))"

inductive session_step ::
  "(char \<Rightarrow> bytes \<Rightarrow> nat option) \<Rightarrow> parser \<Rightarrow> printer \<Rightarrow> session_config \<Rightarrow> 'd point
     \<Rightarrow> 'd session \<Rightarrow> act \<Rightarrow> 'd session \<Rightarrow> bool"
  for mc :: "char \<Rightarrow> bytes \<Rightarrow> nat option" and parse :: parser and render :: printer
    and c :: session_config and pt :: "'d point" where
  up_read: "se_up_phase s = Reading \<Longrightarrow> chunk \<noteq> [] \<Longrightarrow>
    session_step mc parse render c pt s (UpRead chunk) (s\<lparr>se_up := push chunk (se_up s), se_up_phase := Draining\<rparr>)"
| up_result: "se_up_phase s = Draining \<Longrightarrow> next_frame mc (se_up s) = Some (Some x, sp) \<Longrightarrow>
    session_step mc parse render c pt s
      (UpResult x (case x of Inr f \<Rightarrow> verdict_now (up_pump c pt) f s | Inl e \<Rightarrow> None))
      (from_up (handle_result parse render (up_pump c pt) x (as_up s)) (s\<lparr>se_up := sp\<rparr>))"
| up_drained: "se_up_phase s = Draining \<Longrightarrow> next_frame mc (se_up s) = Some (None, sp) \<Longrightarrow>
    session_step mc parse render c pt s Quiet (s\<lparr>se_up := sp, se_up_phase := Reading\<rparr>)"
| up_end: "se_up_phase s = Reading \<Longrightarrow>
    session_step mc parse render c pt s
      (UpEnd (map_option (\<lambda>f. (f, verdict_now (up_pump c pt) f s)) (fst (finish (se_up s)))))
      (from_up (pump_end parse render (up_pump c pt) (se_up s) (as_up s)) (s\<lparr>se_up_phase := Finished\<rparr>))"
| down_read: "se_down_phase s = Reading \<Longrightarrow> chunk \<noteq> [] \<Longrightarrow>
    session_step mc parse render c pt s (DownRead chunk)
      (s\<lparr>se_down := push chunk (se_down s), se_down_phase := Draining\<rparr>)"
| down_result: "se_down_phase s = Draining \<Longrightarrow> next_frame mc (se_down s) = Some (Some x, sp) \<Longrightarrow>
    session_step mc parse render c pt s (DownResult x)
      (from_down (handle_result parse render (down_pump c pt) x (as_down s)) (s\<lparr>se_down := sp\<rparr>))"
| down_drained: "se_down_phase s = Draining \<Longrightarrow> next_frame mc (se_down s) = Some (None, sp) \<Longrightarrow>
    session_step mc parse render c pt s Quiet (s\<lparr>se_down := sp, se_down_phase := Reading\<rparr>)"
| down_end: "se_down_phase s = Reading \<Longrightarrow>
    session_step mc parse render c pt s (DownEnd (fst (finish (se_down s))))
      (from_down (pump_end parse render (down_pump c pt) (se_down s) (as_down s)) (s\<lparr>se_down_phase := Finished\<rparr>))"
| delivers: "se_down_phase s = Reading \<Longrightarrow> se_queue s = p # q \<Longrightarrow>
    session_step mc parse render c pt s (Delivered p) (s\<lparr>se_client := se_client s @ p, se_queue := q\<rparr>)"

inductive session_run ::
  "(char \<Rightarrow> bytes \<Rightarrow> nat option) \<Rightarrow> parser \<Rightarrow> printer \<Rightarrow> session_config \<Rightarrow> 'd point
     \<Rightarrow> 'd session \<Rightarrow> act list \<Rightarrow> 'd session \<Rightarrow> bool"
  for mc :: "char \<Rightarrow> bytes \<Rightarrow> nat option" and parse :: parser and render :: printer
    and c :: session_config and pt :: "'d point" and s0 :: "'d session" where
  nothing: "session_run mc parse render c pt s0 [] s0"
| another: "session_run mc parse render c pt s0 as s \<Longrightarrow> session_step mc parse render c pt s a s' \<Longrightarrow>
    session_run mc parse render c pt s0 (as @ [a]) s'"

section \<open>What the labels say\<close>

definition last_bytes :: "frame \<Rightarrow> bytes" where
  "last_bytes f = raw f @ (if is_terminated f then [] else [NL])"

fun to_server :: "act \<Rightarrow> bytes" where
  "to_server (UpResult (Inr f) v) = (if is_deny v then [] else raw f)"
| "to_server (UpEnd (Some (f, v))) = (if is_deny v then [] else last_bytes f)"
| "to_server a = []"

fun to_client :: "act \<Rightarrow> bytes" where
  "to_client (DownResult (Inr f)) = raw f"
| "to_client (DownEnd (Some f)) = last_bytes f"
| "to_client (Delivered p) = p"
| "to_client a = []"

fun refused :: "parser \<Rightarrow> printer \<Rightarrow> act \<Rightarrow> bytes list" where
  "refused parse render (UpResult (Inr f) v) = refusal parse render (f, v)"
| "refused parse render (UpEnd (Some fv)) = refusal parse render fv"
| "refused parse render a = []"

fun delivered :: "act \<Rightarrow> bytes list" where
  "delivered (Delivered p) = [p]"
| "delivered a = []"

fun up_chunk :: "act \<Rightarrow> bytes" where
  "up_chunk (UpRead b) = b" | "up_chunk a = []"

fun down_chunk :: "act \<Rightarrow> bytes" where
  "down_chunk (DownRead b) = b" | "down_chunk a = []"

fun up_seen :: "act \<Rightarrow> (frame_error + frame) list" where
  "up_seen (UpResult x v) = [x]" | "up_seen a = []"

fun down_seen :: "act \<Rightarrow> (frame_error + frame) list" where
  "down_seen (DownResult x) = [x]" | "down_seen a = []"

section \<open>One step\<close>

lemma down_verdict [simp]: "fst (verdict_on (down_pump c pt) f d) = None"
  by (simp add: verdict_on_def judge_frame_def down_pump_def)

lemma up_returns [simp]: "pu_return (up_pump c pt)" and down_keeps [simp]: "\<not> pu_return (down_pump c pt)"
  by (simp_all add: up_pump_def down_pump_def)

lemma handle_result_parts:
  "rl_out (handle_result parse render P x r) = rl_out r @
     (case x of Inr f \<Rightarrow> if is_deny (fst (verdict_on P f (rl_state r))) then [] else raw f | Inl e \<Rightarrow> [])"
  "rl_denied (handle_result parse render P x r) = rl_denied r @
     (case x of Inr f \<Rightarrow> if pu_return P then refusal parse render (f, fst (verdict_on P f (rl_state r))) else [] | Inl e \<Rightarrow> [])"
proof -
  have "rl_out (handle_result parse render P (Inr f) r) = rl_out r @
      (if is_deny (fst (verdict_on P f (rl_state r))) then [] else raw f) \<and>
    rl_denied (handle_result parse render P (Inr f) r) = rl_denied r @
      (if pu_return P then refusal parse render (f, fst (verdict_on P f (rl_state r))) else [])" for f
  proof -
    obtain w r' v d where h: "handle parse render P f r = (w, r')" "verdict_on P f (rl_state r) = (v, d)"
      by (meson surj_pair)
    then show ?thesis using handle_parts [OF h] by simp
  qed
  then show "rl_out (handle_result parse render P x r) = rl_out r @
     (case x of Inr f \<Rightarrow> if is_deny (fst (verdict_on P f (rl_state r))) then [] else raw f | Inl e \<Rightarrow> [])"
    "rl_denied (handle_result parse render P x r) = rl_denied r @
     (case x of Inr f \<Rightarrow> if pu_return P then refusal parse render (f, fst (verdict_on P f (rl_state r))) else [] | Inl e \<Rightarrow> [])"
    by (cases x; cases "projl x"; simp)+
qed

lemma pump_end_parts:
  assumes "fst (finish sp) = residue"
  shows "rl_out (pump_end parse render P sp r) = rl_out r @
      (case residue of Some f \<Rightarrow> if is_deny (fst (verdict_on P f (rl_state r))) then [] else last_bytes f | None \<Rightarrow> [])"
    and "rl_denied (pump_end parse render P sp r) = rl_denied r @
      (case residue of Some f \<Rightarrow> if pu_return P then refusal parse render (f, fst (verdict_on P f (rl_state r))) else [] | None \<Rightarrow> [])"
proof -
  obtain sp' where fin: "finish sp = (residue, sp')" using assms by (cases "finish sp") simp
  let ?r = "note_down (OnAnomaly (Unterminated (pu_direction P))) r"
  have "rl_out (pump_end parse render P sp r) = rl_out r @
      (case residue of Some f \<Rightarrow> if is_deny (fst (verdict_on P f (rl_state r))) then [] else last_bytes f | None \<Rightarrow> []) \<and>
    rl_denied (pump_end parse render P sp r) = rl_denied r @
      (case residue of Some f \<Rightarrow> if pu_return P then refusal parse render (f, fst (verdict_on P f (rl_state r))) else [] | None \<Rightarrow> [])"
  proof (cases residue)
    case None
    then show ?thesis using fin by (simp add: pump_end_def)
  next
    case (Some f)
    obtain w r' v d where h: "handle parse render P f ?r = (w, r')" "verdict_on P f (rl_state ?r) = (v, d)"
      by (meson surj_pair)
    then show ?thesis using handle_parts [OF h] fin Some by (simp add: pump_end_def last_bytes_def)
  qed
  then show "rl_out (pump_end parse render P sp r) = rl_out r @
      (case residue of Some f \<Rightarrow> if is_deny (fst (verdict_on P f (rl_state r))) then [] else last_bytes f | None \<Rightarrow> [])"
    "rl_denied (pump_end parse render P sp r) = rl_denied r @
      (case residue of Some f \<Rightarrow> if pu_return P then refusal parse render (f, fst (verdict_on P f (rl_state r))) else [] | None \<Rightarrow> [])"
    by auto
qed

lemma session_parts [simp]:
  "rl_out (as_up s) = se_server s" "rl_denied (as_up s) = se_queue s" "rl_state (as_up s) = se_point s"
  "rl_out (as_down s) = se_client s" "rl_denied (as_down s) = []" "rl_state (as_down s) = se_point s"
  "se_server (from_up r s) = rl_out r" "se_queue (from_up r s) = rl_denied r" "se_client (from_up r s) = se_client s"
  "se_client (from_down r s) = rl_out r" "se_server (from_down r s) = se_server s" "se_queue (from_down r s) = se_queue s"
  "se_up (from_up r s) = se_up s" "se_up_phase (from_up r s) = se_up_phase s" "se_down (from_up r s) = se_down s"
  "se_down_phase (from_up r s) = se_down_phase s" "se_up (from_down r s) = se_up s"
  "se_up_phase (from_down r s) = se_up_phase s" "se_down (from_down r s) = se_down s"
  "se_down_phase (from_down r s) = se_down_phase s"
  by (simp_all add: as_up_def from_up_def as_down_def from_down_def)

lemma step_bytes:
  assumes "session_step mc parse render c pt s a s'"
  shows "se_server s' = se_server s @ to_server a \<and> se_client s' = se_client s @ to_client a \<and>
    se_queue s @ refused parse render a = delivered a @ se_queue s'"
  using assms
  by (induction rule: session_step.induct)
    (auto simp: handle_result_parts pump_end_parts verdict_now_def is_deny_def split: sum.splits option.splits)

section \<open>Where a splitter stands\<close>

lemma feed_append:
  "feed psh nxt (cs @ [c]) sp =
     Option.bind (feed psh nxt cs sp) (\<lambda>(xs, sp'). Option.bind (drain nxt (psh c sp')) (\<lambda>(ys, sp''). Some (xs @ ys, sp'')))"
  by (induction cs arbitrary: sp)
    (auto simp: Option.bind_assoc split_def intro!: Option.bind_cong)

text \<open>
  After the reads \<open>cs\<close> and the results \<open>xs\<close>: while it is read from, the splitter has been drained; while it
  is drained, the results still to come are those that are missing.
\<close>

definition stands :: "(char \<Rightarrow> bytes \<Rightarrow> nat option) \<Rightarrow> nat \<Rightarrow> bytes list \<Rightarrow> (frame_error + frame) list \<Rightarrow> pump_phase
    \<Rightarrow> splitter \<Rightarrow> bool" where
  "stands mc m cs xs ph sp \<longleftrightarrow>
     (case ph of
        Reading \<Rightarrow> feed push (next_frame mc) cs (splitter_new m) = Some (xs, sp)
      | Draining \<Rightarrow> (\<exists>ys sp'. drain (next_frame mc) sp = Some (ys, sp') \<and>
          feed push (next_frame mc) cs (splitter_new m) = Some (xs @ ys, sp'))
      | Finished \<Rightarrow> True)"

lemma stands_start: "stands mc m [] [] Reading (splitter_new m)"
  by (simp add: stands_def)

lemma stands_read:
  assumes "memchr_ok mc" and "stands mc m cs xs Reading sp"
  shows "stands mc m (cs @ [chunk]) xs Draining (push chunk sp)"
proof -
  obtain os s where "feed push (next_frame mc) (cs @ [chunk]) (splitter_new m) = Some (os, s)"
    using feed_frames [OF assms(1), of "cs @ [chunk]" m] by blast
  then show ?thesis using assms(2) by (auto simp: stands_def feed_append split: bind_splits)
qed

lemma stands_result:
  "stands mc m cs xs Draining sp \<Longrightarrow> next_frame mc sp = Some (Some x, sp') \<Longrightarrow> stands mc m cs (xs @ [x]) Draining sp'"
  by (auto simp: stands_def drain.simps [of "next_frame mc" sp] split: bind_splits)

lemma stands_drained:
  "stands mc m cs xs Draining sp \<Longrightarrow> next_frame mc sp = Some (None, sp') \<Longrightarrow> stands mc m cs xs Reading sp'"
  by (auto simp: stands_def drain.simps [of "next_frame mc" sp])

lemma stands_goes_on: "stands mc m cs xs Draining sp \<Longrightarrow> next_frame mc sp \<noteq> None"
  by (auto simp: stands_def drain.simps [of "next_frame mc" sp] split: bind_splits)

definition chunks :: "(act \<Rightarrow> bytes) \<Rightarrow> act list \<Rightarrow> bytes list" where
  "chunks f as = filter (\<lambda>b. b \<noteq> []) (map f as)"

lemma chunks_simps [simp]:
  "chunks f [] = []" "chunks f (as @ [a]) = chunks f as @ (if f a = [] then [] else [f a])"
  by (simp_all add: chunks_def)

lemma concat_chunks: "concat (chunks f as) = concat (map f as)"
  by (induction as) (auto simp: chunks_def)

text \<open>The invariant of a run: what is written, what waits, and where both splitters stand.\<close>

definition balanced :: "(char \<Rightarrow> bytes \<Rightarrow> nat option) \<Rightarrow> parser \<Rightarrow> printer \<Rightarrow> session_config \<Rightarrow> act list \<Rightarrow> 'd session \<Rightarrow> bool" where
  "balanced mc parse render c as s \<longleftrightarrow>
     se_server s = concat (map to_server as) \<and> se_client s = concat (map to_client as) \<and>
     concat (map (refused parse render) as) = concat (map delivered as) @ se_queue s \<and>
     stands mc (sc_max_frame_bytes c) (chunks up_chunk as) (concat (map up_seen as)) (se_up_phase s) (se_up s) \<and>
     stands mc (sc_max_frame_bytes c) (chunks down_chunk as) (concat (map down_seen as)) (se_down_phase s) (se_down s)"

lemma step_stands:
  assumes "session_step mc parse render c pt s a s'" and "memchr_ok mc"
    and "stands mc m cs xs (se_up_phase s) (se_up s)" and "stands mc m cs' xs' (se_down_phase s) (se_down s)"
  shows "stands mc m (cs @ (if up_chunk a = [] then [] else [up_chunk a])) (xs @ up_seen a) (se_up_phase s') (se_up s') \<and>
    stands mc m (cs' @ (if down_chunk a = [] then [] else [down_chunk a])) (xs' @ down_seen a) (se_down_phase s') (se_down s')"
  using assms
  by (induction rule: session_step.induct)
    (auto intro: stands_read stands_result stands_drained simp: stands_def [of _ _ _ _ Finished])

lemma balanced_step:
  assumes "session_step mc parse render c pt s a s'" and "memchr_ok mc" and "balanced mc parse render c as s"
  shows "balanced mc parse render c (as @ [a]) s'"
  using step_bytes [OF assms(1)] step_stands [OF assms(1,2)] assms(3) by (auto simp: balanced_def)

lemma balanced_run:
  assumes "memchr_ok mc" and "session_run mc parse render c pt (session_start c d) as s"
  shows "balanced mc parse render c as s"
  using assms(2)
proof (induction rule: session_run.induct)
  case nothing
  then show ?case by (simp add: balanced_def session_start_def stands_start)
next
  case (another as s a s')
  then show ?case by (blast intro: balanced_step [OF _ assms(1)])
qed

lemma stands_frames:
  assumes "memchr_ok mc" and "stands mc m cs xs Reading sp"
  shows "oks xs = map line_frame (filter (good_line m) (butlast (lines (concat cs))))"
  using feed_frames [OF assms(1), of cs m] assms(2) by (auto simp: stands_def)

text \<open>
  C2: a session neither loses nor invents traffic, however its two pumps and the channel between them interleave:
  the server has received exactly the frames that were not refused, the client exactly the server's
  frames and the refusals delivered, each whole and in the order of the steps, and the refusals issued
  are those delivered followed by those still waiting.  Whenever a pump is back at reading, the frames it
  has handled are all the lines of what it has read that are neither empty nor too long, so nothing is
  held back.
\<close>

theorem session_conserves_traffic:
  assumes "memchr_ok mc" and "session_run mc parse render c pt (session_start c d) as s"
  shows "se_server s = concat (map to_server as) \<and> se_client s = concat (map to_client as) \<and>
    concat (map (refused parse render) as) = concat (map delivered as) @ se_queue s \<and>
    (se_up_phase s = Reading \<longrightarrow> oks (concat (map up_seen as)) =
       map line_frame (filter (good_line (sc_max_frame_bytes c)) (butlast (lines (concat (map up_chunk as)))))) \<and>
    (se_down_phase s = Reading \<longrightarrow> oks (concat (map down_seen as)) =
       map line_frame (filter (good_line (sc_max_frame_bytes c)) (butlast (lines (concat (map down_chunk as))))))"
proof -
  note b = balanced_run [OF assms, unfolded balanced_def]
  have "se_up_phase s = Reading \<Longrightarrow> oks (concat (map up_seen as)) =
      map line_frame (filter (good_line (sc_max_frame_bytes c)) (butlast (lines (concat (chunks up_chunk as)))))"
    "se_down_phase s = Reading \<Longrightarrow> oks (concat (map down_seen as)) =
      map line_frame (filter (good_line (sc_max_frame_bytes c)) (butlast (lines (concat (chunks down_chunk as)))))"
    using b stands_frames [OF assms(1)] by metis+
  then show ?thesis using b by (simp add: concat_chunks)
qed

text \<open>A session in which the only call is refused.\<close>

definition small_session :: session_config where
  "small_session = \<lparr>sc_program = ''server'', sc_args = [], sc_max_frame_bytes = 99, sc_project = None\<rparr>"

lemma small_up: "up_pump small_session (pu_point refusing_pump) = refusing_pump"
  by (simp add: up_pump_def small_session_def refusing_pump_def)

lemma a_call_comes: "\<exists>sp. next_frame first_index (push (a_call @ [NL]) (splitter_new 99)) = Some (Some (Inr (line_frame a_call)), sp)"
proof -
  have "first_index NL (a_call @ [NL]) = Some 23" "(a_call @ [NL]) ! 22 \<noteq> CR" "length a_call = 23" "last a_call \<noteq> CR"
    by code_simp+
  then show ?thesis
    by (subst next_frame.simps)
      (simp add: push_def splitter_new_def ends_cr_def slice_def line_frame_def strip_cr_len_def)
qed

theorem session_conserves_traffic_witness:
  "\<exists>s. session_run first_index (\<lambda>_. Some (JObject [(''id'', JNumber ''1'')])) (\<lambda>_. ''refused'') small_session
      (pu_point refusing_pump) (session_start small_session 0)
      [UpRead (a_call @ [NL]), UpResult (Inr (line_frame a_call)) (Some (Deny ''r'' ''m'')), Delivered (''refused'' @ [NL])] s \<and>
    se_server s = [] \<and> se_client s = ''refused'' @ [NL] \<and> se_queue s = []"
proof -
  let ?parse = "\<lambda>_. Some (JObject [(''id'', JNumber ''1'')])" and ?render = "\<lambda>_. ''refused''"
  let ?step = "session_step first_index ?parse ?render small_session (pu_point refusing_pump)"
  let ?run = "session_run first_index ?parse ?render small_session (pu_point refusing_pump) (session_start small_session 0)"
  let ?v = "Some (Deny ''r'' ''m'')"
  let ?s0 = "session_start small_session (0 :: nat)"
  define s1 where "s1 = ?s0\<lparr>se_up := push (a_call @ [NL]) (se_up ?s0), se_up_phase := Draining\<rparr>"
  have st1: "?step ?s0 (UpRead (a_call @ [NL])) s1" unfolding s1_def by (rule up_read) (simp_all add: session_start_def)
  have "?run ([] @ [UpRead (a_call @ [NL])]) s1" by (rule another, rule nothing, rule st1)
  then have r1: "?run [UpRead (a_call @ [NL])] s1" by simp
  obtain sp where "next_frame first_index (se_up s1) = Some (Some (Inr (line_frame a_call)), sp)"
    using a_call_comes by (auto simp: s1_def session_start_def small_session_def)
  moreover have ph: "se_up_phase s1 = Draining" "se_down_phase s1 = Reading" "se_point s1 = 0" "se_queue s1 = []"
    by (simp_all add: s1_def session_start_def)
  ultimately obtain s2 where s2: "?step s1 (UpResult (Inr (line_frame a_call)) ?v) s2" "se_down_phase s2 = Reading"
    using up_result [of s1 first_index "Inr (line_frame a_call)" sp ?parse ?render small_session "pu_point refusing_pump"]
    by (force simp: small_up verdict_now_def refusing_verdicts)
  have ref: "refusal ?parse ?render (line_frame a_call, ?v) = [''refused'' @ [NL]]"
    by (simp add: refusal_def deny_response_def)
  then have q: "se_queue s2 = (''refused'' @ [NL]) # []" using step_bytes [OF s2(1)] ph(4) by simp
  obtain s3 where s3: "?step s2 (Delivered (''refused'' @ [NL])) s3" using delivers [OF s2(2) q] by blast
  have run: "?run [UpRead (a_call @ [NL]), UpResult (Inr (line_frame a_call)) ?v, Delivered (''refused'' @ [NL])] s3"
    using another [OF another [OF r1 s2(1)] s3] by simp
  show ?thesis
    using session_conserves_traffic [OF memchr_ok_first_index run] run ref by (auto simp: is_deny_def)
qed

text \<open>A pump that has read is never stuck: its next step is always there, down to the next read.\<close>

lemma draining_goes_on:
  assumes "memchr_ok mc" and "session_run mc parse render c pt (session_start c d) as s"
  shows "se_up_phase s = Draining \<Longrightarrow> \<exists>a s'. session_step mc parse render c pt s a s'"
    and "se_down_phase s = Draining \<Longrightarrow> \<exists>a s'. session_step mc parse render c pt s a s'"
proof -
  note b = balanced_run [OF assms]
  show "\<exists>a s'. session_step mc parse render c pt s a s'" if d: "se_up_phase s = Draining"
  proof -
    obtain x sp where "next_frame mc (se_up s) = Some (x, sp)"
      using stands_goes_on b d by (fastforce simp: balanced_def)
    then show ?thesis using up_result [OF d] up_drained [OF d] by (cases x) blast+
  qed
  show "\<exists>a s'. session_step mc parse render c pt s a s'" if d: "se_down_phase s = Draining"
  proof -
    obtain x sp where "next_frame mc (se_down s) = Some (x, sp)"
      using stands_goes_on b d by (fastforce simp: balanced_def)
    then show ?thesis using down_result [OF d] down_drained [OF d] by (cases x) blast+
  qed
qed

end
