(* ===== verification/Observer.thy ===== *)
theory Observer
  imports Relay Journal
begin

text \<open>
  \<open>transport/observer.rs\<close>: what the relay shows its observer becomes a journal entry, and the
  handshake and the roots that go by fill in the session's row.  The journal is the model of
  \<open>Journal\<close>; its channels are part of the observer's state.  The clock is an argument.
\<close>

section \<open>State\<close>

definition PREVIEW_MAX :: nat where "PREVIEW_MAX = 200"

record observer =
  ob_journal :: journal
  ob_session_id :: int
  ob_row :: session_row
  ob_scope :: scope_resolver
  ob_initialize_id :: "bytes option"
  ob_dirty :: bool

definition start_scope :: "(bytes \<Rightarrow> bytes option) \<Rightarrow> bytes option \<Rightarrow> bytes option \<Rightarrow> scope_resolver" where
  "start_scope fs project cwd =
     (let s1 = (case project of Some p \<Rightarrow> set_injected (canonicalize_for_scope fs p) resolver_new
                | None \<Rightarrow> resolver_new)
      in case cwd of Some p \<Rightarrow> set_cwd (canonicalize_for_scope fs p) s1 | None \<Rightarrow> s1)"

definition start_row :: "int \<Rightarrow> bytes \<Rightarrow> scope_resolver \<Rightarrow> session_row" where
  "start_row now command sc =
     \<lparr>s_started = now, s_server_name = None, s_server_version = None, s_client_name = None,
      s_client_version = None, s_protocol_version = None, s_scope_key = scope_key (resolve sc),
      s_scope_source = source_str (scope_src (resolve sc)), s_command = command\<rparr>"

text \<open>\<open>opened\<close> is what comes back on reply channel \<open>k\<close> of \<open>open_session\<close>, if anything does.\<close>

definition observer_new ::
  "(bytes \<Rightarrow> bytes option) \<Rightarrow> int \<Rightarrow> nat \<Rightarrow> int option \<Rightarrow> bytes \<Rightarrow> bytes option \<Rightarrow> bytes option \<Rightarrow> journal \<Rightarrow> observer" where
  "observer_new fs now k opened command project cwd j =
     (let sc = start_scope fs project cwd; row = start_row now command sc in
      \<lparr>ob_journal = open_session row k j,
       ob_session_id = (case opened of Some i \<Rightarrow> i | None \<Rightarrow> 0),
       ob_row = row, ob_scope = sc, ob_initialize_id = None, ob_dirty = False\<rparr>)"

section \<open>What is read off a frame\<close>

text \<open>The longest run of whole characters within a number of bytes.\<close>

fun chars_within :: "nat \<Rightarrow> bytes list \<Rightarrow> bytes" where
  "chars_within n [] = []"
| "chars_within n (c # cs) = (if length c \<le> n then c @ chars_within (n - length c) cs else [])"

definition excerpt :: "bytes \<Rightarrow> bytes option" where
  "excerpt frame =
     (if utf8_valid frame
      then (let start = (case find_sub ''\"params\"'' frame of Some i \<Rightarrow> i | None \<Rightarrow> 0)
            in Some (chars_within PREVIEW_MAX (utf8_chars (drop start frame))))
      else None)"

definition request_id :: "parser \<Rightarrow> bytes \<Rightarrow> bytes option" where
  "request_id parse frame =
     (case Option.bind (parse frame) (jget ''id'') of
        Some (JString s) \<Rightarrow> Some s
      | Some (JNumber n) \<Rightarrow> Some n
      | _ \<Rightarrow> None)"

definition parse_roots :: "parser \<Rightarrow> (bytes \<Rightarrow> bytes option) \<Rightarrow> bytes \<Rightarrow> bytes list option" where
  "parse_roots parse fs frame =
     Option.bind (Option.bind (Option.bind (parse frame) (jpath [''result'', ''roots''])) as_array) (\<lambda>roots.
       let paths = map (canonicalize_for_scope fs)
             (List.map_filter (\<lambda>r. Option.bind (Option.bind (jget ''uri'' r) as_str) parse_root_uri) roots)
       in if paths = [] then None else Some paths)"

section \<open>The semantics of the session\<close>

definition noted_client_hello :: "parser \<Rightarrow> bytes \<Rightarrow> observer \<Rightarrow> observer" where
  "noted_client_hello parse frame ob =
     (let ob' = (case parse_client_hello parse frame of
          Some h \<Rightarrow> ob\<lparr>ob_row := (ob_row ob)\<lparr>s_client_name := ch_client_name h,
              s_client_version := ch_client_version h\<rparr>, ob_dirty := True\<rparr>
        | None \<Rightarrow> ob)
      in ob'\<lparr>ob_initialize_id := request_id parse frame\<rparr>)"

definition noted_server_hello :: "parser \<Rightarrow> bytes \<Rightarrow> observer \<Rightarrow> observer" where
  "noted_server_hello parse frame ob =
     (case (ob_initialize_id ob, request_id parse frame) of
        (Some expected, Some got) \<Rightarrow>
          (if expected = got
           then (case parse_server_hello parse frame of
               Some h \<Rightarrow> ob\<lparr>ob_row := (ob_row ob)\<lparr>s_server_name := sh_server_name h,
                   s_server_version := sh_server_version h, s_protocol_version := sh_protocol_version h\<rparr>,
                   ob_dirty := True\<rparr>
             | None \<Rightarrow> ob)
           else ob)
      | _ \<Rightarrow> ob)"

definition noted_roots :: "parser \<Rightarrow> (bytes \<Rightarrow> bytes option) \<Rightarrow> bytes \<Rightarrow> observer \<Rightarrow> observer" where
  "noted_roots parse fs frame ob =
     (case parse_roots parse fs frame of
        Some roots \<Rightarrow>
          (let sc = observe_roots roots (ob_scope ob) in
           ob\<lparr>ob_scope := sc,
              ob_row := (ob_row ob)\<lparr>s_scope_key := scope_key (resolve sc),
                s_scope_source := source_str (scope_src (resolve sc))\<rparr>,
              ob_dirty := True\<rparr>)
      | None \<Rightarrow> ob)"

definition observe_semantics ::
  "parser \<Rightarrow> (bytes \<Rightarrow> bytes option) \<Rightarrow> frame_event \<Rightarrow> observer \<Rightarrow> observer" where
  "observe_semantics parse fs ev ob =
     (let frame = content (ev_frame ev);
          ob' = (case (ev_direction ev, ev_method ev) of
             (ToServer, Some m) \<Rightarrow> if m = ''initialize'' then noted_client_hello parse frame ob else ob
           | (ToClient, None) \<Rightarrow> noted_server_hello parse frame ob
           | (ToServer, None) \<Rightarrow> noted_roots parse fs frame ob
           | (ToClient, Some _) \<Rightarrow> ob)
      in if ob_dirty ob'
         then ob'\<lparr>ob_dirty := False,
                  ob_journal := update_session (ob_session_id ob') (ob_row ob') (ob_journal ob')\<rparr>
         else ob')"

section \<open>Frames, anomalies and the end of the stream\<close>

definition frame_entry :: "int \<Rightarrow> int \<Rightarrow> frame_event \<Rightarrow> entry" where
  "frame_entry now sid ev =
     \<lparr>e_ts = now, e_session = sid, e_direction = direction_str (ev_direction ev), e_method = ev_method ev,
      e_disposition = disposition_str (ev_disposition ev),
      e_verdict = (case ev_verdict ev of Some Allow \<Rightarrow> Some ''allow'' | Some (Deny _ _) \<Rightarrow> Some ''deny'' | None \<Rightarrow> None),
      e_rule = (case ev_verdict ev of Some (Deny rule _) \<Rightarrow> Some rule | _ \<Rightarrow> None),
      e_preview = (if ev_disposition ev = Decide then excerpt (content (ev_frame ev)) else None),
      e_bytes = int (content_len (ev_frame ev))\<rparr>"

definition on_frame ::
  "parser \<Rightarrow> (bytes \<Rightarrow> bytes option) \<Rightarrow> int \<Rightarrow> frame_event \<Rightarrow> observer \<Rightarrow> observer" where
  "on_frame parse fs now ev ob =
     (let ob' = (if ev_scan ev \<noteq> NoMethod \<or> ev_direction ev = ToClient
                 then observe_semantics parse fs ev ob else ob)
      in ob'\<lparr>ob_journal := log (frame_entry now (ob_session_id ob') ev) (ob_journal ob')\<rparr>)"

fun anomaly_parts :: "anomaly \<Rightarrow> direction \<times> bytes \<times> bytes option" where
  "anomaly_parts (OversizeFrame d _) = (d, ''oversize'', Some ''frame_oversize'')"
| "anomaly_parts (Unterminated d) = (d, ''unterminated'', None)"
| "anomaly_parts (DeniedWithoutId d) = (d, ''denied_without_id'', None)"
| "anomaly_parts (DecisionUnavailable d _ _) = (d, ''decision_unavailable'', Some ''fail_open'')"

definition anomaly_entry :: "int \<Rightarrow> int \<Rightarrow> anomaly \<Rightarrow> entry" where
  "anomaly_entry now sid a =
     (let (d, kind, rule) = anomaly_parts a in (entry_now now sid (direction_str d) kind)\<lparr>e_rule := rule\<rparr>)"

definition on_anomaly :: "int \<Rightarrow> anomaly \<Rightarrow> observer \<Rightarrow> observer" where
  "on_anomaly now a ob = ob\<lparr>ob_journal := log (anomaly_entry now (ob_session_id ob) a) (ob_journal ob)\<rparr>"

text \<open>The notices of the relay, in order; the end of the stream is only traced.\<close>

fun on_notice :: "parser \<Rightarrow> (bytes \<Rightarrow> bytes option) \<Rightarrow> int \<Rightarrow> notice \<Rightarrow> observer \<Rightarrow> observer" where
  "on_notice parse fs now (OnFrame ev) ob = on_frame parse fs now ev ob"
| "on_notice parse fs now (OnAnomaly a) ob = on_anomaly now a ob"
| "on_notice parse fs now (OnEof d st) ob = ob"

definition observe_all ::
  "parser \<Rightarrow> (bytes \<Rightarrow> bytes option) \<Rightarrow> int \<Rightarrow> notice list \<Rightarrow> observer \<Rightarrow> observer" where
  "observe_all parse fs now notes ob = fold (on_notice parse fs now) notes ob"

definition observed_scope_source :: "observer \<Rightarrow> scope_source" where
  "observed_scope_source ob = scope_src (resolve (ob_scope ob))"

definition observed_scope_key :: "observer \<Rightarrow> bytes" where
  "observed_scope_key ob = scope_key (resolve (ob_scope ob))"

definition observed_scope_paths :: "observer \<Rightarrow> bytes list" where
  "observed_scope_paths ob = scope_paths (resolve (ob_scope ob))"

section \<open>What the relay shows\<close>

definition events :: "notice list \<Rightarrow> frame_event list" where
  "events notes = List.map_filter (\<lambda>n. case n of OnFrame ev \<Rightarrow> Some ev | _ \<Rightarrow> None) notes"

lemma events_simps [simp]:
  "events [] = []" "events (as @ bs) = events as @ events bs" "events (OnFrame ev # ns) = ev # events ns"
  "events (OnAnomaly a # ns) = events ns" "events (OnEof d st # ns) = events ns"
  by (simp_all add: events_def map_filter_append map_filter_Cons)

lemma note_down_notes [simp]: "rl_notes (note_down n r) = rl_notes r @ [n]"
  by (simp add: note_down_def)

lemma judge_frame_events: "judge_frame P f r = (v, r') \<Longrightarrow> events (rl_notes r') = events (rl_notes r)"
  by (auto simp: judge_frame_def Let_def
      split: direction.splits disposition.splits option.splits prod.splits sum.splits)

lemma handle_events:
  assumes "handle parse render P f r = (wrote, r')" and "verdict_on P f (rl_state r) = (v, d)"
  shows "events (rl_notes r') = events (rl_notes r) @ [frame_seen P f v]"
proof -
  obtain v0 r1 where j: "judge_frame P f r = (v0, r1)" by fastforce
  have "v0 = v" using judge_frame_parts [OF j] assms(2) by simp
  then show ?thesis
    using assms(1) j judge_frame_events [OF j]
    by (auto simp: handle_def Let_def split: option.splits verdict.splits if_splits)
qed

lemma fold_events:
  "events (rl_notes (fold (handle_result parse render P) os r)) = events (rl_notes r) @
     map (\<lambda>(f, v). frame_seen P f v) (zip (oks os) (verdicts P (oks os) (rl_state r)))"
proof (induction os arbitrary: r)
  case (Cons x os)
  show ?case
  proof (cases x)
    case (Inl e)
    obtain l where "e = Oversize l" by (cases e)
    then show ?thesis using Cons [of "note_down (OnAnomaly (OversizeFrame (pu_direction P) l)) r"] Inl by simp
  next
    case (Inr f)
    obtain w r' v d where h: "handle parse render P f r = (w, r')" "verdict_on P f (rl_state r) = (v, d)"
      by fastforce
    show ?thesis using Cons [of r'] handle_events [OF h] handle_parts(2) [OF h] h Inr by simp
  qed
qed simp

section \<open>What becomes of it\<close>

definition denials :: "observer \<Rightarrow> entry list" where
  "denials ob = filter (\<lambda>e. e_verdict e = Some ''deny'') (queued (ob_journal ob))"

lemma queued_journal [simp]:
  "queued (update_session i row j) = queued j"
  "queued (log e j) = queued j @ (if is_decision e then [e] else [])"
  by (simp_all add: queued_def update_session_def log_def map_filter_append map_filter_Cons)

lemma noted_keeps:
  "ob_session_id (noted_client_hello parse frame ob) = ob_session_id ob"
  "ob_journal (noted_client_hello parse frame ob) = ob_journal ob"
  "ob_session_id (noted_server_hello parse frame ob) = ob_session_id ob"
  "ob_journal (noted_server_hello parse frame ob) = ob_journal ob"
  "ob_session_id (noted_roots parse fs frame ob) = ob_session_id ob"
  "ob_journal (noted_roots parse fs frame ob) = ob_journal ob"
  by (simp_all add: noted_client_hello_def noted_server_hello_def noted_roots_def Let_def split: option.split)

lemma semantics_keeps [simp]:
  "ob_session_id (observe_semantics parse fs ev ob) = ob_session_id ob"
  "denials (observe_semantics parse fs ev ob) = denials ob"
  by (simp_all add: observe_semantics_def Let_def denials_def noted_keeps split: direction.split option.split)

lemma on_frame_denials:
  "ob_session_id (on_frame parse fs now ev ob) = ob_session_id ob"
  "denials (on_frame parse fs now ev ob) = denials ob @
     (if is_deny (ev_verdict ev) then [frame_entry now (ob_session_id ob) ev] else [])"
proof -
  show "ob_session_id (on_frame parse fs now ev ob) = ob_session_id ob"
    by (simp add: on_frame_def Let_def)
  have e: "is_decision (frame_entry now sid ev) = is_deny (ev_verdict ev)"
    "(e_verdict (frame_entry now sid ev) = Some ''deny'') = is_deny (ev_verdict ev)" for sid
    by (auto simp: frame_entry_def is_decision_def is_deny_def split: option.splits verdict.splits)
  have "denials (ob'\<lparr>ob_journal := log (frame_entry now sid ev) (ob_journal ob')\<rparr>) =
      denials ob' @ (if is_deny (ev_verdict ev) then [frame_entry now sid ev] else [])" for ob' sid
    by (simp add: denials_def e)
  then show "denials (on_frame parse fs now ev ob) = denials ob @
     (if is_deny (ev_verdict ev) then [frame_entry now (ob_session_id ob) ev] else [])"
    by (simp add: on_frame_def Let_def)
qed

lemma on_anomaly_denials:
  "ob_session_id (on_anomaly now a ob) = ob_session_id ob" "denials (on_anomaly now a ob) = denials ob"
  by (cases a; simp add: on_anomaly_def denials_def anomaly_entry_def entry_now_def)+

lemma observe_all_denials:
  "denials (observe_all parse fs now ns ob) = denials ob @
     map (frame_entry now (ob_session_id ob)) (filter (\<lambda>ev. is_deny (ev_verdict ev)) (events ns))"
proof (induction ns arbitrary: ob)
  case (Cons n ns)
  then show ?case
    by (cases n) (simp_all add: observe_all_def on_frame_denials on_anomaly_denials)
qed (simp add: observe_all_def)

text \<open>The rows of the refused frames, without their times.\<close>

lemma denied_rows:
  "map (\<lambda>e. (e_session e, e_method e, e_rule e)) (map (frame_entry now sid)
      (filter (\<lambda>ev. is_deny (ev_verdict ev)) (map (\<lambda>(f, v). frame_seen P f v) fvs))) =
   List.map_filter (\<lambda>(f, v). case v of
        Some (Deny rule msg) \<Rightarrow> Some (sid, found (scan_method (content f)), Some rule)
      | _ \<Rightarrow> None) fvs"
  by (induction fvs) (auto simp: map_filter_Cons frame_seen_def frame_entry_def is_deny_def Let_def
      split: option.splits verdict.splits)

text \<open>
  Every refusal is on record: whatever reads the relay received, the entries that its observer
  has put on the channel that is never dropped, with the verdict \<open>deny\<close>, are exactly those for the
  frames that were held back, in order, each with the method that was called and the rule that
  refused it, and under the session of this relay.
\<close>

theorem refusals_are_on_record:
  assumes "memchr_ok mc" and "\<forall>c \<in> set cs. c \<noteq> []" and "rl_notes r = []"
    and "fs = map line_frame (filter (good_line (pu_max P)) (butlast (lines (concat cs))))"
  shows "\<exists>s r'. pump_loop mc parse render P (map Read cs) (splitter_new (pu_max P)) r = Some (s, r') \<and>
    map (\<lambda>e. (e_session e, e_method e, e_rule e)) (denials (observe_all parse canon now (rl_notes r') ob)) =
    map (\<lambda>e. (e_session e, e_method e, e_rule e)) (denials ob) @
    List.map_filter (\<lambda>(f, v). case v of
        Some (Deny rule msg) \<Rightarrow> Some (ob_session_id ob, found (scan_method (content f)), Some rule)
      | _ \<Rightarrow> None) (zip fs (verdicts P fs (rl_state r)))"
proof -
  obtain os s where os: "feed push (next_frame mc) cs (splitter_new (pu_max P)) = Some (os, s)"
    and res: "oks os = fs"
    using feed_frames [OF assms(1), of cs "pu_max P"] assms(4) by blast
  let ?r = "fold (handle_result parse render P) os r"
  have run: "pump_loop mc parse render P (map Read cs) (splitter_new (pu_max P)) r = Some (s, ?r)"
    unfolding pump_loop_reads [OF assms(2)] by (simp add: os)
  show ?thesis
    using run denied_rows [of now "ob_session_id ob" P "zip fs (verdicts P fs (rl_state r))"]
    by (simp add: observe_all_denials fold_events res assms(3))
qed

definition idle_observer :: observer where
  "idle_observer = observer_new (\<lambda>_. None) 0 1 (Some 7) ''server'' None (Some ''/p'')
     (journal_start \<lparr>db_sessions = [], db_entries = [], db_tools = []\<rparr>)"

theorem refusals_are_on_record_witness:
  "\<exists>s r'. pump_loop first_index (\<lambda>_. None) (\<lambda>_. []) refusing_pump (map Read two_lines)
      (splitter_new (pu_max refusing_pump)) idle_relay = Some (s, r') \<and>
    map (\<lambda>e. (e_session e, e_method e, e_rule e))
      (denials (observe_all (\<lambda>_. None) (\<lambda>_. None) 0 (rl_notes r') idle_observer)) =
    [(7, Some ''tools/call'', Some ''r'')]"
proof -
  have ob: "denials idle_observer = []" "ob_session_id idle_observer = 7"
    by (simp_all add: idle_observer_def observer_new_def denials_def queued_def open_session_def journal_start_def
        map_filter_Cons Let_def)
  show ?thesis
    using refusals_are_on_record [OF memchr_ok_first_index two_lines_nonempty _ two_lines_frames,
        of idle_relay "\<lambda>_. None" "\<lambda>_. []" "\<lambda>_. None" 0 idle_observer]
    by (simp add: ob refusing_verdicts two_lines_content call_scan map_filter_Cons del: pump_loop.simps)
qed

section \<open>Roots\<close>

text \<open>
  The roots never arrive: the client's answer to \<open>roots/list\<close> is a frame to the server without a
  method, and \<open>on_frame\<close> does not look into such a frame; so whatever roots it carries the scope of
  the session stays what it was, and no update of the session is submitted.
\<close>

theorem roots_answers_are_not_seen:
  assumes "ev_direction ev = ToServer" and "ev_scan ev = NoMethod"
  shows "ob_scope (on_frame parse fs now ev ob) = ob_scope ob \<and> ob_row (on_frame parse fs now ev ob) = ob_row ob \<and>
    ob_journal (on_frame parse fs now ev ob) = log (frame_entry now (ob_session_id ob) ev) (ob_journal ob)"
  using assms by (simp add: on_frame_def)

definition roots_frame :: frame where
  "roots_frame = line_frame ''{\"id\":1,\"result\":{\"roots\":[{\"uri\":\"file:///p\"}]}}''"

theorem roots_answers_are_not_seen_witness:
  "parse_roots (\<lambda>_. Some (JObject [(''result'', JObject [(''roots'',
       JArray [JObject [(''uri'', JString ''file:///p'')]])])])) (\<lambda>_. None) (content roots_frame) = Some [''/p''] \<and>
   ob_scope (on_frame (\<lambda>_. Some (JObject [(''result'', JObject [(''roots'',
       JArray [JObject [(''uri'', JString ''file:///p'')]])])])) (\<lambda>_. None) 0
     (frame_seen refusing_pump roots_frame None) idle_observer) = ob_scope idle_observer"
proof -
  have "content roots_frame = ''{\"id\":1,\"result\":{\"roots\":[{\"uri\":\"file:///p\"}]}}''"
    by (simp add: roots_frame_def content_def line_frame_def strip_cr_len_def)
  moreover have "scan_method ''{\"id\":1,\"result\":{\"roots\":[{\"uri\":\"file:///p\"}]}}'' = NoMethod"
    by code_simp
  ultimately have ev: "ev_direction (frame_seen refusing_pump roots_frame None) = ToServer"
    "ev_scan (frame_seen refusing_pump roots_frame None) = NoMethod"
    by (simp_all add: frame_seen_def Let_def refusing_pump_def)
  have "parse_root_uri ''file:///p'' = Some ''/p''" by code_simp
  then show ?thesis
    using roots_answers_are_not_seen [OF ev] by (simp add: parse_roots_def canonicalize_for_scope_def map_filter_Cons)
qed

section \<open>Excerpts\<close>

lemma length_chars_within: "length (chars_within n cs) \<le> n"
  by (induction n cs rule: chars_within.induct) auto

lemma chars_within_prefix: "\<exists>rest. concat cs = chars_within n cs @ rest"
  by (induction n cs rule: chars_within.induct) auto

lemma excerpt_bounded:
  assumes "excerpt frame = Some s"
  shows "length s \<le> PREVIEW_MAX \<and> (\<exists>before after. frame = before @ s @ after)"
proof -
  define i where "i = (case find_sub ''\"params\"'' frame of Some i \<Rightarrow> i | None \<Rightarrow> 0)"
  have s: "s = chars_within PREVIEW_MAX (utf8_chars (drop i frame))"
    using assms by (simp add: excerpt_def i_def split: if_splits)
  obtain rest where "drop i frame = s @ rest"
    using chars_within_prefix [of "utf8_chars (drop i frame)" PREVIEW_MAX] by (auto simp: s utf8_chars_concat)
  then have "frame = take i frame @ s @ rest" by (metis append_take_drop_id)
  then show ?thesis using length_chars_within s by blast
qed

end
