(* ===== verification/Hook.thy ===== *)
theory Hook
  imports Client Policy_Request
begin

text \<open>
  \<open>hook.rs\<close> and \<open>cli/hook.rs\<close>: one invocation of the Claude Code hook.  Each is a process of its own, so
  its state is the client it connects; what the daemon says in the handshake and in reply to the
  call are arguments, and the value is what goes to stdout together with what went to the daemon.
\<close>

section \<open>The payload\<close>

definition MCP_PREFIX :: bytes where "MCP_PREFIX = ''mcp__''"

record hook_input =
  hk_event :: bytes
  hk_tool :: bytes
  hk_input :: json
  hk_output :: json
  hk_use_id :: bytes
  hk_cwd :: bytes
  hk_session :: bytes

datatype builtin = LocalRead | OtherTool

definition classify_builtin :: "bytes \<Rightarrow> builtin" where
  "classify_builtin tool =
     (if tool \<in> set [''Read'', ''Bash'', ''BashOutput'', ''Grep'', ''Glob'', ''NotebookRead'']
      then LocalRead else OtherTool)"

definition is_mcp_tool :: "bytes \<Rightarrow> bool" where
  "is_mcp_tool tool \<longleftrightarrow> starts_with tool MCP_PREFIX"

text \<open>
  \<open>read_input\<close>: a missing field has its default, a text field of another type makes the payload
  unreadable, and so do both names of the output at once.
\<close>

definition text_field :: "bytes \<Rightarrow> json \<Rightarrow> bytes option" where
  "text_field k v = (case jget k v of None \<Rightarrow> Some [] | Some x \<Rightarrow> as_str x)"

definition value_field :: "bytes \<Rightarrow> json \<Rightarrow> json" where
  "value_field k v = (case jget k v of None \<Rightarrow> JNull | Some x \<Rightarrow> x)"

definition output_field :: "json \<Rightarrow> json option" where
  "output_field v =
     (case (jget ''tool_output'' v, jget ''tool_response'' v) of
        (Some _, Some _) \<Rightarrow> None
      | (Some x, None) \<Rightarrow> Some x
      | (None, Some x) \<Rightarrow> Some x
      | (None, None) \<Rightarrow> Some JNull)"

definition dec_hook :: "json \<Rightarrow> hook_input option" where
  "dec_hook v =
     Option.bind (as_object v) (\<lambda>_.
     Option.bind (text_field ''hook_event_name'' v) (\<lambda>e.
     Option.bind (text_field ''tool_name'' v) (\<lambda>t.
     Option.bind (output_field v) (\<lambda>out.
     Option.bind (text_field ''tool_use_id'' v) (\<lambda>u.
     Option.bind (text_field ''cwd'' v) (\<lambda>c.
     Option.bind (text_field ''session_id'' v) (\<lambda>s.
       Some \<lparr>hk_event = e, hk_tool = t, hk_input = value_field ''tool_input'' v, hk_output = out,
         hk_use_id = u, hk_cwd = c, hk_session = s\<rparr>)))))))"

definition read_input :: "parser \<Rightarrow> bytes option \<Rightarrow> hook_input option" where
  "read_input parse stdin =
     (case stdin of Some s \<Rightarrow> if utf8_valid s then Option.bind (parse s) dec_hook else None | None \<Rightarrow> None)"

section \<open>Translation\<close>

definition hook_call :: "hook_input \<Rightarrow> json" where
  "hook_call input = jobject [(''jsonrpc'', JString ''2.0''), (''id'', JString (''hook-'' @ hk_use_id input)),
     (''method'', JString ''tools/call''),
     (''params'', jobject [(''name'', JString (hk_tool input)), (''arguments'', hk_input input)])]"

definition frame_for :: "printer \<Rightarrow> hook_input \<Rightarrow> bytes" where
  "frame_for render input = render (hook_call input)"

definition deny_output :: "printer \<Rightarrow> bytes \<Rightarrow> bytes" where
  "deny_output render why = render (jobject [(''hookSpecificOutput'', jobject
     [(''hookEventName'', JString ''PreToolUse''), (''permissionDecision'', JString ''deny''),
      (''permissionDecisionReason'', JString why)])])"

definition hook_scope :: "(bytes \<Rightarrow> bytes option) \<Rightarrow> bytes \<Rightarrow> bytes option \<Rightarrow> scope_resolver" where
  "hook_scope fs cwd project =
     (case project of
        Some p \<Rightarrow> set_injected (canonicalize_for_scope fs p) resolver_new
      | None \<Rightarrow> if cwd \<noteq> [] then set_cwd (canonicalize_for_scope fs cwd) resolver_new else resolver_new)"

definition output_text :: "printer \<Rightarrow> json \<Rightarrow> bytes" where
  "output_text render v = (case v of JString s \<Rightarrow> s | JNull \<Rightarrow> [] | _ \<Rightarrow> render v)"

definition ORIGIN_KEYS :: "bytes list" where
  "ORIGIN_KEYS = [''file_path'', ''path'', ''notebook_path'', ''pattern'', ''command'']"

definition origin_of :: "hook_input \<Rightarrow> bytes" where
  "origin_of input =
     (case find_map (\<lambda>k. case Option.bind (jget k (hk_input input)) as_str of
          Some s \<Rightarrow> if s \<noteq> [] then Some s else None | None \<Rightarrow> None) ORIGIN_KEYS of
        Some s \<Rightarrow> s | None \<Rightarrow> hk_tool input)"

section \<open>One invocation\<close>

definition hook_session :: "(bytes \<Rightarrow> bytes option) \<Rightarrow> hook_input \<Rightarrow> bytes option \<Rightarrow> session_info" where
  "hook_session fs input project =
     (let sc = resolve (hook_scope fs (hk_cwd input) project) in
      \<lparr>si_scope_key = scope_key sc, si_scope_source = source_str (scope_src sc), si_scope_paths = scope_paths sc,
       si_server = Some ''claude-code'', si_session_id = 0\<rparr>)"

definition pre_tool_use :: "parser \<Rightarrow> printer \<Rightarrow> reply \<Rightarrow> hook_input \<Rightarrow> client \<Rightarrow> bytes option \<times> client" where
  "pre_tool_use parse render net input c =
     (let (ans, c') = client_decide parse net c \<lparr>ctx_method = ''tools/call'', ctx_frame = frame_for render input\<rparr> in
      (case ans of
         Inr (Deny rule msg) \<Rightarrow> Some (deny_output render (deny_text rule msg))
       | _ \<Rightarrow> None, c'))"

definition post_tool_use :: "printer \<Rightarrow> hook_input \<Rightarrow> client \<Rightarrow> client" where
  "post_tool_use render input c =
     (if classify_builtin (hk_tool input) = LocalRead
      then (let body = output_text render (hk_output input) in
            if body \<noteq> [] then report_taint (origin_of input) body c else c)
      else c)"

definition hook_run ::
  "parser \<Rightarrow> printer \<Rightarrow> (bytes \<Rightarrow> bytes option) \<Rightarrow> bool \<Rightarrow> bytes option \<Rightarrow> reply \<Rightarrow> hook_input \<Rightarrow> bytes option
     \<Rightarrow> (bytes option \<times> client_message list) outcome" where
  "hook_run parse render fs connected hello net input project =
     (if is_mcp_tool (hk_tool input) then Returned (None, [])
      else obind (connect parse connected hello False (hook_session fs input project)) (\<lambda>client.
        case client of
          None \<Rightarrow> Returned (None, [])
        | Some c \<Rightarrow>
            if hk_event input = ''PreToolUse''
            then (let (out, c') = pre_tool_use parse render net input c in Returned (out, cl_sent c'))
            else if hk_event input = ''PostToolUse''
            then Returned (None, cl_sent (post_tool_use render input c))
            else Returned (None, [])))"

text \<open>What \<open>mcpwall hook\<close> prints: nothing for an unreadable payload.\<close>

definition hook_main ::
  "parser \<Rightarrow> printer \<Rightarrow> (bytes \<Rightarrow> bytes option) \<Rightarrow> bool \<Rightarrow> bytes option \<Rightarrow> reply \<Rightarrow> bytes option \<Rightarrow> bytes option
     \<Rightarrow> bytes outcome" where
  "hook_main parse render fs connected hello net stdin project =
     (case read_input parse stdin of
        None \<Rightarrow> Returned []
      | Some input \<Rightarrow>
          obind (hook_run parse render fs connected hello net input project) (\<lambda>(out, _).
            Returned (case out of Some s \<Rightarrow> s @ [NL] | None \<Rightarrow> [])))"

section \<open>The hook speaks only to refuse\<close>

lemma connect_fresh:
  "connect parse connected hello fc si = Returned (Some c) \<Longrightarrow>
   cl_thread c \<and> cl_sent c = [] \<and> \<not> cl_degraded c \<and> cl_server c = si_server si \<and> cl_session c = si \<and>
   cl_fail_closed c = fc"
  by (auto simp: connect_def Let_def obind_Returned_iff split: if_splits option.splits)

lemma decide_message_frame [simp]:
  "dq_frame (decide_message ctx c) = utf8_lossy (ctx_frame ctx)"
  "dq_server (decide_message ctx c) = Some (server_name c)"
  by (simp_all add: decide_message_def)

text \<open>
  C24: the hook can only refuse, and only on the daemon's word: whenever it writes anything, the event
  was \<open>PreToolUse\<close>, the tool was not one of an MCP server, the daemon was sent this very call and
  answered \<open>deny\<close>, and what is written is that refusal.  Silence is the answer in every other case,
  a missing daemon, an unreadable verdict and a timeout included.
\<close>

theorem hook_only_refuses:
  assumes "hook_run parse render fs connected hello net input project = Returned (Some out, sent)"
  shows "hk_event input = ''PreToolUse'' \<and> \<not> starts_with (hk_tool input) ''mcp__'' \<and> connected \<and>
    (\<exists>l r req. net = Line l \<and> verdict_in parse l = Some r \<and> dr_outcome r = ODeny \<and>
       sent = [CDecide req] \<and> dq_frame req = utf8_lossy (frame_for render input) \<and>
       dq_server req = Some ''claude-code'' \<and>
       out = deny_output render (deny_text (case dr_rule r of Some n \<Rightarrow> n | None \<Rightarrow> ''policy'') (dr_message r)))"
proof -
  have mcp: "\<not> is_mcp_tool (hk_tool input)" using assms by (auto simp: hook_run_def split: if_splits)
  then obtain client where cl: "connect parse connected hello False (hook_session fs input project) = Returned client"
    and "(case client of None \<Rightarrow> Returned (None, []) | Some c \<Rightarrow>
       if hk_event input = ''PreToolUse''
       then Returned (fst (pre_tool_use parse render net input c), cl_sent (snd (pre_tool_use parse render net input c)))
       else if hk_event input = ''PostToolUse'' then Returned (None, cl_sent (post_tool_use render input c))
       else Returned (None, [])) = Returned (Some out, sent)"
    using assms mcp unfolding hook_run_def split_def Let_def by (auto simp: obind_Returned_iff)
  then obtain c c' where c: "connect parse connected hello False (hook_session fs input project) = Returned (Some c)"
    and ev: "hk_event input = ''PreToolUse''"
    and run: "pre_tool_use parse render net input c = (Some out, c')" "sent = cl_sent c'"
    by (cases client) (auto simp: prod_eq_iff split: if_splits)
  note fresh = connect_fresh [OF c]
  let ?ctx = "\<lparr>ctx_method = ''tools/call'', ctx_frame = frame_for render input\<rparr>"
  obtain rule msg where d: "client_decide parse net c ?ctx = (Inr (Deny rule msg), c')"
    and out: "out = deny_output render (deny_text rule msg)"
    using run(1) by (auto simp: pre_tool_use_def split: prod.splits sum.splits verdict.splits)
  have "connected" using c by (auto simp: connect_def split: if_splits)
  moreover obtain l r where "net = Line l" "verdict_in parse l = Some r" "verdict_of r = Deny rule msg"
    "cl_sent c' = cl_sent c @ [CDecide (decide_message ?ctx c)]"
    using d fresh by (auto simp: client_decide_def Let_def split: reply.splits option.splits if_splits)
  moreover have "server_name c = ''claude-code''" using fresh by (simp add: server_name_def hook_session_def Let_def)
  ultimately show ?thesis
    using mcp ev out fresh run(2)
    by (auto simp: is_mcp_tool_def MCP_PREFIX_def verdict_of_def split: ipc_outcome.splits)
qed

text \<open>
  A built-in tool is judged by the rules written for MCP servers: from the frame the hook makes up,
  the engine reads the tool's own name and, as values and paths, the strings of its own input.
\<close>

theorem hook_calls_reach_the_engine:
  assumes "parse (frame_for render input) = Some (hook_call input)" and "hk_tool input \<noteq> []"
  shows "rq_tool (request_from_frame parse ''tools/call'' (frame_for render input) sc []) = Some (hk_tool input) \<and>
    rq_values (request_from_frame parse ''tools/call'' (frame_for render input) sc []) =
      strings_from (hk_input input) 1 @ [hk_tool input] \<and>
    rq_paths (request_from_frame parse ''tools/call'' (frame_for render input) sc []) =
      filter looks_like_path (strings_from (hk_input input) 1 @ [hk_tool input])"
proof -
  let ?params = "JObject [(''arguments'', hk_input input), (''name'', JString (hk_tool input))]"
  have p: "jget ''params'' (hook_call input) = Some ?params"
    by (simp add: hook_call_def jobject_def)
  have "walk ?params 0 ([], []) = (filter looks_like_path (strings_from ?params 0), strings_from ?params 0)"
    by (subst walk_strings) simp
  then show ?thesis
    using assms by (simp add: request_from_frame_def p Let_def)
qed

definition a_read :: hook_input where
  "a_read = \<lparr>hk_event = ''PreToolUse'', hk_tool = ''Read'', hk_input = JObject [(''file_path'', JString ''/p/.env'')],
     hk_output = JNull, hk_use_id = ''1'', hk_cwd = ''/p'', hk_session = []\<rparr>"

theorem hook_calls_reach_the_engine_witness:
  "rq_paths (request_from_frame (\<lambda>_. Some (hook_call a_read)) ''tools/call'' (frame_for (\<lambda>_. []) a_read) scope_unknown []) =
     [''/p/.env'']"
proof -
  have "looks_like_path ''/p/.env''" "\<not> looks_like_path ''Read''" by code_simp+
  then show ?thesis
    using hook_calls_reach_the_engine [of "\<lambda>_. Some (hook_call a_read)" "\<lambda>_. []" a_read scope_unknown]
    by (simp add: a_read_def)
qed

lemma a_read_sendable: "list_all utf8_valid (si_scope_paths (hook_session (\<lambda>_. None) a_read None))"
  by code_simp

theorem hook_only_refuses_witness:
  "\<exists>parse out sent. hook_run parse (\<lambda>v. case v of JObject _ \<Rightarrow> ''{}'' | _ \<Rightarrow> []) (\<lambda>_. None) True (Some ''h'') (Line ''v'') a_read None =
       Returned (Some out, sent) \<and> length sent = 1 \<and> (\<exists>req. sent = [CDecide req] \<and> dq_server req = Some ''claude-code'')"
proof -
  let ?no = "\<lparr>dr_outcome = ODeny, dr_rule = None, dr_message = ''no'', dr_forever = False\<rparr>"
  let ?hi = "hello_default ''b''"
  let ?render = "\<lambda>v. case v of JObject _ \<Rightarrow> ''{}'' | _ \<Rightarrow> []"
  let ?parse = "\<lambda>s. if s = ''h'' then Some (enc_hello ?hi) else if s = ''v'' then Some (enc_server (SVerdict ?no)) else None"
  have "dec_hello (enc_hello ?hi) = Some ?hi"
    by (rule dec_enc_hello) (simp add: hello_wf_def hello_default_def IPC_VERSION_def)
  moreover have "compatible ?hi" "h_ask_timeout ?hi = None"
    by (simp_all add: hello_default_def compatible_def)
  moreover have "dec_server (enc_server (SVerdict ?no)) = Some (SVerdict ?no)" by (rule dec_enc_server) simp
  ultimately obtain out sent where run:
      "hook_run ?parse ?render (\<lambda>_. None) True (Some ''h'') (Line ''v'') a_read None = Returned (Some out, sent)"
    by (simp add: hook_run_def a_read_def is_mcp_tool_def MCP_PREFIX_def starts_with_def connect_def
        verdict_timeout_def Let_def pre_tool_use_def client_decide_def sendable_def decide_message_def note_if_local_read_def verdict_in_def verdict_of_def
        frame_for_def hook_call_def jobject_def a_read_sendable [unfolded a_read_def])
  obtain req where "sent = [CDecide req]" "dq_server req = Some ''claude-code''"
    using hook_only_refuses [OF run] by blast
  then have "length sent = 1 \<and> (\<exists>req. sent = [CDecide req] \<and> dq_server req = Some ''claude-code'')" by simp
  with run show ?thesis by blast
qed

section \<open>Scopes of a hook\<close>

text \<open>Only a hook that was installed for a project may be given a permanent permission.\<close>

lemma hook_forever_needs_project:
  "allows_forever (resolve (hook_scope fs cwd project)) \<Longrightarrow> project \<noteq> None"
  by (cases project) (auto simp: hook_scope_def resolver_new_def set_cwd_def resolve_def allows_forever_def scope_new_def
      scope_unknown_def split: if_splits)

end
