(* ===== verification/Setup.thy ===== *)
theory Setup
  imports Scope Json Hook "HOL-Library.AList"
begin

text \<open>
  \<open>setup/mod.rs\<close>: how \<open>mcpwall init\<close> rewrites the clients' configurations and puts them back.  Files are
  their texts; what the disk holds and when is an argument.
\<close>

section \<open>Targets and plans\<close>

datatype target_kind = ClaudeGlobal | ProjectMcp | Cursor | ClaudeHooks

fun kind_label :: "target_kind \<Rightarrow> bytes" where
  "kind_label ClaudeGlobal = ''Claude Code (global)''"
| "kind_label ProjectMcp = ''project''"
| "kind_label Cursor = ''Cursor''"
| "kind_label ClaudeHooks = ''Claude Code hooks''"

record target =
  tg_path :: bytes
  tg_kind :: target_kind
  tg_project :: "bytes option"

definition path_join :: "bytes \<Rightarrow> bytes \<Rightarrow> bytes" where
  "path_join d n = (if d = [] then n else if last d = CHR ''/'' then d @ n else d @ CHR ''/'' # n)"

fun project_targets ::
  "(bytes \<Rightarrow> bytes option) \<Rightarrow> (bytes \<Rightarrow> bool) \<Rightarrow> bytes list \<Rightarrow> target list \<Rightarrow> target list" where
  "project_targets fs present [] out = out"
| "project_targets fs present (p # ps) out =
     (let f = path_join p ''.mcp.json'' in
      project_targets fs present ps
        (if present f \<and> \<not> list_ex (\<lambda>t. components (tg_path t) = components f) out
         then out @ [\<lparr>tg_path = f, tg_kind = ProjectMcp, tg_project = Some (canonicalize_for_scope fs p)\<rparr>]
         else out))"

definition discover ::
  "(bytes \<Rightarrow> bytes option) \<Rightarrow> (bytes \<Rightarrow> bool) \<Rightarrow> bytes \<Rightarrow> bytes option \<Rightarrow> bytes list \<Rightarrow> target list" where
  "discover fs present home cwd extra =
     (let claude = path_join home ''.claude.json'';
          cursor = path_join (path_join home ''.cursor'') ''mcp.json'';
          out = (if present claude then [\<lparr>tg_path = claude, tg_kind = ClaudeGlobal, tg_project = None\<rparr>] else []) @
                (if present cursor then [\<lparr>tg_path = cursor, tg_kind = Cursor, tg_project = None\<rparr>] else [])
      in project_targets fs present (extra @ (case cwd of Some c \<Rightarrow> [c] | None \<Rightarrow> [])) out)"

record plan =
  pl_path :: bytes
  pl_kind :: target_kind
  pl_before :: bytes
  pl_after :: bytes
  pl_wrapped :: "bytes list"
  pl_already :: "bytes list"
  pl_routes :: "(bytes \<times> bytes) list"
  pl_uncovered :: "(bytes \<times> bytes) list"

definition is_noop :: "plan \<Rightarrow> bool" where
  "is_noop p \<longleftrightarrow> pl_wrapped p = []"

section \<open>One entry\<close>

datatype wrap_result = Wrapped | AlreadyWrapped | Skipped
datatype route_result = Routed bytes bytes | AlreadyRouted | NotCovered bytes | NotAServer

definition wrap_args :: "bytes option \<Rightarrow> bytes \<Rightarrow> json list \<Rightarrow> json list" where
  "wrap_args project command old =
     JString ''wrap'' # (case project of Some p \<Rightarrow> [JString ''--project'', JString (utf8_lossy p)] | None \<Rightarrow> []) @
     [JString ''--'', JString command] @ old"

definition wrap_entry :: "bytes \<Rightarrow> bytes option \<Rightarrow> json \<Rightarrow> wrap_result \<times> json" where
  "wrap_entry shim project cfg =
     (case as_object cfg of
        None \<Rightarrow> (Skipped, cfg)
      | Some obj \<Rightarrow>
          (case Option.bind (map_of obj ''command'') as_str of
             None \<Rightarrow> (Skipped, cfg)
           | Some command \<Rightarrow>
               if command = utf8_lossy shim then (AlreadyWrapped, cfg)
               else
                 (let old = (case Option.bind (map_of obj ''args'') as_array of Some a \<Rightarrow> a | None \<Rightarrow> []);
                      o1 = map_insert ''x-mcpwall-original''
                             (jobject [(''command'', JString command), (''args'', JArray old)]) obj;
                      o2 = map_insert ''command'' (JString (utf8_lossy shim)) o1;
                      o3 = map_insert ''args'' (JArray (wrap_args project command old)) o2
                  in (Wrapped, JObject o3))))"

definition route_entry :: "bytes \<Rightarrow> bytes \<Rightarrow> json \<Rightarrow> route_result \<times> json" where
  "route_entry listen name cfg =
     (case as_object cfg of
        None \<Rightarrow> (NotAServer, cfg)
      | Some obj \<Rightarrow>
          if map_of obj ''command'' \<noteq> None then (NotAServer, cfg)
          else (case Option.bind (map_of obj ''url'') as_str of
             None \<Rightarrow> (NotAServer, cfg)
           | Some url \<Rightarrow>
               if starts_with url (''http://'' @ listen @ ''/'') then (AlreadyRouted, cfg)
               else if \<not> (starts_with url ''http://'' \<or> starts_with url ''https://'')
               then (NotCovered ''its `url` is neither http nor https'', cfg)
               else
                 (let o1 = map_insert ''x-mcpwall-original'' (jobject [(''url'', JString url)]) obj;
                      o2 = map_insert ''url'' (JString (''http://'' @ listen @ ''/'' @ name)) o1
                  in (Routed name url, JObject o2))))"

section \<open>A whole file\<close>

text \<open>The four lists that \<open>plan\<close> fills in as it goes.\<close>

record tally =
  ta_wrapped :: "bytes list"
  ta_already :: "bytes list"
  ta_uncovered :: "(bytes \<times> bytes) list"
  ta_routes :: "(bytes \<times> bytes) list"

definition no_tally :: tally where
  "no_tally = \<lparr>ta_wrapped = [], ta_already = [], ta_uncovered = [], ta_routes = []\<rparr>"

definition place_entry :: "bytes \<Rightarrow> bytes \<Rightarrow> bytes option \<Rightarrow> bytes \<Rightarrow> json \<Rightarrow> tally \<Rightarrow> json \<times> tally" where
  "place_entry shim listen project name cfg t =
     (case wrap_entry shim project cfg of
        (Wrapped, cfg') \<Rightarrow> (cfg', t\<lparr>ta_wrapped := ta_wrapped t @ [name]\<rparr>)
      | (AlreadyWrapped, cfg') \<Rightarrow> (cfg', t\<lparr>ta_already := ta_already t @ [name]\<rparr>)
      | (Skipped, cfg') \<Rightarrow>
          (case route_entry listen name cfg' of
             (Routed route upstream, cfg'') \<Rightarrow>
               (cfg'', t\<lparr>ta_wrapped := ta_wrapped t @ [name], ta_routes := ta_routes t @ [(route, upstream)]\<rparr>)
           | (AlreadyRouted, cfg'') \<Rightarrow> (cfg'', t\<lparr>ta_already := ta_already t @ [name]\<rparr>)
           | (NotCovered why, cfg'') \<Rightarrow> (cfg'', t\<lparr>ta_uncovered := ta_uncovered t @ [(name, why)]\<rparr>)
           | (NotAServer, cfg'') \<Rightarrow> (cfg'', t)))"

fun place_all ::
  "bytes \<Rightarrow> bytes \<Rightarrow> bytes option \<Rightarrow> (bytes \<times> json) list \<Rightarrow> tally \<Rightarrow> (bytes \<times> json) list \<times> tally" where
  "place_all shim listen project [] t = ([], t)"
| "place_all shim listen project ((name, cfg) # m) t =
     (let (cfg', t1) = place_entry shim listen project name cfg t;
          (m', t2) = place_all shim listen project m t1
      in ((name, cfg') # m', t2))"

definition set_member :: "bytes \<Rightarrow> json \<Rightarrow> json \<Rightarrow> json" where
  "set_member k x v = (case v of JObject m \<Rightarrow> JObject (AList.update k x m) | _ \<Rightarrow> v)"

text \<open>The servers under \<open>mcpServers\<close> of a document, if it has such an object.\<close>

definition place_servers :: "bytes \<Rightarrow> bytes \<Rightarrow> bytes option \<Rightarrow> json \<Rightarrow> tally \<Rightarrow> json \<times> tally" where
  "place_servers shim listen project doc t =
     (case Option.bind (jget ''mcpServers'' doc) as_object of
        None \<Rightarrow> (doc, t)
      | Some m \<Rightarrow>
          (let (m', t') = place_all shim listen project m t in (set_member ''mcpServers'' (JObject m') doc, t')))"

fun place_projects :: "bytes \<Rightarrow> bytes \<Rightarrow> (bytes \<times> json) list \<Rightarrow> tally \<Rightarrow> (bytes \<times> json) list \<times> tally" where
  "place_projects shim listen [] t = ([], t)"
| "place_projects shim listen ((dir, entry) # m) t =
     (let (entry', t1) = place_servers shim listen (Some dir) entry t;
          (m', t2) = place_projects shim listen m t1
      in ((dir, entry') # m', t2))"

definition place_document :: "bytes \<Rightarrow> bytes \<Rightarrow> bytes option \<Rightarrow> json \<Rightarrow> json \<times> tally" where
  "place_document shim listen project doc =
     (let (doc1, t1) = (case Option.bind (jget ''projects'' doc) as_object of
            None \<Rightarrow> (doc, no_tally)
          | Some m \<Rightarrow>
              (let (m', t') = place_projects shim listen m no_tally in (set_member ''projects'' (JObject m') doc, t')))
      in place_servers shim listen project doc1 t1)"

text \<open>\<open>pretty\<close> is \<open>serde_json::to_string_pretty\<close>; \<open>None\<close> is an error that skips the file.\<close>

definition plan_file :: "parser \<Rightarrow> printer \<Rightarrow> bytes option \<Rightarrow> target \<Rightarrow> bytes \<Rightarrow> bytes \<Rightarrow> plan option" where
  "plan_file parse pretty contents tg shim listen =
     Option.bind contents (\<lambda>before.
     Option.bind (parse before) (\<lambda>doc.
       let (doc', t) = place_document shim listen (tg_project tg) doc in
       Some \<lparr>pl_path = tg_path tg, pl_kind = tg_kind tg, pl_before = before, pl_after = pretty doc' @ [NL],
         pl_wrapped = ta_wrapped t, pl_already = ta_already t, pl_routes = ta_routes t,
         pl_uncovered = ta_uncovered t\<rparr>))"

section \<open>The hook's settings\<close>

definition LOCAL_READ_MATCHER :: bytes where
  "LOCAL_READ_MATCHER = ''Read|Bash|BashOutput|Grep|Glob|NotebookRead''"

definition HOOK_EVENTS :: "(bytes \<times> bytes) list" where
  "HOOK_EVENTS = [(''PreToolUse'', ''*''), (''PostToolUse'', LOCAL_READ_MATCHER)]"

definition mentions_command :: "bytes \<Rightarrow> json \<Rightarrow> bool" where
  "mentions_command command g =
     (case Option.bind (jget ''hooks'' g) as_array of
        None \<Rightarrow> False
      | Some hs \<Rightarrow> list_ex (\<lambda>h. Option.bind (jget ''command'' h) as_str = Some command) hs)"

definition hook_group :: "bytes \<Rightarrow> bytes \<Rightarrow> json" where
  "hook_group matcher command = jobject [(''matcher'', JString matcher),
     (''hooks'', JArray [jobject [(''type'', JString ''command''), (''command'', JString command)]])]"

text \<open>The loop over the two events: the \<open>hooks\<close> object, what was installed, what was there already.\<close>

fun install_hooks ::
  "bytes \<Rightarrow> (bytes \<times> bytes) list \<Rightarrow> (bytes \<times> json) list \<Rightarrow> bytes list \<Rightarrow> bytes list
     \<Rightarrow> ((bytes \<times> json) list \<times> bytes list \<times> bytes list) option" where
  "install_hooks command [] hooks installed already = Some (hooks, installed, already)"
| "install_hooks command ((event, matcher) # evs) hooks installed already =
     (let groups = (case map_of hooks event of Some g \<Rightarrow> g | None \<Rightarrow> JArray []) in
      case as_array groups of
        None \<Rightarrow> None
      | Some arr \<Rightarrow>
          if list_ex (mentions_command command) arr
          then install_hooks command evs (map_insert event (JArray arr) hooks) installed (already @ [event])
          else install_hooks command evs (map_insert event (JArray (arr @ [hook_group matcher command])) hooks)
                 (installed @ [event]) already)"

definition hook_before :: "bytes option \<Rightarrow> bytes" where
  "hook_before contents =
     (case contents of Some s \<Rightarrow> if trims_to_nothing s then ''{}'' @ [NL] else s | None \<Rightarrow> ''{}'' @ [NL])"

definition plan_hook :: "parser \<Rightarrow> printer \<Rightarrow> bytes option \<Rightarrow> bytes \<Rightarrow> bytes \<Rightarrow> plan option" where
  "plan_hook parse pretty contents path shim =
     (let before = hook_before contents in
      Option.bind (parse before) (\<lambda>doc.
      Option.bind (as_object doc) (\<lambda>obj.
      Option.bind (as_object (case map_of obj ''hooks'' of Some h \<Rightarrow> h | None \<Rightarrow> JObject [])) (\<lambda>hooks.
      Option.bind (install_hooks (utf8_lossy shim @ '' hook'') HOOK_EVENTS hooks [] []) (\<lambda>(hooks', installed, already).
        Some \<lparr>pl_path = path, pl_kind = ClaudeHooks, pl_before = before,
          pl_after = pretty (JObject (map_insert ''hooks'' (JObject hooks') obj)) @ [NL],
          pl_wrapped = installed, pl_already = already, pl_routes = [], pl_uncovered = []\<rparr>)))))"

section \<open>Writing, and putting back\<close>

type_synonym files = "bytes \<Rightarrow> bytes option"

definition BAK :: bytes where "BAK = ''.bak.''"

definition backup_path :: "nat \<Rightarrow> bytes \<Rightarrow> bytes" where
  "backup_path stamp path = path @ BAK @ nat_text stamp"

definition apply_plan :: "nat \<Rightarrow> plan \<Rightarrow> files \<Rightarrow> files" where
  "apply_plan stamp p disk = disk(backup_path stamp (pl_path p) \<mapsto> pl_before p, pl_path p \<mapsto> pl_after p)"

text \<open>
  \<open>backups\<close>: every name with \<open>.bak.\<close> in the listed directories, under the path it would stand for.
  \<open>sort\<close> and \<open>reverse\<close> on the paths put the greatest first.
\<close>

definition saved_from :: "bytes \<Rightarrow> bytes \<Rightarrow> (bytes \<times> bytes) option" where
  "saved_from dir name =
     (case find_sub BAK name of None \<Rightarrow> None | Some i \<Rightarrow> Some (path_join dir (take i name), path_join dir name))"

definition listed :: "(bytes \<times> bytes list) list \<Rightarrow> (bytes \<times> bytes) list" where
  "listed dirs = concat (map (\<lambda>(dir, names). List.map_filter (saved_from dir) names) dirs)"

definition add_save :: "bytes \<times> bytes \<Rightarrow> (bytes \<times> bytes list) list \<Rightarrow> (bytes \<times> bytes list) list" where
  "add_save os m = map_insert (fst os) ((case map_of m (fst os) of Some v \<Rightarrow> v | None \<Rightarrow> []) @ [snd os]) m"

text \<open>A map from paths is walked in their order, which is by components.\<close>

definition path_parts :: "bytes \<Rightarrow> bytes list" where
  "path_parts p = filter (\<lambda>x. x \<noteq> []) (split_on (\<lambda>c. c = CHR ''/'') p)"

definition backups :: "(bytes \<times> bytes list) list \<Rightarrow> (bytes \<times> bytes list) list" where
  "backups dirs = map (\<lambda>(original, saves). (original, rev (sort saves)))
     (sort_key (\<lambda>(original, saves). path_parts original) (fold add_save (listed dirs) []))"

text \<open>A write can be refused, or break off with the file truncated and a part of the text in it.\<close>

datatype write_result = Written | Refused | Torn nat

text \<open>
  \<open>restore\<close> stops at the first copy that fails, be it that the backup cannot be read or that the original cannot be
  written, which is what \<open>copies\<close> says of each path; the copies made so far stay.
\<close>

fun restore_from :: "(bytes \<Rightarrow> write_result) \<Rightarrow> (bytes \<times> bytes list) list \<Rightarrow> bytes list \<Rightarrow> files \<Rightarrow> bytes list option \<times> files" where
  "restore_from copies [] restored disk = (Some restored, disk)"
| "restore_from copies ((original, saves) # rest) restored disk =
     (case saves of
        [] \<Rightarrow> restore_from copies rest restored disk
      | latest # _ \<Rightarrow>
          (case disk latest of
             None \<Rightarrow> (None, disk)
           | Some content \<Rightarrow>
               (case copies original of
                  Written \<Rightarrow> restore_from copies rest (restored @ [original]) (disk(original \<mapsto> content))
                | Refused \<Rightarrow> (None, disk)
                | Torn n \<Rightarrow> (None, disk(original \<mapsto> take n content)))))"

definition restore :: "(bytes \<Rightarrow> write_result) \<Rightarrow> (bytes \<times> bytes list) list \<Rightarrow> files \<Rightarrow> bytes list option \<times> files" where
  "restore copies dirs disk = restore_from copies (backups dirs) [] disk"

section \<open>The diff\<close>

definition str_lines :: "bytes \<Rightarrow> bytes list" where
  "str_lines s =
     (let pieces = split_on (\<lambda>c. c = NL) s;
          whole = map (\<lambda>l. if ends_with l [CR] then butlast l else l) (butlast pieces)
      in if last pieces = [] then whole else whole @ [last pieces])"

definition resync :: "bytes list \<Rightarrow> bytes list \<Rightarrow> nat \<Rightarrow> nat \<Rightarrow> (nat \<times> nat) option" where
  "resync a b i j =
     find (\<lambda>(da, db). i + da < length a \<and> j + db < length b \<and> a ! (i + da) = b ! (j + db))
       (List.product [0..<40] [0..<40])"

definition marked :: "bytes \<Rightarrow> bytes list \<Rightarrow> bytes" where
  "marked mark ls = concat (map (\<lambda>l. mark @ l @ [NL]) ls)"

text \<open>The \<open>while\<close> loop as it stands, which need not end for the model's sake: that it does is a theorem.\<close>

partial_function (option) diff_loop :: "bytes list \<Rightarrow> bytes list \<Rightarrow> nat \<Rightarrow> nat \<Rightarrow> bytes \<Rightarrow> bytes option" where
  "diff_loop a b i j out =
     (if i < length a \<or> j < length b
      then (if i < length a \<and> j < length b \<and> a ! i = b ! j then diff_loop a b (i + 1) (j + 1) out
            else
              (case (case resync a b i j of Some d \<Rightarrow> d | None \<Rightarrow> (length a - i, length b - j)) of
                 (da, db) \<Rightarrow>
                   diff_loop a b (i + da) (j + db)
                     (out @ marked ''- '' (take da (drop i a)) @ marked ''+ '' (take db (drop j b)))))
      else Some out)"

definition diff :: "bytes \<Rightarrow> bytes \<Rightarrow> bytes option" where
  "diff before after = diff_loop (str_lines before) (str_lines after) 0 0 []"

end
