(* ===== verification/Cli.thy ===== *)
theory Cli
  imports Session Observer Http Setup
begin

text \<open>
  \<open>cli/\<close>: what the subcommands compute before and after the parts they start.  Printing is the text that
  is printed.
\<close>

section \<open>mcpwall log\<close>

text \<open>Rust divides towards zero; a remainder has the sign of the dividend.\<close>

definition quot :: "int \<Rightarrow> int \<Rightarrow> int" where
  "quot a b = (if 0 \<le> a then a div b else - ((- a) div b))"

definition rest_of_quot :: "int \<Rightarrow> int \<Rightarrow> int" where
  "rest_of_quot a b = a - b * quot a b"

definition two_digits :: "int \<Rightarrow> bytes" where
  "two_digits n =
     (if n < 0 then CHR ''-'' # nat_text (nat (- n))
      else if n < 10 then CHR ''0'' # nat_text (nat n) else nat_text (nat n))"

definition hhmmss :: "int \<Rightarrow> bytes" where
  "hhmmss ms =
     (let secs = quot ms 1000;
          h = rest_of_quot (quot secs 3600) 24;
          m = rest_of_quot (quot secs 60) 60;
          s = rest_of_quot secs 60
      in two_digits h @ '':'' @ two_digits m @ '':'' @ two_digits s)"

definition pad_right :: "nat \<Rightarrow> bytes \<Rightarrow> bytes" where
  "pad_right n s = s @ replicate (n - length (utf8_chars s)) (CHR '' '')"

definition json_line :: "printer \<Rightarrow> log_line \<Rightarrow> bytes" where
  "json_line render l = render (jobject [(''ts_ms'', ji64 (l_ts l)), (''direction'', JString (l_direction l)),
     (''method'', jopt JString (l_method l)), (''disposition'', JString (l_disposition l)),
     (''verdict'', jopt JString (l_verdict l)), (''rule'', jopt JString (l_rule l)),
     (''server'', jopt JString (l_server l)), (''scope'', JString (l_scope_key l)),
     (''scope_source'', JString (l_scope_source l)), (''bytes'', ji64 (l_bytes l))]) @ [NL]"

definition text_line :: "log_line \<Rightarrow> bytes" where
  "text_line l =
     (let arrow = (if l_direction l = ''to_server'' then ''->'' else ''<-'');
          verdict = (if l_verdict l = Some ''deny'' then ''  BLOCKED''
                     else if l_verdict l = Some ''ask'' then ''  PENDING'' else [])
      in hhmmss (l_ts l) @ ''  '' @ arrow @ '' '' @
         pad_right 28 (case l_method l of Some m \<Rightarrow> m | None \<Rightarrow> ''(response)'') @ '' '' @
         pad_right 12 (case l_server l of Some s \<Rightarrow> s | None \<Rightarrow> ''?'') @ '' '' @ l_scope_key l @ verdict @ [NL])"

definition print_line :: "printer \<Rightarrow> bool \<Rightarrow> log_line \<Rightarrow> bytes" where
  "print_line render as_json l = (if as_json then json_line render l else text_line l)"

text \<open>One pass of \<open>log\<close> and of its \<open>--follow\<close> loop: what is printed, and the last id seen.\<close>

definition log_pass :: "printer \<Rightarrow> bool \<Rightarrow> db \<Rightarrow> int \<Rightarrow> int \<Rightarrow> bytes \<times> int" where
  "log_pass render as_json d n last_id =
     (let rows = tail d n last_id in
      (concat (map (\<lambda>(i, l). print_line render as_json l) rows), fold (\<lambda>(i, l) m. max m i) rows last_id))"

text \<open>The counters of \<open>log --stats\<close>; the two tables under them are left out.\<close>

definition int_text :: "int \<Rightarrow> bytes" where
  "int_text n = (if n < 0 then CHR ''-'' # nat_text (nat (- n)) else nat_text (nat n))"

definition stats_text :: "stats \<Rightarrow> bytes" where
  "stats_text s =
     ''sessions        '' @ int_text (st_sessions s) @ [NL] @
     ''calls           '' @ int_text (st_entries s) @ [NL] @
     ''blocked         '' @ int_text (st_denied s) @ [NL] @
     ''pending         '' @ int_text (st_asked s) @ [NL]"

section \<open>mcpwall wrap\<close>

definition command_line :: "bytes \<Rightarrow> bytes list \<Rightarrow> bytes" where
  "command_line program args = join_with '' '' (map utf8_lossy (program # args))"

definition wrap_session_info :: "observer \<Rightarrow> session_info" where
  "wrap_session_info ob = \<lparr>si_scope_key = observed_scope_key ob,
     si_scope_source = source_str (observed_scope_source ob), si_scope_paths = observed_scope_paths ob,
     si_server = None, si_session_id = ob_session_id ob\<rparr>"

definition wrap_client :: "parser \<Rightarrow> bool \<Rightarrow> bytes option \<Rightarrow> observer \<Rightarrow> client option outcome" where
  "wrap_client parse connected hello ob = connect parse connected hello False (wrap_session_info ob)"

text \<open>The decision point of a session: the daemon if it answered the handshake, otherwise nothing.\<close>

definition chosen_point ::
  "parser \<Rightarrow> (bytes \<Rightarrow> bytes) \<Rightarrow> printer \<Rightarrow> (client \<times> reply list) option point" where
  "chosen_point parse sha render =
     \<lparr>pt_decide = (\<lambda>d ctx. case d of
        None \<Rightarrow> (Inr Allow, None)
      | Some cn \<Rightarrow> (let (ans, cn') = pt_decide (daemon_point parse sha render) cn ctx in (ans, Some cn'))),
      pt_observe = (\<lambda>frame d. map_option (pt_observe (daemon_point parse sha render) frame) d)\<rparr>"

definition wrap_config :: "bytes list \<Rightarrow> bytes option \<Rightarrow> session_config option" where
  "wrap_config command project =
     (case command of [] \<Rightarrow> None | program # args \<Rightarrow> Some ((session_config_new program args)\<lparr>sc_project := project\<rparr>))"

section \<open>mcpwall proxy\<close>

definition proxy_table :: "parser \<Rightarrow> bool \<Rightarrow> bytes option \<Rightarrow> bytes option \<Rightarrow> route_table option" where
  "proxy_table parse present contents listen =
     map_option (\<lambda>t. case listen of Some l \<Rightarrow> t\<lparr>tb_listen := l\<rparr> | None \<Rightarrow> t)
       (if present then load_routes parse contents else Some route_table_default)"

definition proxy_session_info :: session_info where
  "proxy_session_info = \<lparr>si_scope_key = [], si_scope_source = [], si_scope_paths = [],
     si_server = Some ''http-proxy'', si_session_id = 0\<rparr>"

section \<open>mcpwall init\<close>

definition changes :: "plan list \<Rightarrow> nat" where
  "changes plans = sum_list (map (\<lambda>p. length (pl_wrapped p)) plans)"

definition all_uncovered :: "plan list \<Rightarrow> (bytes \<times> bytes) list" where
  "all_uncovered plans = concat (map pl_uncovered plans)"

definition uncovered_text :: "plan \<Rightarrow> bytes" where
  "uncovered_text p = concat (map (\<lambda>(name, reason). ''  not covered: '' @ name @ ''  ('' @ reason @ '')'' @ [NL]) (pl_uncovered p))"

text \<open>What is said of one file before anything is written; the diff may fail to end only in \<open>diff\<close> itself.\<close>

definition plan_text :: "plan \<Rightarrow> bytes option" where
  "plan_text p =
     (let path = utf8_lossy (pl_path p) in
      if is_noop p
      then Some ((if pl_already p = [] then []
                  else [NL] @ path @ ''  already installed ('' @ join_with '', '' (pl_already p) @ '')'' @ [NL]) @
                 uncovered_text p)
      else map_option (\<lambda>d.
             [NL] @ path @ ''  ['' @ kind_label (pl_kind p) @ '']'' @ [NL] @
             ''  '' @ (if pl_kind p = ClaudeHooks then ''events'' else ''servers'') @ '': '' @
             join_with '', '' (pl_wrapped p) @ [NL] @ uncovered_text p @
             concat (map (\<lambda>l. ''  '' @ l @ [NL]) (str_lines d)))
           (diff (pl_before p) (pl_after p)))"

definition restore_text :: "bytes list \<Rightarrow> bytes" where
  "restore_text restored =
     (if restored = [] then ''no backup found.'' @ [NL]
      else concat (map (\<lambda>p. ''restored  '' @ utf8_lossy p @ [NL]) restored))"

definition apply_plans :: "nat \<Rightarrow> plan list \<Rightarrow> files \<Rightarrow> files" where
  "apply_plans stamp plans disk = fold (\<lambda>p disk. if is_noop p then disk else apply_plan stamp p disk) plans disk"

definition add_routes :: "plan list \<Rightarrow> route_table \<Rightarrow> route_table" where
  "add_routes plans t =
     t\<lparr>tb_routes := fold (\<lambda>(name, upstream). map_insert name upstream) (concat (map pl_routes plans)) (tb_routes t)\<rparr>"

text \<open>The table is written only when there is a route to add; \<open>None\<close> for it means not written.\<close>

definition init_run :: "nat \<Rightarrow> bool \<Rightarrow> plan list \<Rightarrow> route_table \<Rightarrow> files \<Rightarrow> files \<times> route_table option" where
  "init_run stamp really plans t disk =
     (if changes plans = 0 \<or> \<not> really then (disk, None)
      else (apply_plans stamp plans disk,
            if concat (map pl_routes plans) = [] then None else Some (add_routes plans t)))"

section \<open>What they guarantee\<close>

lemma init_shows_before_it_writes: "init_run stamp False plans t disk = (disk, None)"
  by (simp add: init_run_def)

lemma hhmmss_width:
  assumes "0 \<le> ms"
  shows "length (hhmmss ms) = 8"
proof -
  have d: "length (two_digits n) = 2" if "0 \<le> n" "n < 100" for n
  proof -
    have "nat_text (nat n) = [char_of (48 + nat n)]" if "n < 10"
      using that \<open>0 \<le> n\<close> by (subst nat_text.simps) (simp add: nat_less_iff)
    moreover have "length (nat_text (nat n)) = 2" if "10 \<le> n"
      using that \<open>n < 100\<close> by (subst nat_text.simps, subst nat_text.simps) (auto simp: nat_less_iff)
    ultimately show ?thesis using that by (auto simp: two_digits_def)
  qed
  have r: "0 \<le> rest_of_quot a b \<and> rest_of_quot a b < b" if "0 \<le> a" "0 < b" for a b
    using that by (simp add: rest_of_quot_def quot_def minus_mult_div_eq_mod)
  have q: "0 \<le> quot a b" if "0 \<le> a" "0 < b" for a b using that by (simp add: quot_def pos_imp_zdiv_nonneg_iff)
  have "0 \<le> quot ms 1000" "0 \<le> quot (quot ms 1000) 3600" "0 \<le> quot (quot ms 1000) 60" using assms q by simp_all
  then show ?thesis
    using r [of "quot (quot ms 1000) 3600" 24] r [of "quot (quot ms 1000) 60" 60] r [of "quot ms 1000" 60]
    by (simp add: hhmmss_def Let_def d)
qed

text \<open>A session that found no daemon, or cannot write to it, stays that way, and is never blocked.\<close>

definition without_daemon :: "(client \<times> reply list) option \<Rightarrow> bool" where
  "without_daemon d \<longleftrightarrow> (case d of None \<Rightarrow> True | Some cn \<Rightarrow> mute cn)"

interpretation wrapped: lenient_point "chosen_point parse sha render" without_daemon
proof (unfold_locales, goal_cases)
  case (1 d ctx ans d')
  then show ?case
    using mute_shim.decide_ok [of _ parse sha render ctx]
    by (cases d) (auto simp: chosen_point_def without_daemon_def split: prod.splits)
next
  case (2 d f)
  then show ?case
    using mute_shim.observe_ok by (cases d) (auto simp: chosen_point_def without_daemon_def)
qed

lemma wrap_client_session:
  "wrap_client parse connected hello ob = Returned (Some c) \<Longrightarrow> cl_session c = wrap_session_info ob \<and> \<not> cl_fail_closed c"
  by (auto simp: wrap_client_def dest: connect_fresh)

text \<open>
  C34: A project whose path is not UTF-8 has no firewall: JSON cannot carry its scope, so that the first
  question to the daemon is lost before it is sent, and the session goes on without a policy; every complete line of
  the client reaches the server and nothing is refused, whatever the daemon would have answered.
\<close>

theorem unwritable_scope_is_unfiltered:
  assumes "wrap_client parse connected hello ob = Returned (Some c)"
    and "p \<in> set (observed_scope_paths ob)" and "\<not> utf8_valid p"
    and "memchr_ok mc" and "\<forall>c \<in> set cs. c \<noteq> []" and "wrap_config command project = Some cfg"
  shows "\<exists>r. pump_run mc parse render (up_pump cfg (chosen_point parse sha render)) (map Read cs)
      \<lparr>rl_out = [], rl_denied = [], rl_notes = [], rl_state = Some (c, answers)\<rparr> = Some r \<and> rl_denied r = [] \<and>
    prefix (concat (map (\<lambda>l. l @ [NL]) (filter (good_line DEFAULT_MAX_FRAME_BYTES) (butlast (lines (concat cs))))))
      (rl_out r)"
proof -
  have cfg: "sc_max_frame_bytes cfg = DEFAULT_MAX_FRAME_BYTES"
    using assms(6) by (auto simp: wrap_config_def session_config_new_def split: list.splits)
  have "without_daemon (Some (c, answers))"
    using wrap_client_session [OF assms(1)] assms(2,3)
    by (auto simp: without_daemon_def mute_def wrap_session_info_def list_all_iff)
  then show ?thesis
    using wrapped.run_lenient [OF assms(4,5) _ _ refl, of "up_pump cfg (chosen_point parse sha render)" parse sha render
        "\<lparr>rl_out = [], rl_denied = [], rl_notes = [], rl_state = Some (c, answers)\<rparr>" parse render]
    by (auto simp: up_pump_def cfg prefix_def split del: if_split)
qed

definition odd_observer :: observer where
  "odd_observer = observer_new (\<lambda>_. None) 0 1 (Some 7) ''server'' None (Some [CHR ''/'', CHR 0xFF])
     (journal_start \<lparr>db_sessions = [], db_entries = [], db_tools = []\<rparr>)"

theorem unwritable_scope_is_unfiltered_witness:
  "\<exists>parse c r. wrap_client parse True (Some ''h'') odd_observer = Returned (Some c) \<and>
     pump_run first_index parse (\<lambda>_. []) (up_pump (session_config_new ''srv'' []) (chosen_point parse (\<lambda>x. x) (\<lambda>_. [])))
       (map Read [''{}'', [NL]]) \<lparr>rl_out = [], rl_denied = [], rl_notes = [], rl_state = Some (c, [Line ''no''])\<rparr> = Some r \<and>
     prefix (''{}'' @ [NL]) (rl_out r)"
proof -
  let ?hi = "hello_default ''b''"
  let ?parse = "\<lambda>s. if s = ''h'' then Some (enc_hello ?hi) else None"
  have "dec_hello (enc_hello ?hi) = Some ?hi"
    by (rule dec_enc_hello) (simp add: hello_wf_def hello_default_def IPC_VERSION_def)
  then obtain c where c: "wrap_client ?parse True (Some ''h'') odd_observer = Returned (Some c)"
    by (simp add: wrap_client_def connect_def verdict_timeout_def compatible_def hello_default_def)
  have p: "[CHR ''/'', CHR 0xFF] \<in> set (observed_scope_paths odd_observer)" "\<not> utf8_valid [CHR ''/'', CHR 0xFF]"
    by code_simp+
  have l: "filter (good_line DEFAULT_MAX_FRAME_BYTES) (butlast (lines (concat [''{}'', [NL]]))) = [''{}'']"
    by (simp add: good_line_def strip_cr_len_def DEFAULT_MAX_FRAME_BYTES_def)
  have w: "wrap_config [''srv''] None = Some (session_config_new ''srv'' [])"
    by (simp add: wrap_config_def session_config_new_def)
  show ?thesis
    using unwritable_scope_is_unfiltered [where cs = "[''{}'', [NL]]" and render = "\<lambda>_. []" and sha = "\<lambda>x. x" and
        answers = "[Line ''no'']", OF c p memchr_ok_first_index _ w, unfolded l] c by auto
qed

end
