(* ===== verification/Wrap.thy ===== *)
theory Wrap
  imports Session_System Cli
begin

text \<open>
  \<open>mcpwall wrap\<close> (\<open>cli/wrap.rs\<close>): what a session starts with, and what its end waits for.  The relay shows frames to
  the observer while the writer task of the journal takes its turns; how the two are interleaved is an argument.
\<close>

section \<open>The start\<close>

record wrap_args =
  wa_project :: "bytes option"
  wa_socket :: "bytes option"
  wa_command :: "bytes list"

text \<open>A journal that cannot be opened is replaced by one in memory.\<close>

definition empty_db :: db where
  "empty_db = \<lparr>db_sessions = [], db_entries = [], db_tools = []\<rparr>"

definition wrap_journal :: "db option \<Rightarrow> journal" where
  "wrap_journal opened = journal_start (case opened of Some d \<Rightarrow> d | None \<Rightarrow> empty_db)"

definition wrap_start ::
  "parser \<Rightarrow> (bytes \<Rightarrow> bytes option) \<Rightarrow> int \<Rightarrow> wrap_args \<Rightarrow> db option \<Rightarrow> int option \<Rightarrow> bytes option \<Rightarrow> bool \<Rightarrow> bytes option \<Rightarrow>
   (session_config \<times> observer \<times> client option) option outcome" where
  "wrap_start parse fs now a opened session cwd connected hello =
     (case wa_command a of
        [] \<Rightarrow> Returned None
      | program # args \<Rightarrow>
          (let ob = observer_new fs now 0 session (command_line program args) (wa_project a) cwd (wrap_journal opened) in
           obind (wrap_client parse connected hello ob) (\<lambda>c.
             Returned (map_option (\<lambda>cfg. (cfg, ob, c)) (wrap_config (wa_command a) (wa_project a))))))"

section \<open>The session and its end\<close>

datatype beat = Shows int notice | Turn

fun on_beat :: "parser \<Rightarrow> (bytes \<Rightarrow> bytes option) \<Rightarrow> beat \<Rightarrow> observer \<Rightarrow> observer" where
  "on_beat parse fs (Shows now n) ob = on_notice parse fs now n ob"
| "on_beat parse fs Turn ob = ob\<lparr>ob_journal := writer_turn True (ob_journal ob)\<rparr>"

definition shown_in :: "beat list \<Rightarrow> notice list" where
  "shown_in bs = List.map_filter (\<lambda>b. case b of Shows now n \<Rightarrow> Some n | Turn \<Rightarrow> None) bs"

text \<open>\<open>flush().await\<close> with reply channel \<open>k\<close>: the request, and turns of the writer until the reply is there.\<close>

definition after_turns :: "nat \<Rightarrow> nat \<Rightarrow> journal \<Rightarrow> journal" where
  "after_turns k n j = (writer_turn True ^^ n) (flush_request k j)"

definition flushed :: "nat \<Rightarrow> journal \<Rightarrow> bool" where
  "flushed k j \<longleftrightarrow> (k, None) \<in> set (j_replies j)"

section \<open>What is refused reaches the disk\<close>

declare writer_turn.simps [simp del]

definition denied_in :: "entry list \<Rightarrow> (int \<times> bytes option \<times> bytes option) list" where
  "denied_in es = map (\<lambda>e. (e_session e, e_method e, e_rule e)) (filter (\<lambda>e. e_verdict e = Some ''deny'') es)"

lemma denied_in_simps [simp]:
  "denied_in [] = []" "denied_in (xs @ ys) = denied_in xs @ denied_in ys"
  "denied_in [e] = (if e_verdict e = Some ''deny'' then [(e_session e, e_method e, e_rule e)] else [])"
  by (simp_all add: denied_in_def)

lemma denied_decisions: "denied_in (filter is_decision es) = denied_in es"
  by (induction es) (auto simp: denied_in_def is_decision_def)

text \<open>The journal of an observer whose session is in the database.\<close>

definition ready :: "observer \<Rightarrow> bool" where
  "ready ob \<longleftrightarrow> tidy (ob_journal ob) \<and> ob_session_id ob \<in> fst ` set (db_sessions (j_db (ob_journal ob)))"

definition trail :: "observer \<Rightarrow> (int \<times> bytes option \<times> bytes option) list" where
  "trail ob = denied_in (decision_trail (ob_journal ob))"

lemma ready_kept:
  assumes "ready ob" and "kept_by (ob_journal ob) (ob_journal ob')" and "ob_session_id ob' = ob_session_id ob"
  shows "ready ob' \<and> trail ob' = trail ob"
  using assms by (auto simp: ready_def trail_def kept_by_def)

lemma ready_logged:
  assumes "ready ob" and "e_session e = ob_session_id ob"
  shows "ready (ob\<lparr>ob_journal := log e (ob_journal ob)\<rparr>) \<and>
    trail (ob\<lparr>ob_journal := log e (ob_journal ob)\<rparr>) = trail ob @ denied_in [e]"
proof -
  have k: "known_session (ob_journal ob) e" using assms by (simp add: ready_def known_session_def foreign_key_ok_def)
  have "denied_in (if is_decision e then [e] else []) = denied_in [e]" by (auto simp: is_decision_def)
  then show ?thesis
    using log_step [OF _ k] assms(1) by (simp add: ready_def trail_def del: denied_in_simps(3))
qed

lemma ready_semantics:
  assumes "ready ob"
  shows "ready (observe_semantics parse fs ev ob) \<and> trail (observe_semantics parse fs ev ob) = trail ob"
proof (rule ready_kept [OF assms])
  have "kept_by (ob_journal ob) (ob_journal ob)" using assms by (simp add: ready_def kept_by_def)
  moreover have "kept_by (ob_journal ob) (update_session i row (ob_journal ob))" for i row
    unfolding update_session_def by (rule enqueue_step) (use assms in \<open>simp_all add: ready_def\<close>)
  ultimately show "kept_by (ob_journal ob) (ob_journal (observe_semantics parse fs ev ob))"
    by (auto simp: observe_semantics_def Let_def noted_keeps split: direction.split option.split)
qed simp

definition denied_event :: "int \<Rightarrow> frame_event \<Rightarrow> (int \<times> bytes option \<times> bytes option) list" where
  "denied_event sid ev = denied_in [frame_entry 0 sid ev]"

lemma beat_step:
  assumes "ready ob"
  shows "ready (on_beat parse fs b ob) \<and> ob_session_id (on_beat parse fs b ob) = ob_session_id ob \<and>
    trail (on_beat parse fs b ob) = trail ob @ concat (map (denied_event (ob_session_id ob)) (events (shown_in [b])))"
proof (cases b)
  case Turn
  have "tidy (ob_journal ob)" using assms by (simp add: ready_def)
  then show ?thesis
    using ready_kept [OF assms, of "ob\<lparr>ob_journal := writer_turn True (ob_journal ob)\<rparr>"] writer_turn_keeps Turn
    by (simp add: shown_in_def map_filter_Cons)
next
  case (Shows now n)
  show ?thesis
  proof (cases n)
    case (OnFrame ev)
    let ?ob = "if ev_scan ev \<noteq> NoMethod \<or> ev_direction ev = ToClient then observe_semantics parse fs ev ob else ob"
    have r: "ready ?ob" "trail ?ob = trail ob" "ob_session_id ?ob = ob_session_id ob"
      using assms ready_semantics [OF assms, of parse fs ev] by auto
    show ?thesis
      using ready_logged [OF r(1), of "frame_entry now (ob_session_id ?ob) ev"] r(2,3)
      by (simp add: Shows OnFrame on_frame_def shown_in_def map_filter_Cons denied_event_def Let_def frame_entry_def
          del: denied_in_simps(3)) (simp add: denied_in_def)
  next
    case (OnAnomaly a)
    have "e_session (anomaly_entry now (ob_session_id ob) a) = ob_session_id ob" "e_verdict (anomaly_entry now (ob_session_id ob) a) = None"
      by (cases a; simp add: anomaly_entry_def entry_now_def)+
    then show ?thesis
      using ready_logged [OF assms, of "anomaly_entry now (ob_session_id ob) a"]
      by (simp add: Shows OnAnomaly on_anomaly_def shown_in_def map_filter_Cons)
  next
    case (OnEof d st)
    then show ?thesis using assms by (simp add: Shows shown_in_def map_filter_Cons)
  qed
qed

lemma beats_trail:
  assumes "ready ob"
  shows "ready (fold (on_beat parse fs) bs ob) \<and> ob_session_id (fold (on_beat parse fs) bs ob) = ob_session_id ob \<and>
    trail (fold (on_beat parse fs) bs ob) = trail ob @ concat (map (denied_event (ob_session_id ob)) (events (shown_in bs)))"
  using assms
proof (induction bs arbitrary: ob)
  case Nil
  then show ?case by (simp add: shown_in_def)
next
  case (Cons b bs)
  have "shown_in (b # bs) = shown_in [b] @ shown_in bs" by (simp add: shown_in_def map_filter_Cons split: option.split)
  then show ?case using beat_step [OF Cons.prems, of parse fs b] Cons.IH [of "on_beat parse fs b ob"] by simp
qed

lemma message_frame:
  "j_decisions (on_msg io m j) = j_decisions j"
  "(k, None) \<in> set (j_replies (on_msg io m j)) \<longleftrightarrow> (k, None) \<in> set (j_replies j) \<or> m = MFlush k"
  by (cases m; auto simp: flush_def Let_def split: prod.split)+

lemma turn_frame:
  assumes "tidy j"
  shows "j_decisions (writer_turn True j) = tl (j_decisions j)"
    "flushed k (writer_turn True j) \<longleftrightarrow> flushed k j \<or> (\<exists>ms. j_decisions j = MFlush k # ms)"
  using assms
  by (auto simp: writer_turn.simps flushed_def message_frame tidy_def flush_def split: list.split simp del: on_msg.simps)

lemma turns_kept: "tidy j \<Longrightarrow> kept_by j ((writer_turn True ^^ n) j)"
proof (induction n arbitrary: j)
  case (Suc n)
  note t = writer_turn_keeps [OF Suc.prems]
  then have "tidy (writer_turn True j)" by (simp add: kept_by_def)
  then show ?case using kept_trans [OF t Suc.IH] by (simp add: funpow_swap1)
qed (simp add: kept_by_def)

lemma no_decisions: "tidy j \<Longrightarrow> j_decisions j = [] \<Longrightarrow> j_decisions ((writer_turn True ^^ n) j) = []"
proof (induction n arbitrary: j)
  case (Suc n)
  then show ?case
    using Suc.IH [of "writer_turn True j"] writer_turn_keeps [of j] turn_frame(1) [of j]
    by (simp add: funpow_swap1 kept_by_def)
qed simp

text \<open>The decisions are taken in order, so the answer to a flush comes after everything before it.\<close>

lemma flush_comes_last:
  assumes "tidy j" and "j_decisions j = ds @ [MFlush k]" and "MFlush k \<notin> set ds" and "\<not> flushed k j"
    and "flushed k ((writer_turn True ^^ n) j)"
  shows "j_decisions ((writer_turn True ^^ n) j) = []"
  using assms
proof (induction n arbitrary: j ds)
  case (Suc n)
  let ?j = "writer_turn True j"
  have t: "tidy ?j" using writer_turn_keeps [OF Suc.prems(1)] by (simp add: kept_by_def)
  have n: "(writer_turn True ^^ Suc n) j = (writer_turn True ^^ n) ?j" by (simp add: funpow_swap1)
  show ?case
  proof (cases ds)
    case Nil
    then show ?thesis using turn_frame(1) [OF Suc.prems(1)] Suc.prems(2) no_decisions [OF t] n by simp
  next
    case (Cons d ds')
    then have "j_decisions ?j = ds' @ [MFlush k]" "\<not> flushed k ?j"
      using turn_frame [OF Suc.prems(1)] Suc.prems(2-4) by auto
    then show ?thesis using Suc.IH [OF t, of ds'] Suc.prems(3,5) Cons n by simp
  qed
qed simp

lemma flush_is_answered:
  assumes "tidy j" and "j_decisions j = ds @ [MFlush k]"
  shows "flushed k ((writer_turn True ^^ Suc (length ds)) j)"
  using assms
proof (induction ds arbitrary: j)
  case Nil
  then show ?case using turn_frame(2) [of j k] by simp
next
  case (Cons d ds)
  have "tidy (writer_turn True j)" using writer_turn_keeps [OF Cons.prems(1)] by (simp add: kept_by_def)
  then show ?case
    using Cons.IH [of "writer_turn True j"] turn_frame(1) [OF Cons.prems(1)] Cons.prems(2)
    by (simp add: funpow_Suc_right [of "Suc (length ds)"] del: funpow.simps)
qed

text \<open>Before the end of the session nobody asks for a flush.\<close>

definition unflushed :: "journal \<Rightarrow> bool" where
  "unflushed j \<longleftrightarrow> (\<forall>x. MFlush x \<notin> set (j_decisions j) \<and> \<not> flushed x j)"

lemma unflushed_log [simp]: "unflushed j \<Longrightarrow> unflushed (log e j)"
  "unflushed j \<Longrightarrow> unflushed (update_session i row j)"
  by (simp_all add: unflushed_def flushed_def log_def update_session_def)

lemma unflushed_beat:
  assumes "ready ob" and "unflushed (ob_journal ob)"
  shows "unflushed (ob_journal (on_beat parse fs b ob))"
proof (cases b)
  case Turn
  have t: "tidy (ob_journal ob)" using assms(1) by (simp add: ready_def)
  have "\<not> flushed x (writer_turn True (ob_journal ob))" for x
    using turn_frame(2) [OF t, of x] assms(2) by (auto simp: unflushed_def)
  moreover have "set (tl (j_decisions (ob_journal ob))) \<subseteq> set (j_decisions (ob_journal ob))"
    by (cases "j_decisions (ob_journal ob)") auto
  ultimately show ?thesis using Turn turn_frame(1) [OF t] assms(2) by (auto simp: unflushed_def)
next
  case (Shows now n)
  have s: "unflushed (ob_journal (observe_semantics parse fs ev ob))" for ev
    using assms(2) by (simp add: observe_semantics_def Let_def noted_keeps split: direction.split option.split)
  then show ?thesis
    using Shows assms(2) by (cases n) (simp_all add: on_frame_def on_anomaly_def Let_def)
qed

lemma unflushed_beats: "ready ob \<Longrightarrow> unflushed (ob_journal ob) \<Longrightarrow> unflushed (ob_journal (fold (on_beat parse fs) bs ob))"
proof (induction bs arbitrary: ob)
  case (Cons b bs)
  then show ?case using beat_step [OF Cons.prems(1)] unflushed_beat [OF Cons.prems] by simp
qed simp

section \<open>What a session shows of its refusals\<close>

text \<open>The row of a step that refused a frame, at the end of the client's stream as before it.\<close>

fun turned_down :: "int \<Rightarrow> act \<Rightarrow> (int \<times> bytes option \<times> bytes option) list" where
  "turned_down sid (UpResult (Inr f) (Some (Deny rule msg))) = [(sid, found (scan_method (content f)), Some rule)]"
| "turned_down sid (UpEnd (Some (f, Some (Deny rule msg)))) = [(sid, found (scan_method (content f)), Some rule)]"
| "turned_down sid a = []"

lemma denied_seen:
  "denied_event sid (frame_seen P f v) =
     (case v of Some (Deny rule msg) \<Rightarrow> [(sid, found (scan_method (content f)), Some rule)] | _ \<Rightarrow> [])"
  by (auto simp: denied_event_def denied_in_def frame_entry_def frame_seen_def Let_def split: option.split verdict.split)

lemma result_events:
  "events (rl_notes (handle_result parse render P x r)) = events (rl_notes r) @
     (case x of Inr f \<Rightarrow> [frame_seen P f (fst (verdict_on P f (rl_state r)))] | Inl e \<Rightarrow> [])"
proof (cases x)
  case (Inl e)
  then show ?thesis by (cases e) simp
next
  case (Inr f)
  obtain w r' v d where h: "handle parse render P f r = (w, r')" "verdict_on P f (rl_state r) = (v, d)"
    by (meson surj_pair)
  show ?thesis using handle_events [OF h] h Inr by simp
qed

lemma end_events:
  "events (rl_notes (pump_end parse render P sp r)) = events (rl_notes r) @
     (case fst (finish sp) of Some f \<Rightarrow> [frame_seen P f (fst (verdict_on P f (rl_state r)))] | None \<Rightarrow> [])"
proof -
  obtain residue sp' where fin: "finish sp = (residue, sp')" by fastforce
  let ?r = "note_down (OnAnomaly (Unterminated (pu_direction P))) r"
  show ?thesis
  proof (cases residue)
    case None
    then show ?thesis using fin by (simp add: pump_end_def)
  next
    case (Some f)
    obtain w r' v d where h: "handle parse render P f ?r = (w, r')" "verdict_on P f (rl_state ?r) = (v, d)"
      by (meson surj_pair)
    then show ?thesis using handle_events [OF h] fin Some by (simp add: pump_end_def)
  qed
qed

lemma session_notes [simp]:
  "rl_notes (as_up s) = se_notes s" "rl_notes (as_down s) = se_notes s" "se_notes (from_up r s) = rl_notes r"
  "se_notes (from_down r s) = rl_notes r"
  by (simp_all add: as_up_def as_down_def from_up_def from_down_def)

definition refused_rows :: "int \<Rightarrow> notice list \<Rightarrow> (int \<times> bytes option \<times> bytes option) list" where
  "refused_rows sid notes = concat (map (denied_event sid) (events notes))"

lemma step_shows:
  assumes "session_step mc parse render c pt s a s'"
  shows "refused_rows sid (se_notes s') = refused_rows sid (se_notes s) @ turned_down sid a"
  using assms
  by (induction rule: session_step.induct)
    (auto simp: refused_rows_def result_events end_events denied_seen verdict_now_def split: sum.split option.split verdict.split)

lemma run_shows:
  "session_run mc parse render c pt (session_start c d) as s \<Longrightarrow>
   refused_rows sid (se_notes s) = concat (map (turned_down sid) as)"
proof (induction rule: session_run.induct)
  case nothing
  then show ?case by (simp add: refused_rows_def session_start_def)
next
  case (another as s a s')
  then show ?case using step_shows [OF another(2)] by simp
qed

text \<open>What is on the disk once the final flush has been answered is all that was decided.\<close>

lemma flush_writes_all:
  assumes "ready ob" and "unflushed (ob_journal ob)" and "j = ob_journal (fold (on_beat parse canon) bs ob)"
    and "flushed k (after_turns k n j)"
  shows "denied_in (written (after_turns k n j)) = trail ob @ refused_rows (ob_session_id ob) (shown_in bs)"
proof -
  let ?ob = "fold (on_beat parse canon) bs ob" and ?j = "flush_request k j"
  note b = beats_trail [OF assms(1), of parse canon bs]
  have t: "tidy j" using b by (simp add: ready_def assms(3))
  have u: "MFlush k \<notin> set (j_decisions j)" "\<not> flushed k j"
    using unflushed_beats [OF assms(1,2), of parse canon bs] by (simp_all add: unflushed_def assms(3))
  have kept: "kept_by j ?j" unfolding flush_request_def by (rule enqueue_step [OF t]) simp
  then have tj: "tidy ?j" by (simp add: kept_by_def)
  have "j_decisions (after_turns k n j) = []"
    unfolding after_turns_def
    by (rule flush_comes_last [OF tj _ u(1)]) (use u(2) assms(4) in \<open>simp_all add: flush_request_def flushed_def after_turns_def\<close>)
  moreover have "kept_by j (after_turns k n j)"
    using kept_trans [OF kept turns_kept [OF tj]] by (simp add: after_turns_def)
  ultimately have "filter is_decision (written (after_turns k n j)) = decision_trail j"
    by (simp add: kept_by_def decision_trail_def queued_def map_filter_simps)
  then have "denied_in (written (after_turns k n j)) = trail ?ob"
    using denied_decisions [of "written (after_turns k n j)"] by (simp add: trail_def assms(3))
  then show ?thesis using b by (simp add: refused_rows_def)
qed

text \<open>
  C9: A refusal is in the database when \<open>wrap\<close> exits: for any run of the session, both pumps, the refusals on their way
  between them and the ends of both streams included, any decision point, and any interleaving of what the session
  shows to the observer with the turns of the writer task, once the journal's final flush has been answered, the table
  of entries holds, after what it had to hold before, one row for every frame of the client that was refused, the
  last unterminated one among them, in the order in which they were refused, with the session, the method and the rule, and
  no other refusal: no row says so of a frame of the server.  The session must be in the database, and the disk oblige.
\<close>

theorem refusals_reach_the_disk:
  assumes "session_run mc parse render c pt (session_start c d) as s"
    and "ready ob" and "unflushed (ob_journal ob)" and "shown_in bs = se_notes s"
    and "j = ob_journal (fold (on_beat parse canon) bs ob)" and "flushed k (after_turns k n j)"
  shows "denied_in (written (after_turns k n j)) = trail ob @ concat (map (turned_down (ob_session_id ob)) as)"
  using flush_writes_all [OF assms(2,3,5,6)] run_shows [OF assms(1)] assms(4) by simp

definition a_session_observer :: observer where
  "a_session_observer = \<lparr>ob_journal = journal_start \<lparr>db_sessions = [(1, start_row 0 ''server'' resolver_new)], db_entries = [], db_tools = []\<rparr>,
     ob_session_id = 1, ob_row = start_row 0 ''server'' resolver_new, ob_scope = resolver_new, ob_initialize_id = None, ob_dirty = False\<rparr>"

lemma call_without_newline:
  "next_frame first_index (push a_call (splitter_new 99)) =
     Some (None, (push a_call (splitter_new 99))\<lparr>fs_scanned := length a_call\<rparr>)"
  "fst (finish ((push a_call (splitter_new 99))\<lparr>fs_scanned := length a_call\<rparr>)) = Some \<lparr>raw = a_call, content_len = 23\<rparr>"
  "content \<lparr>raw = a_call, content_len = 23\<rparr> = a_call"
proof -
  have a: "first_index NL a_call = None" "length a_call = 23" by code_simp+
  have b: "fs_buf (push a_call (splitter_new 99)) = a_call" "fs_scanned (push a_call (splitter_new 99)) = 0"
    "fs_start (push a_call (splitter_new 99)) = 0" "\<not> fs_discarding (push a_call (splitter_new 99))"
    "fs_max (push a_call (splitter_new 99)) = 99"
    by (simp_all add: push_def splitter_new_def)
  show "next_frame first_index (push a_call (splitter_new 99)) =
      Some (None, (push a_call (splitter_new 99))\<lparr>fs_scanned := length a_call\<rparr>)"
    by (subst next_frame.simps) (simp only: a b buffered_def drop_0 option.case if_False diff_zero simp_thms, simp)
qed code_simp+

theorem refusals_reach_the_disk_witness:
  "\<exists>s n. session_run first_index (\<lambda>_. None) (\<lambda>_. []) small_session (pu_point refusing_pump) (session_start small_session 0)
      [DownRead ''x'', UpRead a_call, Quiet, UpEnd (Some (\<lparr>raw = a_call, content_len = 23\<rparr>, Some (Deny ''r'' ''m'')))] s \<and>
    denied_in (written (after_turns 5 n
      (ob_journal (fold (on_beat (\<lambda>_. None) (\<lambda>_. None)) (Turn # map (Shows 0) (se_notes s) @ [Turn]) a_session_observer)))) =
    [(1, Some ''tools/call'', Some ''r'')]"
proof -
  let ?step = "session_step first_index (\<lambda>_. None) (\<lambda>_. []) small_session (pu_point refusing_pump)"
  let ?run = "session_run first_index (\<lambda>_. None) (\<lambda>_. []) small_session (pu_point refusing_pump) (session_start small_session 0)"
  let ?f = "\<lparr>raw = a_call, content_len = 23\<rparr>" and ?v = "Some (Deny ''r'' ''m'')"
  let ?s0 = "session_start small_session (0 :: nat)"
  define s1 where "s1 = ?s0\<lparr>se_down := push ''x'' (se_down ?s0), se_down_phase := Draining\<rparr>"
  define s2 where "s2 = s1\<lparr>se_up := push a_call (se_up s1), se_up_phase := Draining\<rparr>"
  define s3 where "s3 = s2\<lparr>se_up := (push a_call (splitter_new 99))\<lparr>fs_scanned := length a_call\<rparr>, se_up_phase := Reading\<rparr>"
  have up: "se_up s1 = splitter_new 99" by (simp add: s1_def session_start_def small_session_def)
  have st: "?step ?s0 (DownRead ''x'') s1" unfolding s1_def by (rule down_read) (simp_all add: session_start_def)
  have "a_call \<noteq> []" by code_simp
  then have st2: "?step s1 (UpRead a_call) s2" unfolding s2_def by (intro up_read) (simp_all add: s1_def session_start_def)
  have st3: "?step s2 Quiet s3"
    unfolding s3_def by (rule up_drained) (simp_all add: s2_def up call_without_newline(1))
  have "se_up s3 = (push a_call (splitter_new 99))\<lparr>fs_scanned := length a_call\<rparr>" by (simp add: s3_def)
  then have res: "fst (finish (se_up s3)) = Some ?f" by (simp only: call_without_newline(2))
  have "fst (verdict_on refusing_pump ?f p) = ?v" for p
    by (simp add: verdict_on_def judge_frame_def refusing_pump_def Let_def call_without_newline(3) call_scan)
  then have "verdict_now (up_pump small_session (pu_point refusing_pump)) ?f s3 = ?v"
    by (simp add: small_up verdict_now_def)
  then obtain s where st4: "?step s3 (UpEnd (Some (?f, ?v))) s"
    using up_end [of s3 first_index "\<lambda>_. None" "\<lambda>_. []" small_session "pu_point refusing_pump"] res by (force simp: s3_def)
  have run: "?run [DownRead ''x'', UpRead a_call, Quiet, UpEnd (Some (?f, ?v))] s"
  proof -
    have "?run ([] @ [DownRead ''x'']) s1" by (rule another, rule nothing, rule st)
    from another [OF another [OF another [OF this st2] st3] st4] show ?thesis by simp
  qed
  let ?bs = "Turn # map (Shows 0) (se_notes s) @ [Turn]"
  let ?j = "ob_journal (fold (on_beat (\<lambda>_. None) (\<lambda>_. None)) ?bs a_session_observer)"
  have ready: "ready a_session_observer" and none: "trail a_session_observer = []" "ob_session_id a_session_observer = 1"
    by (simp_all add: ready_def trail_def a_session_observer_def journal_start_def tidy_def queued_def map_filter_simps
        BATCH_MAX_def decision_trail_def written_def)
  have shown: "shown_in ?bs = se_notes s"
  proof -
    have "List.map_filter (\<lambda>b. case b of Shows now n \<Rightarrow> Some n | Turn \<Rightarrow> None) (map (Shows 0) ns) = ns" for ns
      by (induction ns) (simp_all add: map_filter_Cons)
    then show ?thesis by (simp add: shown_in_def map_filter_append map_filter_Cons)
  qed
  have u: "unflushed (ob_journal a_session_observer)"
    by (simp add: unflushed_def flushed_def a_session_observer_def journal_start_def)
  have "tidy ?j" using beats_trail [OF ready, of "\<lambda>_. None" "\<lambda>_. None" ?bs] by (simp add: ready_def)
  then have "kept_by ?j (flush_request 5 ?j)" unfolding flush_request_def by (rule enqueue_step) simp
  then have "flushed 5 (after_turns 5 (Suc (length (j_decisions ?j))) ?j)"
    unfolding after_turns_def by (intro flush_is_answered) (simp_all add: kept_by_def flush_request_def)
  from refusals_reach_the_disk [OF run ready u shown refl this] show ?thesis
    using run by (auto simp: none call_without_newline(3) call_scan)
qed

end
