(* ===== verification/Log.thy ===== *)
theory Log
  imports Cli
begin

text \<open>
  \<open>mcpwall log\<close>: the whole of \<open>cli/log.rs\<close>, with the two grouped tables of \<open>stats\<close> in \<open>journal/query.rs\<close>.
\<close>

section \<open>The tables of stats\<close>

text \<open>
  \<open>GROUP BY\<close>, \<open>ORDER BY c DESC LIMIT 20\<close>: among equal counts SQLite promises no order, so an arrangement of
  the groups before the stable sort is an argument.
\<close>

type_synonym arrangement = "(bytes \<times> int) list \<Rightarrow> (bytes \<times> int) list"

definition top20 :: "arrangement \<Rightarrow> (bytes \<times> int) list \<Rightarrow> (bytes \<times> int) list" where
  "top20 ties groups = take 20 (sort_key (\<lambda>(k, c). - c) (ties groups))"

definition entry_methods :: "db \<Rightarrow> bytes list" where
  "entry_methods d = List.map_filter (\<lambda>(i, e). e_method e) (db_entries d)"

definition method_groups :: "db \<Rightarrow> (bytes \<times> int) list" where
  "method_groups d = map (\<lambda>m. (m, int (count_list (entry_methods d) m))) (remdups (entry_methods d))"

text \<open>\<open>COALESCE(s.server_name, s.command)\<close>, and the left join: a session without entries counts nothing.\<close>

definition shown_name :: "session_row \<Rightarrow> bytes" where
  "shown_name s = (case s_server_name s of Some n \<Rightarrow> n | None \<Rightarrow> s_command s)"

definition entries_of :: "db \<Rightarrow> int \<Rightarrow> int" where
  "entries_of d i = int (length (filter (\<lambda>(_, e). e_session e = i) (db_entries d)))"

definition server_groups :: "db \<Rightarrow> (bytes \<times> int) list" where
  "server_groups d =
     map (\<lambda>n. (n, sum_list (map (\<lambda>(i, s). entries_of d i) (filter (\<lambda>(i, s). shown_name s = n) (db_sessions d)))))
       (remdups (map (\<lambda>(i, s). shown_name s) (db_sessions d)))"

section \<open>What is printed\<close>

record log_args =
  la_tail :: int
  la_follow :: bool
  la_stats :: bool
  la_json :: bool

definition pad_left :: "nat \<Rightarrow> bytes \<Rightarrow> bytes" where
  "pad_left n s = replicate (n - length s) (CHR '' '') @ s"

definition table_text :: "bytes \<Rightarrow> (bytes \<times> int) list \<Rightarrow> bytes" where
  "table_text title rows =
     (if rows = [] then []
      else [NL] @ title @ [NL] @ concat (map (\<lambda>(k, n). ''  '' @ pad_left 8 (int_text n) @ ''  '' @ k @ [NL]) rows))"

definition log_stats :: "arrangement \<Rightarrow> db \<Rightarrow> bytes" where
  "log_stats ties d = stats_text (stats_of d) @ table_text ''servers'' (top20 ties (server_groups d)) @
     table_text ''methods'' (top20 ties (method_groups d))"

text \<open>The loop of \<open>--follow\<close> over what the database holds at each poll; it ends only with the process.\<close>

fun follow :: "printer \<Rightarrow> bool \<Rightarrow> db list \<Rightarrow> int \<Rightarrow> bytes" where
  "follow render as_json [] last_id = []"
| "follow render as_json (d # ds) last_id =
     (let (out, last_id') = log_pass render as_json d 500 last_id in out @ follow render as_json ds last_id')"

definition no_journal :: "bytes \<Rightarrow> bytes" where
  "no_journal path = ''no journal at '' @ utf8_lossy path @ '' '' @ [CHR 0xE2, CHR 0x80, CHR 0x94] @ '' nothing to show'' @ [NL]"

definition log_run :: "printer \<Rightarrow> arrangement \<Rightarrow> bytes \<Rightarrow> log_args \<Rightarrow> db option \<Rightarrow> db list \<Rightarrow> bytes" where
  "log_run render ties path a file polls =
     (case file of
        None \<Rightarrow> no_journal path
      | Some d \<Rightarrow>
          if la_stats a then log_stats ties d
          else (let (out, last_id) = log_pass render (la_json a) d (la_tail a) 0 in
                out @ (if la_follow a then follow render (la_json a) polls last_id else [])))"

section \<open>The tables add up\<close>

lemma top20_parts:
  assumes "\<And>xs. mset (ties xs) = mset xs"
  shows "length (top20 ties groups) = min 20 (length groups)" "set (top20 ties groups) \<subseteq> set groups"
    "sorted_wrt (\<ge>) (map snd (top20 ties groups))"
    "length groups \<le> 20 \<Longrightarrow> mset (top20 ties groups) = mset groups"
proof -
  have m: "mset (sort_key (\<lambda>(k, c). - c) (ties groups)) = mset groups" by (simp add: assms)
  have l: "length (sort_key (\<lambda>(k, c). - c) (ties groups)) = length groups" using m by (metis size_mset)
  show "length (top20 ties groups) = min 20 (length groups)" using l by (simp add: top20_def)
  show "set (top20 ties groups) \<subseteq> set groups"
    using set_take_subset [of 20 "sort_key (\<lambda>(k, c). - c) (ties groups)"] mset_eq_setD [OF m] by (simp add: top20_def)
  have "sorted (map (\<lambda>(k, c). - c) (sort_key (\<lambda>(k, c). - c) (ties groups)))" by (rule sorted_sort_key)
  then have "sorted_wrt (\<lambda>x y. snd x \<ge> snd y) (sort_key (\<lambda>(k, c). - c) (ties groups))"
    by (simp add: sorted_map case_prod_beta)
  then show "sorted_wrt (\<ge>) (map snd (top20 ties groups))"
    by (simp add: top20_def sorted_wrt_map sorted_wrt_take)
  show "length groups \<le> 20 \<Longrightarrow> mset (top20 ties groups) = mset groups" using l m by (simp add: top20_def)
qed

text \<open>
  The statistics agree with each other: with at most twenty methods, the counts of the table of methods
  add up to the calls that have a method, and no row of either table is smaller than the one below it.
\<close>

theorem method_table_adds_up:
  assumes "\<And>xs. mset (ties xs) = mset xs" and "card (set (entry_methods d)) \<le> 20"
  shows "sum_list (map snd (top20 ties (method_groups d))) = int (length (entry_methods d)) \<and>
    int (length (entry_methods d)) \<le> st_entries (stats_of d) \<and>
    sorted_wrt (\<ge>) (map snd (top20 ties (method_groups d))) \<and> sorted_wrt (\<ge>) (map snd (top20 ties (server_groups d)))"
proof -
  have "length (method_groups d) \<le> 20" using assms(2) by (simp add: method_groups_def length_remdups_card_conv)
  then have "mset (map snd (top20 ties (method_groups d))) = mset (map snd (method_groups d))"
    using top20_parts(4) [OF assms(1)] by simp
  then have "sum_list (map snd (top20 ties (method_groups d))) = sum_list (map snd (method_groups d))"
    by (metis sum_mset_sum_list)
  also have "\<dots> = (\<Sum>m \<in> set (entry_methods d). int (count_list (entry_methods d) m))"
    by (simp add: method_groups_def comp_def sum_list_distinct_conv_sum_set)
  also have "\<dots> = int (length (entry_methods d))" by (metis of_nat_sum sum_count_set subset_refl finite_set)
  finally show ?thesis
    using top20_parts(3) [OF assms(1)]
    by (simp add: stats_of_def entry_methods_def List.map_filter_def)
qed

section \<open>Following\<close>

text \<open>The lines a reader of the database can be shown, in the order of their ids.\<close>

definition lines_in :: "db \<Rightarrow> (int \<times> log_line) list" where
  "lines_in d = sort_key fst (List.map_filter (join_session d) (db_entries d))"

lemma join_id: "join_session d ie = Some (j, l) \<Longrightarrow> j = fst ie"
  by (auto simp: join_session_def split: prod.splits option.splits)

lemma joined_later:
  "List.map_filter (join_session d) (filter (\<lambda>(i, e). since < i) es) =
   filter (\<lambda>(i, l). since < i) (List.map_filter (join_session d) es)"
  by (induction es) (auto simp: map_filter_Cons dest: join_id split: option.split)

lemma tail_lines:
  "tail d n since =
     (let rows = filter (\<lambda>(i, l). since < i) (lines_in d)
      in if n < 0 then rows else drop (length rows - nat n) rows)"
  by (simp add: tail_def lines_in_def joined_later filter_sort Let_def take_rev rev_swap)

text \<open>Ids count upwards from one, as the rowids of a table that is only appended to.\<close>

definition numbered :: "(int \<times> log_line) list \<Rightarrow> bool" where
  "numbered rows \<longleftrightarrow> sorted_wrt (<) (0 # map fst rows)"

definition last_in :: "(int \<times> log_line) list \<Rightarrow> int" where
  "last_in rows = last (0 # map fst rows)"

text \<open>What the polls find: each time the lines seen so far and at most 500 more.\<close>

fun grows :: "(int \<times> log_line) list \<Rightarrow> db list \<Rightarrow> bool" where
  "grows seen [] \<longleftrightarrow> True"
| "grows seen (d # ds) \<longleftrightarrow> prefix seen (lines_in d) \<and> length (lines_in d) \<le> length seen + 500 \<and>
     numbered (lines_in d) \<and> grows (lines_in d) ds"

definition printed :: "printer \<Rightarrow> bool \<Rightarrow> (int \<times> log_line) list \<Rightarrow> bytes" where
  "printed render as_json rows = concat (map (\<lambda>(i, l). print_line render as_json l) rows)"

lemma last_seen: "sorted_wrt (<) ((m :: int) # map fst rows) \<Longrightarrow> fold (\<lambda>(i, l) m. max m i) rows m = last (m # map fst rows)"
proof (induction rows arbitrary: m)
  case (Cons r rows)
  then have "max m (fst r) = fst r" "sorted_wrt (<) (fst r # map fst rows)" by simp_all
  then show ?case using Cons.IH [of "fst r"] by (simp add: case_prod_beta)
qed simp

lemma after_seen:
  assumes "numbered (seen @ later)"
  shows "filter (\<lambda>(i, l). last_in seen < i) (seen @ later) = later" "last_in seen = 0 \<or> last_in seen \<in> fst ` set seen"
    "sorted_wrt (<) (last_in seen # map fst later)" "last_in (seen @ later) = last (last_in seen # map fst later)"
proof -
  have s: "i \<le> last_in seen" if "i \<in> fst ` set seen" for i
    using assms that by (cases seen rule: rev_cases) (auto simp: numbered_def last_in_def sorted_wrt_append)
  have m: "last_in seen < i" if "i \<in> fst ` set later" for i
    using assms that by (cases seen rule: rev_cases) (auto simp: numbered_def last_in_def sorted_wrt_append)
  show "filter (\<lambda>(i, l). last_in seen < i) (seen @ later) = later"
    using s m by (auto simp: filter_id_conv filter_empty_conv not_less case_prod_beta)
  show "last_in seen = 0 \<or> last_in seen \<in> fst ` set seen"
    by (cases seen rule: rev_cases) (auto simp: last_in_def)
  show "sorted_wrt (<) (last_in seen # map fst later)"
    using assms m by (auto simp: numbered_def sorted_wrt_append)
  show "last_in (seen @ later) = last (last_in seen # map fst later)" by (simp add: last_in_def)
qed

lemma follow_printed:
  "grows seen ds \<Longrightarrow> numbered seen \<Longrightarrow>
   follow render as_json ds (last_in seen) = printed render as_json (drop (length seen) (last (seen # map lines_in ds)))"
proof (induction ds arbitrary: seen)
  case (Cons d ds)
  obtain later where later: "lines_in d = seen @ later" "length later \<le> 500"
    using Cons.prems(1) by (auto simp: prefix_def)
  note a = after_seen [of seen later]
  have n: "numbered (seen @ later)" using Cons.prems(1) later by simp
  have "tail d 500 (last_in seen) = later" using a(1) [OF n] later by (simp add: tail_lines Let_def)
  then have p: "log_pass render as_json d 500 (last_in seen) = (printed render as_json later, last_in (lines_in d))"
    using last_seen [OF a(3) [OF n]] a(4) [OF n] later(1) by (simp add: log_pass_def printed_def)
  have "prefix (lines_in d) (last (lines_in d # map lines_in ds))" if "grows (lines_in d) ds"
    using that by (induction ds arbitrary: d) (auto intro: prefix_order.trans)
  then obtain rest where "last (lines_in d # map lines_in ds) = lines_in d @ rest"
    using Cons.prems(1) by (auto simp: prefix_def)
  then show ?case using Cons.IH [of "lines_in d"] Cons.prems(1) n later(1) by (simp add: p printed_def)
qed (simp add: printed_def)

text \<open>
  \<open>log --follow\<close> prints every line once: after the last lines of the start, whatever the polls find is printed in
  the order of the ids, none twice and none left out, as long as no more than 500 lines
  arrive between two polls.
\<close>

theorem follow_prints_each_line_once:
  assumes "\<not> la_stats a" and "la_follow a" and "la_tail a \<noteq> 0" and "numbered (lines_in d)" and "grows (lines_in d) polls"
  shows "log_run render ties path a (Some d) polls =
    printed render (la_json a) (tail d (la_tail a) 0 @ drop (length (lines_in d)) (lines_in (last (d # polls))))"
proof -
  let ?rows = "lines_in d" and ?n = "nat (la_tail a)"
  have all: "filter (\<lambda>(i, l). 0 < i) ?rows = ?rows"
    using assms(4) by (auto simp: numbered_def filter_id_conv)
  obtain old new where t: "tail d (la_tail a) 0 = new" "?rows = old @ new" "new = [] \<longrightarrow> ?rows = []"
  proof (cases "la_tail a < 0")
    case True
    then show thesis using that [of ?rows "[]"] all by (simp add: tail_lines)
  next
    case False
    then have "0 < ?n" using assms(3) by simp
    then have "drop (length ?rows - ?n) ?rows = [] \<longrightarrow> ?rows = []" by (cases ?rows) auto
    then show thesis
      using that [of "drop (length ?rows - ?n) ?rows" "take (length ?rows - ?n) ?rows"] all False
      by (simp add: tail_lines Let_def)
  qed
  have "sorted_wrt (<) (0 # map fst new)" using assms(4) t(2) by (auto simp: numbered_def sorted_wrt_append)
  then have "fold (\<lambda>(i, l) m. max m i) new 0 = last_in ?rows"
    using last_seen [of 0 new] t(2,3) by (cases "new = []") (auto simp: last_in_def)
  then have "log_pass render (la_json a) d (la_tail a) 0 = (printed render (la_json a) new, last_in ?rows)"
    using t(1) by (simp add: log_pass_def printed_def)
  then show ?thesis
    using follow_printed [OF assms(5,4)] assms(1,2) t(1)
    by (cases polls) (simp_all add: log_run_def printed_def last_map)
qed

definition a_journal :: "int list \<Rightarrow> db" where
  "a_journal ids = \<lparr>db_sessions = [(1, \<lparr>s_started = 0, s_server_name = None, s_server_version = None, s_client_name = None,
       s_client_version = None, s_protocol_version = None, s_scope_key = [], s_scope_source = [], s_command = ''git''\<rparr>)],
     db_entries = map (\<lambda>i. (i, (entry_now i 1 ''to_server'' ''allow'')\<lparr>e_method := Some ''ping''\<rparr>)) ids, db_tools = []\<rparr>"

lemma a_journal_lines: "map fst (lines_in (a_journal [1])) = [1]" "map fst (lines_in (a_journal [1, 2])) = [1, 2]"
  "prefix (lines_in (a_journal [1])) (lines_in (a_journal [1, 2]))"
  by (simp_all add: lines_in_def a_journal_def join_session_def map_filter_Cons entry_now_def)

theorem follow_prints_each_line_once_witness:
  "log_run (\<lambda>v. []) (\<lambda>x. x) [] \<lparr>la_tail = 20, la_follow = True, la_stats = False, la_json = True\<rparr> (Some (a_journal [1])) [a_journal [1, 2]] =
     [NL, NL]"
proof -
  have l: "length (lines_in (a_journal [1])) = 1" "length (lines_in (a_journal [1, 2])) = 2"
    using a_journal_lines(1,2) by (metis length_map length_Cons list.size(3) One_nat_def, metis length_map length_Cons list.size(3) numeral_2_eq_2)
  have "log_run (\<lambda>v. []) (\<lambda>x. x) [] \<lparr>la_tail = 20, la_follow = True, la_stats = False, la_json = True\<rparr> (Some (a_journal [1])) [a_journal [1, 2]] =
      printed (\<lambda>v. []) True (tail (a_journal [1]) 20 0 @ drop 1 (lines_in (a_journal [1, 2])))"
    using follow_prints_each_line_once [of "\<lparr>la_tail = 20, la_follow = True, la_stats = False, la_json = True\<rparr>" "a_journal [1]"
        "[a_journal [1, 2]]" "\<lambda>v. []" "\<lambda>x. x" "[]"] a_journal_lines l
    by (simp add: numbered_def)
  then show ?thesis
    by (simp add: printed_def print_line_def json_line_def tail_lines lines_in_def a_journal_def join_session_def map_filter_Cons entry_now_def)
qed

theorem method_table_adds_up_witness:
  "sum_list (map snd (top20 (\<lambda>x. x) (method_groups (a_journal [1, 2])))) = 2"
proof -
  have "entry_methods (a_journal [1, 2]) = [''ping'', ''ping'']"
    by (simp add: entry_methods_def a_journal_def map_filter_Cons)
  then show ?thesis using method_table_adds_up [of "\<lambda>x. x" "a_journal [1, 2]"] by simp
qed

end
