(* ===== verification/Setup_Correct.thy ===== *)
theory Setup_Correct
  imports Setup
begin

text \<open>
  What holds of \<open>setup/mod.rs\<close>: running \<open>init\<close> twice changes nothing more, a wrapped server still starts
  what it started before, the diff that is shown is an edit script, and what \<open>restore\<close> puts where.
\<close>

section \<open>The diff\<close>

datatype edit = Keep bytes | Del bytes | Add bytes

fun olds :: "edit list \<Rightarrow> bytes list" where
  "olds [] = []" | "olds (Keep l # es) = l # olds es" | "olds (Del l # es) = l # olds es" | "olds (Add l # es) = olds es"

fun news :: "edit list \<Rightarrow> bytes list" where
  "news [] = []" | "news (Keep l # es) = l # news es" | "news (Del l # es) = news es" | "news (Add l # es) = l # news es"

fun shown :: "edit list \<Rightarrow> bytes" where
  "shown [] = []" | "shown (Keep l # es) = shown es"
| "shown (Del l # es) = ''- '' @ l @ [NL] @ shown es" | "shown (Add l # es) = ''+ '' @ l @ [NL] @ shown es"

lemma script_append:
  "olds (map Del xs @ map Add ys @ es) = xs @ olds es" "news (map Del xs @ map Add ys @ es) = ys @ news es"
  "shown (map Del xs @ map Add ys @ es) = marked ''- '' xs @ marked ''+ '' ys @ shown es"
proof -
  have "olds (map Add ys @ es) = olds es" "news (map Add ys @ es) = ys @ news es"
    "shown (map Add ys @ es) = marked ''+ '' ys @ shown es"
    by (induction ys) (simp_all add: marked_def)
  then show "olds (map Del xs @ map Add ys @ es) = xs @ olds es" "news (map Del xs @ map Add ys @ es) = ys @ news es"
    "shown (map Del xs @ map Add ys @ es) = marked ''- '' xs @ marked ''+ '' ys @ shown es"
    by (induction xs) (simp_all add: marked_def)
qed

lemma shown_nothing: "shown es = [] \<Longrightarrow> olds es = news es"
  by (induction es rule: shown.induct) simp_all

text \<open>A resynchronisation never stands still: the loop makes progress.\<close>

lemma resync_progress:
  assumes "(case resync a b i j of Some d \<Rightarrow> d | None \<Rightarrow> (length a - i, length b - j)) = (da, db)"
    and "i < length a \<or> j < length b" and "\<not> (i < length a \<and> j < length b \<and> a ! i = b ! j)"
    and "i \<le> length a" and "j \<le> length b"
  shows "0 < da + db \<and> i + da \<le> length a \<and> j + db \<le> length b"
  using assms by (auto simp: resync_def find_Some_iff intro!: gr0I split: option.splits)

lemma diff_loop_script:
  assumes "i \<le> length a" and "j \<le> length b"
  shows "\<exists>es. diff_loop a b i j out = Some (out @ shown es) \<and> olds es = drop i a \<and> news es = drop j b"
  using assms
proof (induction "(length a - i) + (length b - j)" arbitrary: i j out rule: less_induct)
  case less
  show ?case
  proof (cases "i < length a \<or> j < length b")
    case False
    then show ?thesis using less.prems by (intro exI [of _ "[]"]) (simp add: diff_loop.simps)
  next
    case more: True
    show ?thesis
    proof (cases "i < length a \<and> j < length b \<and> a ! i = b ! j")
      case True
      then obtain es where es: "diff_loop a b (i + 1) (j + 1) out = Some (out @ shown es)"
        "olds es = drop (i + 1) a" "news es = drop (j + 1) b"
        using less.hyps [of "i + 1" "j + 1" out] by fastforce
      then show ?thesis
        using True Cons_nth_drop_Suc [of i a] Cons_nth_drop_Suc [of j b]
        by (intro exI [of _ "Keep (a ! i) # es"]) (simp add: diff_loop.simps [of a b i j])
    next
      case False
      obtain da db where d: "(case resync a b i j of Some d \<Rightarrow> d | None \<Rightarrow> (length a - i, length b - j)) = (da, db)"
        by fastforce
      note p = resync_progress [OF d more False less.prems]
      let ?out = "out @ marked ''- '' (take da (drop i a)) @ marked ''+ '' (take db (drop j b))"
      have "(length a - (i + da)) + (length b - (j + db)) < (length a - i) + (length b - j)" using p by linarith
      then obtain es where es: "diff_loop a b (i + da) (j + db) ?out = Some (?out @ shown es)"
        "olds es = drop (i + da) a" "news es = drop (j + db) b"
        using less.hyps [of "i + da" "j + db" ?out] p by blast
      let ?es = "map Del (take da (drop i a)) @ map Add (take db (drop j b)) @ es"
      have "diff_loop a b i j out = diff_loop a b (i + da) (j + db) ?out"
        by (subst diff_loop.simps) (use more False d in auto)
      moreover have "olds ?es = drop i a" "news ?es = drop j b"
        by (simp_all add: script_append es add.commute flip: drop_drop)
      ultimately show ?thesis
        by (intro exI [of _ ?es]) (simp add: script_append es)
    qed
  qed
qed

lemma diff_loop_same: "diff_loop a a i i out = Some out"
proof (induction "length a - i" arbitrary: i)
  case (Suc n)
  then show ?case by (simp add: diff_loop.simps [of a a i i])
qed (simp add: diff_loop.simps)

text \<open>
  C37: what the user is shown before accepting is the whole change: the diff's loop ends on every pair
  of texts, and its output is an edit script between their lines with the kept lines left out, so
  that the removed and the added lines shown account exactly for the difference; nothing is shown if
  and only if the lines are the same.
\<close>

theorem diff_is_an_edit_script:
  "\<exists>es. diff before after = Some (shown es) \<and> olds es = str_lines before \<and> news es = str_lines after \<and>
     (diff before after = Some []) = (str_lines before = str_lines after)"
proof -
  obtain es where es: "diff before after = Some (shown es)" "olds es = str_lines before" "news es = str_lines after"
    using diff_loop_script [of 0 "str_lines before" 0 "str_lines after" "[]"] by (auto simp: diff_def)
  have "diff before after = Some [] \<Longrightarrow> str_lines before = str_lines after"
    using es shown_nothing by fastforce
  then have "(diff before after = Some []) = (str_lines before = str_lines after)"
    by (auto simp: diff_def diff_loop_same)
  then show ?thesis using es by blast
qed

section \<open>Wrapping a server\<close>

lemma jget_set_member:
  "jget k v \<noteq> None \<Longrightarrow> jget k (set_member k x v) = Some x"
  "k' \<noteq> k \<Longrightarrow> jget k' (set_member k x v) = jget k' v"
  by (cases v; simp add: set_member_def update_conv')+

lemma set_member_id: "jget k v = Some x \<Longrightarrow> set_member k x v = v"
  by (cases v) (simp_all add: set_member_def update_triv)

text \<open>The lists of a plan only grow, so that what was reported of one entry is still there at the end.\<close>

abbreviation more_wrapped :: "tally \<Rightarrow> tally \<Rightarrow> bool" where
  "more_wrapped t t' \<equiv> set (ta_wrapped t) \<subseteq> set (ta_wrapped t')"

lemma place_entry_grows: "place_entry shim listen project name cfg t = (cfg', t') \<Longrightarrow> more_wrapped t t'"
  by (auto simp: place_entry_def split: prod.splits wrap_result.splits route_result.splits)

lemma place_all_grows: "place_all shim listen project m t = (m', t') \<Longrightarrow> more_wrapped t t'"
proof (induction shim listen project m t arbitrary: m' t' rule: place_all.induct)
  case (2 shim listen project name cfg m t)
  obtain cfg' ta where e: "place_entry shim listen project name cfg t = (cfg', ta)" by fastforce
  obtain mr tb where r: "place_all shim listen project m ta = (mr, tb)" by fastforce
  then show ?case using 2(1) [OF e [symmetric] refl r] 2(2) place_entry_grows [OF e] e by simp
qed simp

lemma place_servers_grows: "place_servers shim listen project doc t = (doc', t') \<Longrightarrow> more_wrapped t t'"
  using place_all_grows by (fastforce simp: place_servers_def split: option.splits prod.splits)

lemma place_projects_grows: "place_projects shim listen m t = (m', t') \<Longrightarrow> more_wrapped t t'"
proof (induction shim listen m t arbitrary: m' t' rule: place_projects.induct)
  case (2 shim listen dir entry m t)
  obtain entry' ta where e: "place_servers shim listen (Some dir) entry t = (entry', ta)" by fastforce
  obtain mr tb where r: "place_projects shim listen m ta = (mr, tb)" by fastforce
  then show ?case using 2(1) [OF e [symmetric] refl r] 2(2) place_servers_grows [OF e] e by simp
qed simp

text \<open>Every entry found under its name before is found there after, placed by \<open>place_entry\<close>.\<close>

lemma place_all_lookup:
  "place_all shim listen project m t = (m', t') \<Longrightarrow> map_of m name = Some cfg \<Longrightarrow>
   \<exists>cfg' t1 t2. map_of m' name = Some cfg' \<and> place_entry shim listen project name cfg t1 = (cfg', t2) \<and> more_wrapped t2 t'"
proof (induction shim listen project m t arbitrary: m' t' rule: place_all.induct)
  case (2 shim listen project n c m t)
  obtain c' ta where e: "place_entry shim listen project n c t = (c', ta)" by fastforce
  obtain mr tb where r: "place_all shim listen project m ta = (mr, tb)" by fastforce
  have m': "m' = (n, c') # mr" "t' = tb" using 2(2) e r by simp_all
  show ?case
  proof (cases "n = name")
    case True
    then show ?thesis using 2(3) e place_all_grows [OF r] by (auto simp: m')
  next
    case False
    then show ?thesis using 2(1) [OF e [symmetric] refl r] 2(3) by (simp add: m')
  qed
qed simp

lemma place_servers_lookup:
  assumes "place_servers shim listen project doc t = (doc', t')" and "jpath [''mcpServers'', name] doc = Some cfg"
  shows "\<exists>cfg' t1 t2. jpath [''mcpServers'', name] doc' = Some cfg' \<and>
    place_entry shim listen project name cfg t1 = (cfg', t2) \<and> more_wrapped t2 t'"
proof -
  obtain v where v: "jget ''mcpServers'' doc = Some v" "jget name v = Some cfg"
    using assms(2) by (auto simp: bind_eq_Some_conv)
  then obtain m where m: "v = JObject m" "map_of m name = Some cfg" by (cases v) auto
  obtain m' where m': "place_all shim listen project m t = (m', t')" "doc' = set_member ''mcpServers'' (JObject m') doc"
    using assms(1) v m by (auto simp: place_servers_def split: prod.splits)
  obtain cfg' t1 t2 where c: "map_of m' name = Some cfg'"
    "place_entry shim listen project name cfg t1 = (cfg', t2)" "more_wrapped t2 t'"
    using place_all_lookup [OF m'(1) m(2)] by blast
  have "jpath [''mcpServers'', name] doc' = Some cfg'" using m'(2) v c(1) by (simp add: jget_set_member(1))
  then show ?thesis using c(2,3) by blast
qed

lemma place_projects_lookup:
  "place_projects shim listen m t = (m', t') \<Longrightarrow> map_of m dir = Some entry \<Longrightarrow>
   \<exists>entry' t1 t2. map_of m' dir = Some entry' \<and> place_servers shim listen (Some dir) entry t1 = (entry', t2) \<and>
     more_wrapped t2 t'"
proof (induction shim listen m t arbitrary: m' t' rule: place_projects.induct)
  case (2 shim listen d e m t)
  obtain e' ta where e: "place_servers shim listen (Some d) e t = (e', ta)" by fastforce
  obtain mr tb where r: "place_projects shim listen m ta = (mr, tb)" by fastforce
  have m': "m' = (d, e') # mr" "t' = tb" using 2(2) e r by simp_all
  show ?case
  proof (cases "d = dir")
    case True
    then show ?thesis using 2(3) e place_projects_grows [OF r] by (auto simp: m')
  next
    case False
    then show ?thesis using 2(1) [OF e [symmetric] refl r] 2(3) by (simp add: m')
  qed
qed simp

text \<open>The projects are handled first; the servers at the root do not touch them.\<close>

lemma place_servers_other: "place_servers shim listen project doc t = (doc', t1) \<Longrightarrow>
   k \<noteq> ''mcpServers'' \<Longrightarrow> jget k doc' = jget k doc"
  by (auto simp: place_servers_def jget_set_member(2) split: option.splits prod.splits)

text \<open>Where a document keeps servers: at its root, and in each of its projects.\<close>

lemma place_document_lookup:
  assumes "place_document shim listen project doc = (doc', t)"
    and "place = ([''mcpServers'', name], project) \<or> place = ([''projects'', dir, ''mcpServers'', name], Some dir)"
    and "jpath (fst place) doc = Some cfg"
  shows "\<exists>cfg' t1 t2. jpath (fst place) doc' = Some cfg' \<and>
    place_entry shim listen (snd place) name cfg t1 = (cfg', t2) \<and> more_wrapped t2 t"
proof -
  define ps where "ps = Option.bind (jget ''projects'' doc) as_object"
  obtain doc1 t1 where one: "(case ps of None \<Rightarrow> (doc, no_tally) | Some m \<Rightarrow>
      (let (m', t') = place_projects shim listen m no_tally in (set_member ''projects'' (JObject m') doc, t'))) = (doc1, t1)"
    by fastforce
  have two: "place_servers shim listen project doc1 t1 = (doc', t)"
    using assms(1) one by (simp add: place_document_def ps_def)
  show ?thesis
    using assms(2)
  proof
    assume place: "place = ([''mcpServers'', name], project)"
    have "jget ''mcpServers'' doc1 = jget ''mcpServers'' doc"
      using one by (auto simp: jget_set_member(2) split: option.splits prod.splits)
    then show ?thesis using place_servers_lookup [OF two, of name cfg] assms(3) by (simp add: place)
  next
    assume place: "place = ([''projects'', dir, ''mcpServers'', name], Some dir)"
    obtain v entry where v: "jget ''projects'' doc = Some v" "jget dir v = Some entry"
      "jpath [''mcpServers'', name] entry = Some cfg"
      using assms(3) by (auto simp: place bind_eq_Some_conv)
    then obtain m where m: "v = JObject m" "map_of m dir = Some entry" by (cases v) auto
    obtain m' where m': "place_projects shim listen m no_tally = (m', t1)" "doc1 = set_member ''projects'' (JObject m') doc"
      using one v m by (auto simp: ps_def split: prod.splits)
    obtain entry' ta tb where e: "map_of m' dir = Some entry'"
      "place_servers shim listen (Some dir) entry ta = (entry', tb)" "more_wrapped tb t1"
      using place_projects_lookup [OF m'(1) m(2)] by blast
    have p: "jget ''projects'' doc' = Some (JObject m')"
      using place_servers_other [OF two, of "''projects''"] v by (simp add: m'(2) jget_set_member(1))
    show ?thesis
      using place_servers_lookup [OF e(2) v(3)] e(1,3) p place_servers_grows [OF two]
      by (fastforce simp: place)
  qed
qed

lemma place_entry_wraps:
  assumes "jget ''command'' cfg = Some (JString command)" and "command \<noteq> utf8_lossy shim"
    and "place_entry shim listen project name cfg t = (cfg', t')"
  shows "wrap_entry shim project cfg = (Wrapped, cfg') \<and> name \<in> set (ta_wrapped t')"
proof -
  obtain obj where "cfg = JObject obj" using assms(1) by (cases cfg) auto
  then show ?thesis using assms by (auto simp: place_entry_def wrap_entry_def Let_def)
qed

text \<open>
  C36: a wrapped server is still the server the user configured. In the document a plan writes, at the
  root or in any project, each server that had a command other than the program itself is found under
  its name again: it now starts the program with \<open>wrap\<close>, the scope (the target's own, or the project's
  directory), \<open>--\<close>, and after it the original command and every original argument in order; the
  original command and arguments are also recorded where a person can read them; every other key, the
  environment included, is as it was; and the plan lists the server as wrapped.
\<close>

theorem wrapped_server_keeps_its_command:
  assumes "plan_file parse pretty (Some contents) tg shim listen = Some p" and "parse contents = Some doc"
    and "place = ([''mcpServers'', name], tg_project tg) \<or> place = ([''projects'', dir, ''mcpServers'', name], Some dir)"
    and "jpath (fst place) doc = Some cfg"
    and "jget ''command'' cfg = Some (JString command)" and "command \<noteq> utf8_lossy shim"
    and "args = (case Option.bind (jget ''args'' cfg) as_array of Some a \<Rightarrow> a | None \<Rightarrow> [])"
  shows "\<exists>doc' cfg'. pl_after p = pretty doc' @ [NL] \<and> name \<in> set (pl_wrapped p) \<and>
    jpath (fst place) doc' = Some cfg' \<and>
    jget ''command'' cfg' = Some (JString (utf8_lossy shim)) \<and>
    jget ''args'' cfg' = Some (JArray (
      [JString ''wrap''] @ (case snd place of None \<Rightarrow> [] | Some s \<Rightarrow> [JString ''--project'', JString (utf8_lossy s)]) @
      [JString ''--'', JString command] @ args)) \<and>
    jpath [''x-mcpwall-original'', ''command''] cfg' = Some (JString command) \<and>
    jpath [''x-mcpwall-original'', ''args''] cfg' = Some (JArray args) \<and>
    (\<lambda>k. if k \<in> {''command'', ''args'', ''x-mcpwall-original''} then None else jget k cfg') =
    (\<lambda>k. if k \<in> {''command'', ''args'', ''x-mcpwall-original''} then None else jget k cfg)"
proof -
  obtain doc' t where d: "place_document shim listen (tg_project tg) doc = (doc', t)" by fastforce
  have p: "pl_after p = pretty doc' @ [NL]" "pl_wrapped p = ta_wrapped t"
    using assms(1,2) d by (auto simp: plan_file_def)
  obtain cfg' t1 t2 where c: "jpath (fst place) doc' = Some cfg'"
    "place_entry shim listen (snd place) name cfg t1 = (cfg', t2)" "more_wrapped t2 t"
    using place_document_lookup [OF d assms(3,4)] by blast
  note w = place_entry_wraps [OF assms(5,6) c(2)]
  obtain obj where obj: "cfg = JObject obj" using assms(5) by (cases cfg) auto
  have "jget ''command'' cfg' = Some (JString (utf8_lossy shim)) \<and>
    jget ''args'' cfg' = Some (JArray (wrap_args (snd place) command args)) \<and>
    jpath [''x-mcpwall-original'', ''command''] cfg' = Some (JString command) \<and>
    jpath [''x-mcpwall-original'', ''args''] cfg' = Some (JArray args) \<and>
    (\<lambda>k. if k \<in> {''command'', ''args'', ''x-mcpwall-original''} then None else jget k cfg') =
    (\<lambda>k. if k \<in> {''command'', ''args'', ''x-mcpwall-original''} then None else jget k cfg)"
    using w assms(5-7) by (auto simp: wrap_entry_def obj Let_def jget_jobject fun_eq_iff)
  then show ?thesis
    using p c(1,3) w by (intro exI [of _ doc'] exI [of _ cfg']) (auto simp: wrap_args_def split: option.split)
qed

text \<open>One document with a server at its root and one in a project; both are rewritten, each with its scope.\<close>

definition two_servers :: json where
  "two_servers = JObject [
     (''mcpServers'', JObject [(''fs'', JObject [(''command'', JString ''npx''), (''args'', JArray [JString ''-y''])])]),
     (''projects'', JObject [(''/p'', JObject [(''mcpServers'', JObject [(''db'', JObject [(''command'', JString ''pg'')])])])])]"

theorem wrapped_server_keeps_its_command_witness:
  "\<exists>p. plan_file (\<lambda>_. Some two_servers) (\<lambda>v. if jpath [''projects'', ''/p'', ''mcpServers'', ''db'', ''args''] v =
      Some (JArray (map JString [''wrap'', ''--project'', ''/p'', ''--'', ''pg''])) then ''rewritten'' else ''other'')
    (Some ''text'') \<lparr>tg_path = ''/h/.claude.json'', tg_kind = ClaudeGlobal, tg_project = None\<rparr> ''/m'' ''127.0.0.1:1'' = Some p \<and>
    pl_after p = ''rewritten'' @ [NL] \<and> ''db'' \<in> set (pl_wrapped p)"
proof -
  let ?parse = "\<lambda>_::bytes. Some two_servers"
  let ?pretty = "\<lambda>v. if jpath [''projects'', ''/p'', ''mcpServers'', ''db'', ''args''] v =
      Some (JArray (map JString [''wrap'', ''--project'', ''/p'', ''--'', ''pg''])) then ''rewritten'' else ''other''"
  let ?tg = "\<lparr>tg_path = ''/h/.claude.json'', tg_kind = ClaudeGlobal, tg_project = None\<rparr>"
  have l: "utf8_lossy ''/m'' = ''/m''" "utf8_lossy ''/p'' = ''/p''" by code_simp+
  obtain p where p: "plan_file ?parse ?pretty (Some ''text'') ?tg ''/m'' ''127.0.0.1:1'' = Some p"
    by (cases "place_document ''/m'' ''127.0.0.1:1'' None two_servers") (simp add: plan_file_def)
  have "jpath (fst ([''projects'', ''/p'', ''mcpServers'', ''db''], Some ''/p'')) two_servers =
    Some (JObject [(''command'', JString ''pg'')])" by (simp add: two_servers_def)
  from wrapped_server_keeps_its_command [OF p refl disjI2 [OF refl] this,
    where command = "''pg''" and args = "[]"]
  have "pl_after p = ''rewritten'' @ [NL] \<and> ''db'' \<in> set (pl_wrapped p)"
    by (auto simp: l bind_eq_Some_conv split: if_splits)
  then show ?thesis using p by blast
qed

section \<open>Running init again\<close>

definition quiet :: "tally \<Rightarrow> tally \<Rightarrow> bool" where
  "quiet t t' \<longleftrightarrow> ta_wrapped t' = ta_wrapped t \<and> ta_routes t' = ta_routes t"

lemma quiet_refl [simp]: "quiet t t" and quiet_trans: "quiet t t' \<Longrightarrow> quiet t' t'' \<Longrightarrow> quiet t t''"
  by (auto simp: quiet_def)

lemma route_unchanged:
  "route_entry listen name cfg = (res, cfg') \<Longrightarrow> (\<And>r u. res \<noteq> Routed r u) \<Longrightarrow> cfg' = cfg"
  by (cases cfg) (auto simp: route_entry_def Let_def split: option.splits if_splits)

lemma route_routed:
  assumes "route_entry listen name cfg = (Routed r u, cfg')"
  shows "route_entry listen name cfg' = (AlreadyRouted, cfg') \<and> wrap_entry shim project cfg' = (Skipped, cfg')"
proof -
  obtain obj where obj: "cfg = JObject obj" using assms by (cases cfg) (auto simp: route_entry_def)
  have none: "map_of obj ''command'' = None"
    and c: "cfg' = JObject (map_insert ''url'' (JString (''http://'' @ listen @ ''/'' @ name))
      (map_insert ''x-mcpwall-original'' (jobject [(''url'', JString u)]) obj))"
    using assms by (auto simp: route_entry_def obj Let_def split: option.splits if_splits)
  have s: "starts_with (''http://'' @ listen @ ''/'' @ name) (''http://'' @ listen @ ''/'')"
    using starts_with_append [of "''http://'' @ listen @ ''/''" name] by simp
  have "map_of (map_insert ''url'' (JString (''http://'' @ listen @ ''/'' @ name))
      (map_insert ''x-mcpwall-original'' (jobject [(''url'', JString u)]) obj)) ''command'' = None"
    using none by simp
  moreover have "map_of (map_insert ''url'' (JString (''http://'' @ listen @ ''/'' @ name))
      (map_insert ''x-mcpwall-original'' (jobject [(''url'', JString u)]) obj)) ''url'' =
      Some (JString (''http://'' @ listen @ ''/'' @ name))"
    by simp
  ultimately show ?thesis
    using s unfolding c by (simp only: route_entry_def wrap_entry_def as_object.simps option.case bind.bind_lunit as_str.simps) simp
qed

lemma wrap_again:
  "wrap_entry shim project cfg = (res, cfg') \<Longrightarrow>
   (if res = Skipped then cfg' = cfg else wrap_entry shim project cfg' = (AlreadyWrapped, cfg'))"
  by (cases cfg) (auto simp: wrap_entry_def Let_def split: option.splits if_splits)

lemma place_entry_again:
  assumes "place_entry shim listen project name cfg t = (cfg', t1)"
  shows "\<exists>t''. place_entry shim listen project name cfg' t' = (cfg', t'') \<and> quiet t' t''"
proof -
  obtain res c where w: "wrap_entry shim project cfg = (res, c)" by fastforce
  show ?thesis
  proof (cases "res = Skipped")
    case True
    then have w': "wrap_entry shim project cfg = (Skipped, cfg)" using wrap_again [OF w] w by simp
    obtain rres c' where r: "route_entry listen name cfg = (rres, c')" by fastforce
    then have c': "c' = cfg'" using assms w' by (cases rres) (auto simp: place_entry_def)
    show ?thesis
    proof (cases rres)
      case (Routed route up)
      then show ?thesis
        using route_routed [of listen name cfg route up cfg' shim project] r c'
        by (simp add: place_entry_def quiet_def)
    qed (use r c' w' route_unchanged [OF r] in \<open>auto simp: place_entry_def quiet_def\<close>)
  next
    case False
    then have "c = cfg'" using assms w by (cases res) (auto simp: place_entry_def)
    then show ?thesis using wrap_again [OF w] False by (simp add: place_entry_def quiet_def)
  qed
qed

lemma place_all_again:
  "place_all shim listen project m t = (m', t1) \<Longrightarrow>
   \<exists>t''. place_all shim listen project m' t' = (m', t'') \<and> quiet t' t''"
proof (induction shim listen project m t arbitrary: m' t1 t' rule: place_all.induct)
  case (2 shim listen project name cfg m t)
  obtain cfg' ta where e: "place_entry shim listen project name cfg t = (cfg', ta)" by fastforce
  obtain mr tb where r: "place_all shim listen project m ta = (mr, tb)" by fastforce
  have m': "m' = (name, cfg') # mr" using 2(2) e r by simp
  obtain tc where c: "place_entry shim listen project name cfg' t' = (cfg', tc)" "quiet t' tc"
    using place_entry_again [OF e] by blast
  obtain td where "place_all shim listen project mr tc = (mr, td)" "quiet tc td"
    using 2(1) [OF e [symmetric] refl r] by blast
  then show ?case using c quiet_trans by (auto simp: m')
qed simp

lemma place_servers_again:
  assumes "place_servers shim listen project doc t = (doc', t1)"
  shows "\<exists>t''. place_servers shim listen project doc' t' = (doc', t'') \<and> quiet t' t''"
proof (cases "Option.bind (jget ''mcpServers'' doc) as_object")
  case None
  then show ?thesis using assms by (simp add: place_servers_def)
next
  case (Some m)
  obtain m' ta where m: "place_all shim listen project m t = (m', ta)" by fastforce
  then have d: "doc' = set_member ''mcpServers'' (JObject m') doc" using assms Some by (simp add: place_servers_def)
  have g: "jget ''mcpServers'' doc' = Some (JObject m')"
    unfolding d using Some by (intro jget_set_member) (auto simp: bind_eq_Some_conv)
  then show ?thesis
    using place_all_again [OF m, of t'] by (auto simp: place_servers_def set_member_id)
qed

lemma place_projects_again:
  "place_projects shim listen m t = (m', t1) \<Longrightarrow>
   \<exists>t''. place_projects shim listen m' t' = (m', t'') \<and> quiet t' t''"
proof (induction shim listen m t arbitrary: m' t1 t' rule: place_projects.induct)
  case (2 shim listen dir entry m t)
  obtain entry' ta where e: "place_servers shim listen (Some dir) entry t = (entry', ta)" by fastforce
  obtain mr tb where r: "place_projects shim listen m ta = (mr, tb)" by fastforce
  have m': "m' = (dir, entry') # mr" using 2(2) e r by simp
  obtain tc where c: "place_servers shim listen (Some dir) entry' t' = (entry', tc)" "quiet t' tc"
    using place_servers_again [OF e] by blast
  obtain td where "place_projects shim listen mr tc = (mr, td)" "quiet tc td"
    using 2(1) [OF e [symmetric] refl r] by blast
  then show ?case using c quiet_trans by (auto simp: m')
qed simp

lemma place_document_again:
  assumes "place_document shim listen project doc = (doc', t)"
  shows "\<exists>t'. place_document shim listen project doc' = (doc', t') \<and> quiet no_tally t'"
proof -
  define ps where "ps = Option.bind (jget ''projects'' doc) as_object"
  obtain doc1 t1 where one: "(case ps of None \<Rightarrow> (doc, no_tally) | Some m \<Rightarrow>
      (let (m', t') = place_projects shim listen m no_tally in (set_member ''projects'' (JObject m') doc, t'))) = (doc1, t1)"
    by fastforce
  have two: "place_servers shim listen project doc1 t1 = (doc', t)"
    using assms one by (simp add: place_document_def ps_def)
  have p: "jget ''projects'' doc' = jget ''projects'' doc1" by (rule place_servers_other [OF two]) simp
  have "\<exists>t1'. (case Option.bind (jget ''projects'' doc') as_object of None \<Rightarrow> (doc', no_tally) | Some m \<Rightarrow>
      (let (m', t') = place_projects shim listen m no_tally in (set_member ''projects'' (JObject m') doc', t'))) = (doc', t1') \<and>
      quiet no_tally t1'"
  proof (cases ps)
    case None
    then show ?thesis using one p by (simp add: ps_def)
  next
    case (Some m)
    obtain m' ta where m: "place_projects shim listen m no_tally = (m', ta)" by fastforce
    then have d: "doc1 = set_member ''projects'' (JObject m') doc" using one Some by simp
    have g: "jget ''projects'' doc' = Some (JObject m')"
      unfolding p d using Some by (intro jget_set_member) (auto simp: ps_def bind_eq_Some_conv)
    then show ?thesis using place_projects_again [OF m, of no_tally] by (auto simp: set_member_id)
  qed
  then obtain t1' where first: "(case Option.bind (jget ''projects'' doc') as_object of None \<Rightarrow> (doc', no_tally) | Some m \<Rightarrow>
      (let (m', t') = place_projects shim listen m no_tally in (set_member ''projects'' (JObject m') doc', t'))) = (doc', t1')"
    "quiet no_tally t1'" by blast
  obtain t'' where "place_servers shim listen project doc' t1' = (doc', t'')" "quiet t1' t''"
    using place_servers_again [OF two] by blast
  then show ?thesis using first quiet_trans by (auto simp: place_document_def)
qed

lemma plan_again:
  assumes "plan_file parse pretty (Some contents) tg shim listen = Some p"
    and "\<And>v. pl_after p = pretty v @ [NL] \<Longrightarrow> parse (pl_after p) = Some v"
  shows "\<exists>p'. plan_file parse pretty (Some (pl_after p)) tg shim listen = Some p' \<and> is_noop p' \<and>
    pl_routes p' = [] \<and> pl_after p' = pl_after p"
proof -
  obtain doc where doc: "parse contents = Some doc"
    using assms(1) by (auto simp: plan_file_def bind_eq_Some_conv)
  obtain doc' t where d: "place_document shim listen (tg_project tg) doc = (doc', t)" by fastforce
  have after: "pl_after p = pretty doc' @ [NL]" using assms(1) doc d by (auto simp: plan_file_def)
  obtain t' where "place_document shim listen (tg_project tg) doc' = (doc', t')" "quiet no_tally t'"
    using place_document_again [OF d] by blast
  then show ?thesis
    using assms(2) [OF after] by (simp add: plan_file_def after is_noop_def quiet_def no_tally_def)
qed

text \<open>
  \<open>init\<close> is idempotent: planning again on what it wrote finds nothing to wrap or to route and would
  write the very same file, for any configuration; no server is wrapped twice and no route loses its
  real upstream.
\<close>

theorem init_is_idempotent:
  assumes "plan_file parse pretty (Some contents) tg shim listen = Some p"
    and "\<And>v. pl_after p = pretty v @ [NL] \<Longrightarrow> parse (pl_after p) = Some v"
  shows "\<exists>p'. plan_file parse pretty (Some (pl_after p)) tg shim listen = Some p' \<and> is_noop p' \<and>
    pl_routes p' = [] \<and> pl_after p' = pl_after p"
  using assms by (rule plan_again)

definition a_config :: json where
  "a_config = JObject [(''mcpServers'', JObject [(''git'', JObject [(''url'', JString ''https://h/mcp'')])])]"

definition a_routed_config :: json where
  "a_routed_config = JObject [(''mcpServers'', JObject [(''git'', JObject
     [(''url'', JString ''http://l/git''), (''x-mcpwall-original'', JObject [(''url'', JString ''https://h/mcp'')])])])]"

theorem init_is_idempotent_witness:
  "\<exists>p p'. plan_file (\<lambda>s. Some (if s = ''new'' @ [NL] then a_routed_config else a_config))
       (\<lambda>v. if v = a_routed_config then ''new'' else []) (Some ''old'')
       \<lparr>tg_path = ''/h/.claude.json'', tg_kind = ClaudeGlobal, tg_project = None\<rparr> ''/m'' ''l'' = Some p \<and>
     pl_routes p = [(''git'', ''https://h/mcp'')] \<and>
     plan_file (\<lambda>s. Some (if s = ''new'' @ [NL] then a_routed_config else a_config))
       (\<lambda>v. if v = a_routed_config then ''new'' else []) (Some (pl_after p))
       \<lparr>tg_path = ''/h/.claude.json'', tg_kind = ClaudeGlobal, tg_project = None\<rparr> ''/m'' ''l'' = Some p' \<and> is_noop p'"
proof -
  let ?parse = "\<lambda>s. Some (if s = ''new'' @ [NL] then a_routed_config else a_config)"
  let ?pretty = "\<lambda>v. if v = a_routed_config then ''new'' else []"
  let ?tg = "\<lparr>tg_path = ''/h/.claude.json'', tg_kind = ClaudeGlobal, tg_project = None\<rparr>"
  have d: "place_document ''/m'' ''l'' None a_config =
      (a_routed_config, no_tally\<lparr>ta_wrapped := [''git''], ta_routes := [(''git'', ''https://h/mcp'')]\<rparr>)"
    by code_simp
  let ?p = "\<lparr>pl_path = ''/h/.claude.json'', pl_kind = ClaudeGlobal, pl_before = ''old'', pl_after = ''new'' @ [NL],
    pl_wrapped = [''git''], pl_already = [], pl_routes = [(''git'', ''https://h/mcp'')], pl_uncovered = []\<rparr>"
  have p: "plan_file ?parse ?pretty (Some ''old'') ?tg ''/m'' ''l'' = Some ?p"
    by (simp add: plan_file_def d no_tally_def)
  have "?parse (pl_after ?p) = Some v" if "pl_after ?p = ?pretty v @ [NL]" for v
    using that by (cases "v = a_routed_config") auto
  from init_is_idempotent [OF p this] p show ?thesis by auto
qed

section \<open>Putting back\<close>

lemma map_of_add_saves:
  "map_of (fold add_save L m) q = (let fresh = map snd (filter (\<lambda>os. fst os = q) L) in
     case map_of m q of Some v \<Rightarrow> Some (v @ fresh) | None \<Rightarrow> if fresh = [] then None else Some fresh)"
  by (induction L arbitrary: m) (auto simp: add_save_def Let_def split: option.splits)

lemma keys_add_saves: "fst ` set (fold add_save L m) = fst ` set m \<union> fst ` set L"
  by (induction L arbitrary: m) (auto simp: add_save_def set_map_insert_keys)

lemma sorted_add_saves: "sorted_wrt (<) (map fst m) \<Longrightarrow> sorted_wrt (<) (map fst (fold add_save L m))"
  by (induction L arbitrary: m) (auto simp: add_save_def sorted_map_insert)

text \<open>The order in which a map with distinct keys is walked does not change it.\<close>

lemma map_of_sorted:
  assumes "distinct (map fst m)"
  shows "map_of (sort_key f m) = map_of m" and "distinct (map fst (sort_key f m))"
proof -
  have "mset (map fst (sort_key f m)) = mset (map fst m)" by simp
  then show d: "distinct (map fst (sort_key f m))" using assms mset_eq_imp_distinct_iff by blast
  show "map_of (sort_key f m) = map_of m"
    using map_of_inject_set [OF d assms] by simp
qed

lemma backups_of:
  "map_of (backups dirs) q = (let saves = map snd (filter (\<lambda>os. fst os = q) (listed dirs)) in
     if saves = [] then None else Some (rev (sort saves)))"
  "fst ` set (backups dirs) = fst ` set (listed dirs)" "distinct (map fst (backups dirs))"
  "sorted (map (\<lambda>b. path_parts (fst b)) (backups dirs))"
proof -
  let ?m = "fold add_save (listed dirs) []" and ?f = "\<lambda>(q, saves). path_parts q :: bytes list"
  have b: "backups dirs = map (\<lambda>(q, saves). (q, rev (sort saves))) (sort_key ?f ?m)" by (simp add: backups_def)
  have dm: "distinct (map fst ?m)" using sorted_add_saves [of "[]"] by (simp add: strict_sorted_iff)
  have "map_of (map (\<lambda>(q, saves). (q, rev (sort saves))) m) q = map_option (\<lambda>v. rev (sort v)) (map_of m q)"
    for m :: "(bytes \<times> bytes list) list"
    by (induction m) auto
  then show "map_of (backups dirs) q = (let saves = map snd (filter (\<lambda>os. fst os = q) (listed dirs)) in
     if saves = [] then None else Some (rev (sort saves)))"
    by (simp add: b map_of_sorted(1) [OF dm] map_of_add_saves Let_def)
  have keys: "map fst (backups dirs) = map fst (sort_key ?f ?m)" by (simp add: b split_def)
  have "set (map fst (backups dirs)) = set (map fst ?m)" unfolding keys by simp
  then show "fst ` set (backups dirs) = fst ` set (listed dirs)" by (simp add: keys_add_saves)
  show "distinct (map fst (backups dirs))" unfolding keys by (rule map_of_sorted(2) [OF dm])
  have "map (\<lambda>b. path_parts (fst b)) (backups dirs) = map ?f (sort_key ?f ?m)" by (simp add: b split_def)
  then show "sorted (map (\<lambda>b. path_parts (fst b)) (backups dirs))" by simp
qed

lemma restore_from_map:
  assumes "restore_from copies bs r disk = (Some r', disk')" and "distinct (map fst bs)"
    and "\<forall>(q, saves) \<in> set bs. saves \<noteq> [] \<and> hd saves \<notin> fst ` set bs"
  shows "r' = r @ map fst bs \<and>
    disk' = (\<lambda>q. case map_of bs q of Some saves \<Rightarrow> disk (hd saves) | None \<Rightarrow> disk q)"
  using assms
proof (induction bs arbitrary: r disk)
  case (Cons qs bs)
  obtain q latest older where qs: "qs = (q, latest # older)"
    using Cons.prems(3) by (cases qs; cases "snd qs") auto
  obtain content where c: "disk latest = Some content"
    and rest: "restore_from copies bs (r @ [q]) (disk(q \<mapsto> content)) = (Some r', disk')"
    using Cons.prems(1) by (auto simp: qs split: option.splits write_result.splits)
  have "\<forall>(q, saves) \<in> set bs. saves \<noteq> [] \<and> hd saves \<notin> fst ` set bs" using Cons.prems(3) by (auto simp: qs)
  note ih = Cons.IH [OF rest _ this]
  have new: "hd saves \<noteq> q" if "map_of bs p = Some saves" for p saves
    using Cons.prems(3) map_of_SomeD [OF that] by (auto simp: qs)
  have "map_of bs q = None" using Cons.prems(2) by (simp add: qs map_of_eq_None_iff)
  then show ?case
    using ih Cons.prems(2) new by (auto simp: qs c fun_eq_iff split: option.splits)
qed simp

text \<open>A file that cannot be written ends the run there: nothing behind it is touched.\<close>

lemma restore_from_stops:
  assumes "copies f \<noteq> Written" and "(f, saves) \<in> set bs" and "saves \<noteq> []" and "g \<noteq> f"
    and "\<And>xs ys. bs = xs @ (f, saves) # ys \<Longrightarrow> g \<notin> fst ` set xs"
  shows "\<exists>disk'. restore_from copies bs r disk = (None, disk') \<and> disk' g = disk g"
  using assms(2,5)
proof (induction bs arbitrary: r disk)
  case (Cons b bs)
  show ?case
  proof (cases "b = (f, saves)")
    case True
    then show ?thesis
      using assms(1,3,4) by (cases saves) (auto split: option.split write_result.split)
  next
    case False
    then have in_bs: "(f, saves) \<in> set bs" using Cons.prems(1) by simp
    have new: "g \<notin> fst ` set xs" if "bs = xs @ (f, saves) # ys" for xs ys
      using Cons.prems(2) [of "b # xs" ys] that by simp
    obtain xs ys where "bs = xs @ (f, saves) # ys" using in_bs by (meson split_list)
    then have g: "g \<noteq> fst b" using Cons.prems(2) [of "b # xs" ys] by auto
    obtain q ss where b: "b = (q, ss)" by fastforce
    have ih: "\<exists>disk'. restore_from copies bs r disk = (None, disk') \<and> disk' g = disk g" for r disk
      using Cons.IH [OF in_bs] new by blast
    have "\<exists>disk'. restore_from copies bs r (disk(q \<mapsto> x)) = (None, disk') \<and> disk' g = disk g" for r x
      using ih [of r "disk(q \<mapsto> x)"] g b by simp
    then show ?thesis using ih g b by (cases ss) (simp_all split: option.split write_result.split)
  qed
qed simp

lemma hd_greatest: "xs \<noteq> [] \<Longrightarrow> hd (rev (sort xs)) = Max (set xs)"
proof -
  assume ne: "xs \<noteq> []"
  have "x \<le> last (sort xs)" if "x \<in> set xs" for x
  proof -
    obtain k where "k < length (sort xs)" "sort xs ! k = x" using \<open>x \<in> set xs\<close> by (metis in_set_conv_nth set_sort)
    then show ?thesis using sorted_nth_mono [of "sort xs" k "length xs - 1"] by (simp add: last_conv_nth ne)
  qed
  moreover have "last (sort xs) \<in> set xs" using last_in_set [of "sort xs"] ne by simp
  ultimately have "Max (set xs) = last (sort xs)" by (intro Max_eqI) auto
  then show ?thesis using ne by (simp add: hd_rev)
qed

text \<open>
  \<open>restore\<close> puts back whatever looks like a backup: when it succeeds, every path that some listed
  file with \<open>.bak.\<close> in its name would stand for has the content of the greatest of these files,
  whoever wrote it, and every other path is untouched.
\<close>

theorem restore_takes_every_backup:
  assumes "restore copies dirs disk = (Some restored, disk')"
    and "fst ` set (listed dirs) \<inter> snd ` set (listed dirs) = {}"
  shows "set restored = fst ` set (listed dirs) \<and>
    disk' = (\<lambda>q. if q \<in> fst ` set (listed dirs) then disk (Max {s. (q, s) \<in> set (listed dirs)}) else disk q)"
proof -
  have saves: "set (map snd (filter (\<lambda>os. fst os = q) (listed dirs))) = {s. (q, s) \<in> set (listed dirs)}" for q
    by force
  have in_b: "saves \<noteq> [] \<and> hd saves = Max {s. (q, s) \<in> set (listed dirs)} \<and> hd saves \<in> snd ` set (listed dirs)"
    if "map_of (backups dirs) q = Some saves" for q saves
  proof -
    let ?xs = "map snd (filter (\<lambda>os. fst os = q) (listed dirs))"
    have x: "?xs \<noteq> []" "saves = rev (sort ?xs)" using that by (auto simp: backups_of(1) Let_def split: if_splits)
    then have "hd saves = Max (set ?xs)" using hd_greatest by blast
    moreover have "Max (set ?xs) \<in> set ?xs" using x(1) by (metis List.finite_set Max_in set_empty)
    moreover have "set ?xs \<subseteq> snd ` set (listed dirs)" by auto
    moreover have "length saves = length ?xs" by (simp only: x(2) length_rev length_sort)
    then have "saves \<noteq> []" using x(1) by (metis length_0_conv)
    ultimately show ?thesis unfolding saves by auto
  qed
  have "\<forall>(q, ss) \<in> set (backups dirs). ss \<noteq> [] \<and> hd ss \<notin> fst ` set (backups dirs)"
  proof (rule ballI, clarify)
    fix q ss assume "(q, ss) \<in> set (backups dirs)"
    then have m: "map_of (backups dirs) q = Some ss" using map_of_is_SomeI [OF backups_of(3)] by blast
    have "hd ss \<notin> fst ` set (backups dirs)" unfolding backups_of(2) using in_b [OF m] assms(2) by blast
    then show "ss \<noteq> [] \<and> hd ss \<notin> fst ` set (backups dirs)" using in_b [OF m] by blast
  qed
  note r = restore_from_map [OF assms(1) [unfolded restore_def] backups_of(3) this]
  have none: "map_of (backups dirs) q = None \<longleftrightarrow> q \<notin> fst ` set (listed dirs)" for q
    by (simp add: map_of_eq_None_iff backups_of(2) del: set_map)
  have "disk' q = (if q \<in> fst ` set (listed dirs) then disk (Max {s. (q, s) \<in> set (listed dirs)}) else disk q)" for q
    using r in_b [of q] none [of q] by (cases "map_of (backups dirs) q") auto
  moreover have "set restored = fst ` set (listed dirs)" using r backups_of(2) [of dirs] by simp
  ultimately show ?thesis by (simp add: fun_eq_iff)
qed

theorem restore_takes_every_backup_witness:
  "\<exists>restored disk'. restore (\<lambda>_. Written) [(''/h'', [''notes.bak.old'', ''notes''])]
      [''/h/notes.bak.old'' \<mapsto> ''mine, last year'', ''/h/notes'' \<mapsto> ''mine''] = (Some restored, disk') \<and>
    disk' ''/h/notes'' = Some ''mine, last year''"
proof -
  let ?dirs = "[(''/h'', [''notes.bak.old'', ''notes''])]"
  let ?disk = "[''/h/notes.bak.old'' \<mapsto> ''mine, last year'', ''/h/notes'' \<mapsto> ''mine'']"
  have l: "listed ?dirs = [(''/h/notes'', ''/h/notes.bak.old'')]" by code_simp
  obtain disk' where r: "restore (\<lambda>_. Written) ?dirs ?disk = (Some [''/h/notes''], disk')"
    by (simp add: restore_def backups_def l add_save_def)
  show ?thesis using restore_takes_every_backup [OF r] r by (simp add: l)
qed

section \<open>The hook is installed for what it can use\<close>

lemma matcher_is_the_classification:
  "(classify_builtin tool = LocalRead) = (tool \<in> set (split_on (\<lambda>c. c = CHR ''|'') LOCAL_READ_MATCHER))"
proof -
  have "split_on (\<lambda>c. c = CHR ''|'') LOCAL_READ_MATCHER =
      [''Read'', ''Bash'', ''BashOutput'', ''Grep'', ''Glob'', ''NotebookRead'']" by code_simp
  then show ?thesis by (simp add: classify_builtin_def)
qed

end
