(* ===== verification/Lifecycle.thy ===== *)
theory Lifecycle
  imports Connection Cli
begin

text \<open>
  The daemons of one machine: \<open>run\<close> and \<open>serve\<close> of \<open>daemon/mod.rs\<close> and \<open>cli/daemon.rs\<close>, from the start of
  the process to its end.  Several daemons may be started, for the same socket or for others; between two
  system calls of one the others do as they please.  What a path holds for those who dial it is the
  shared state.
\<close>

section \<open>Where a daemon looks and what it loads\<close>

definition socket_path :: "bytes \<Rightarrow> bytes" where
  "socket_path home = path_join (path_join home ''.mcpwall'') ''daemon.sock''"

definition policy_path :: "bytes \<Rightarrow> bytes" where
  "policy_path home = path_join (path_join home ''.mcpwall'') ''policy.yaml''"

definition home_dir :: "bytes option \<Rightarrow> bytes" where
  "home_dir var = (case var of Some h \<Rightarrow> h | None \<Rightarrow> ''.'')"

record daemon_args =
  da_socket :: "bytes option"
  da_policy :: "bytes option"

definition daemon_paths :: "bytes option \<Rightarrow> daemon_args \<Rightarrow> bytes \<times> bytes" where
  "daemon_paths home a =
     (case da_socket a of Some s \<Rightarrow> s | None \<Rightarrow> socket_path (home_dir home),
      case da_policy a of Some p \<Rightarrow> p | None \<Rightarrow> policy_path (home_dir home))"

text \<open>
  \<open>load_or_create\<close>: a missing file is written with the shipped text first.  Whether the write succeeds and the
  time it leaves are arguments; the second value is the disk.
\<close>

definition load_or_create ::
  "('g, 's) glob_lib \<Rightarrow> bytes \<Rightarrow> parser \<Rightarrow> bytes \<Rightarrow> bool \<Rightarrow> nat option \<Rightarrow> disk \<Rightarrow> bytes \<Rightarrow> 's policy option \<times> disk" where
  "load_or_create G home yaml shipped writable mtime dsk path =
     (if dsk path = None
      then if writable
           then (let dsk' = dsk(path \<mapsto> \<lparr>df_text = Some shipped, df_mtime = mtime\<rparr>)
                 in (load_policy G home yaml dsk' path, dsk'))
           else (None, dsk)
      else (load_policy G home yaml dsk path, dsk))"

section \<open>The processes\<close>

text \<open>
  Where a process stands: loading the policy, looking whether somebody answers on the path, removing what
  nobody answers on, binding, serving, and after any end of \<open>serve\<close> the removal of the socket's file.
\<close>

datatype stage =
  Loading bytes bytes
| Probing bytes
| Clearing bytes
| Binding bytes
| Serving bytes
| Leaving bytes bool
| Exited bool

text \<open>A path holds the socket that a process has bound, or something else that nobody answers on.\<close>

datatype node = Socket nat | Other

record machine =
  ma_nodes :: "bytes \<Rightarrow> node option"
  ma_stages :: "nat \<Rightarrow> stage option"
  ma_disk :: disk
  ma_started :: "(nat \<times> bytes) list"

definition dial :: "machine \<Rightarrow> bytes \<Rightarrow> nat option" where
  "dial m path =
     (case ma_nodes m path of
        Some (Socket p) \<Rightarrow> if ma_stages m p = Some (Serving path) then Some p else None
      | _ \<Rightarrow> None)"

definition goes :: "nat \<Rightarrow> stage \<Rightarrow> machine \<Rightarrow> machine" where
  "goes p st m = m\<lparr>ma_stages := (ma_stages m)(p \<mapsto> st)\<rparr>"

definition holds_at :: "bytes \<Rightarrow> node option \<Rightarrow> machine \<Rightarrow> machine" where
  "holds_at path n m = m\<lparr>ma_nodes := (ma_nodes m)(path := n)\<rparr>"

text \<open>What the look at the path leads to: \<open>bail!\<close> leaves \<open>serve\<close>, and \<open>run\<close> goes on with the removal.\<close>

definition after_probe :: "bytes \<Rightarrow> bind \<Rightarrow> stage" where
  "after_probe path b =
     (case b of
        TooLong \<Rightarrow> Leaving path False
      | AlreadyServed \<Rightarrow> Leaving path False
      | RemoveThenBind \<Rightarrow> Clearing path
      | Bind \<Rightarrow> Binding path)"

text \<open>\<open>K\<close> is the loading of the policy at a path: whether it succeeds, and the disk it leaves.\<close>

inductive life_step :: "(disk \<Rightarrow> bytes \<Rightarrow> bool \<times> disk) \<Rightarrow> machine \<Rightarrow> machine \<Rightarrow> bool" for K where
  starts: "ma_stages m p = None \<Longrightarrow>
    life_step K m (goes p (Loading path pol) (m\<lparr>ma_started := ma_started m @ [(p, path)]\<rparr>))"
| loads: "ma_stages m p = Some (Loading path pol) \<Longrightarrow> K (ma_disk m) pol = (ok, dsk) \<Longrightarrow>
    life_step K m (goes p (if ok then Probing path else Exited False) (m\<lparr>ma_disk := dsk\<rparr>))"
| probes: "ma_stages m p = Some (Probing path) \<Longrightarrow>
    life_step K m (goes p (after_probe path (prepare_socket path (ma_nodes m path \<noteq> None) (dial m path \<noteq> None))) m)"
| clears: "ma_stages m p = Some (Clearing path) \<Longrightarrow>
    life_step K m (goes p (Binding path) (holds_at path None m))"
| cannot_clear: "ma_stages m p = Some (Clearing path) \<Longrightarrow> life_step K m (goes p (Binding path) m)"
| binds: "ma_stages m p = Some (Binding path) \<Longrightarrow> ma_nodes m path = None \<Longrightarrow>
    life_step K m (goes p (Serving path) (holds_at path (Some (Socket p)) m))"
| cannot_bind: "ma_stages m p = Some (Binding path) \<Longrightarrow> life_step K m (goes p (Leaving path False) m)"
| is_stopped: "ma_stages m p = Some st \<Longrightarrow> st \<in> {Probing path, Serving path} \<Longrightarrow>
    life_step K m (goes p (Leaving path True) m)"
| unlinks: "ma_stages m p = Some (Leaving path ok) \<Longrightarrow>
    life_step K m (goes p (Exited ok) (holds_at path None m))"
| is_killed: "ma_stages m p = Some st \<Longrightarrow> life_step K m (goes p (Exited False) m)"
| others_write: "life_step K m (m\<lparr>ma_disk := dsk\<rparr>)"

definition idle_machine :: "(bytes \<Rightarrow> node option) \<Rightarrow> disk \<Rightarrow> machine" where
  "idle_machine nodes dsk = \<lparr>ma_nodes = nodes, ma_stages = (\<lambda>p. None), ma_disk = dsk, ma_started = []\<rparr>"

abbreviation life_steps where "life_steps K \<equiv> (life_step K)\<^sup>*\<^sup>*"

lemma goes_simps [simp]:
  "ma_nodes (goes p st m) = ma_nodes m" "ma_disk (goes p st m) = ma_disk m"
  "ma_started (goes p st m) = ma_started m" "ma_stages (goes p st m) q = (if q = p then Some st else ma_stages m q)"
  by (simp_all add: goes_def)

lemma holds_at_simps [simp]:
  "ma_nodes (holds_at path n m) = (ma_nodes m)(path := n)" "ma_disk (holds_at path n m) = ma_disk m"
  "ma_started (holds_at path n m) = ma_started m" "ma_stages (holds_at path n m) = ma_stages m"
  by (simp_all add: holds_at_def)

lemma dial_Some: "dial m path = Some p \<longleftrightarrow> ma_nodes m path = Some (Socket p) \<and> ma_stages m p = Some (Serving path)"
  by (auto simp: dial_def split: option.splits node.splits)

section \<open>A daemon that is left alone can be reached\<close>

fun stage_path :: "stage \<Rightarrow> bytes option" where
  "stage_path (Loading path pol) = Some path"
| "stage_path (Probing path) = Some path"
| "stage_path (Clearing path) = Some path"
| "stage_path (Binding path) = Some path"
| "stage_path (Serving path) = Some path"
| "stage_path (Leaving path ok) = Some path"
| "stage_path (Exited ok) = None"

text \<open>Who works on a path was started for it; who serves it is the one dialled, or somebody else was started for it.\<close>

definition accounted :: "machine \<Rightarrow> bool" where
  "accounted m \<longleftrightarrow>
     (\<forall>p st path. ma_stages m p = Some st \<and> stage_path st = Some path \<longrightarrow> (p, path) \<in> set (ma_started m)) \<and>
     (\<forall>p path. ma_stages m p = Some (Serving path) \<longrightarrow>
        ma_nodes m path = Some (Socket p) \<or> (\<exists>q. q \<noteq> p \<and> (q, path) \<in> set (ma_started m)))"

lemma accounted_goes:
  assumes "accounted m" and "ma_stages m p = Some st0" and "stage_path st = None \<or> stage_path st = stage_path st0"
    and "\<And>path. st \<noteq> Serving path"
  shows "accounted (goes p st m)"
  using assms unfolding accounted_def by (auto; metis)

lemma accounted_node:
  assumes "accounted m" and "ma_stages m p = Some st" and "stage_path st = Some path" and "\<And>q. st \<noteq> Serving q"
  shows "accounted (holds_at path n m)"
  using assms unfolding accounted_def by (auto; metis option.inject)

lemma accounted_step: "life_step K m m' \<Longrightarrow> accounted m \<Longrightarrow> accounted m'"
proof (induction rule: life_step.induct)
  case (starts m p path pol)
  then show ?case unfolding accounted_def by (auto; blast)
next
  case (loads m p path pol ok dsk)
  then have "accounted (m\<lparr>ma_disk := dsk\<rparr>)" unfolding accounted_def by auto
  then show ?case by (rule accounted_goes) (use loads in auto)
next
  case (probes m p path)
  then show ?case by (intro accounted_goes) (auto simp: after_probe_def split: bind.splits)
next
  case (clears m p path)
  then show ?case by (intro accounted_goes [OF accounted_node]) auto
next
  case (binds m p path)
  then have "(p, path) \<in> set (ma_started m)" unfolding accounted_def by fastforce
  then show ?case using binds unfolding accounted_def by (auto; metis)
next
  case (unlinks m p path ok)
  then show ?case by (intro accounted_goes [OF accounted_node]) auto
next
  case (others_write m dsk)
  then show ?case unfolding accounted_def by auto
qed (auto intro: accounted_goes)

lemma accounted_run: "life_steps K m m' \<Longrightarrow> accounted m \<Longrightarrow> accounted m'"
  by (induction rule: rtranclp_induct) (auto intro: accounted_step)

lemma accounted_idle [simp]: "accounted (idle_machine nodes dsk)"
  by (simp add: accounted_def idle_machine_def)

text \<open>
  C26: A daemon that has its path to itself can be reached: in whatever order the daemons of the machine are
  started, stopped, killed and fail, one that serves a path is the one that answers there as long as
  no other was ever started for the same path.
\<close>

theorem lone_daemon_is_reachable:
  assumes "life_steps K (idle_machine nodes dsk) m" and "ma_stages m p = Some (Serving path)"
    and "\<forall>q. (q, path) \<in> set (ma_started m) \<longrightarrow> q = p"
  shows "dial m path = Some p"
proof -
  have "accounted m" using assms(1) accounted_idle by (rule accounted_run)
  then show ?thesis using assms(2,3) unfolding accounted_def dial_Some by blast
qed

text \<open>A machine on which one daemon has been started on an empty path, and serves it.\<close>

definition served_machine :: machine where
  "served_machine = \<lparr>ma_nodes = [''/s'' \<mapsto> Socket 1], ma_stages = [1 \<mapsto> Serving ''/s''], ma_disk = Map.empty,
     ma_started = [(1, ''/s'')]\<rparr>"

lemma served_machine_run: "life_steps (\<lambda>d p. (True, d)) (idle_machine Map.empty Map.empty) served_machine"
proof -
  let ?K = "\<lambda>(d :: disk) (p :: bytes). (True, d)" and ?m0 = "idle_machine Map.empty Map.empty"
  let ?m1 = "goes 1 (Loading ''/s'' ''/p'') (?m0\<lparr>ma_started := ma_started ?m0 @ [(1, ''/s'')]\<rparr>)"
  let ?m2 = "goes 1 (Probing ''/s'') (?m1\<lparr>ma_disk := Map.empty\<rparr>)"
  let ?m3 = "goes 1 (Binding ''/s'') ?m2"
  have 1: "life_step ?K ?m0 ?m1" by (rule starts) (simp add: idle_machine_def)
  have 2: "life_step ?K ?m1 ?m2"
    using loads [of ?m1 1 "''/s''" "''/p''" ?K True Map.empty] by (simp add: idle_machine_def)
  have "after_probe ''/s'' (prepare_socket ''/s'' (ma_nodes ?m2 ''/s'' \<noteq> None) (dial ?m2 ''/s'' \<noteq> None)) = Binding ''/s''"
    by (simp add: idle_machine_def prepare_socket_def after_probe_def SUN_PATH_MAX_def)
  then have 3: "life_step ?K ?m2 ?m3" using probes [of ?m2 1 "''/s''" ?K] by simp
  have 4: "life_step ?K ?m3 (goes 1 (Serving ''/s'') (holds_at ''/s'' (Some (Socket 1)) ?m3))"
    by (rule binds) (simp_all add: idle_machine_def)
  have e: "goes 1 (Serving ''/s'') (holds_at ''/s'' (Some (Socket 1)) ?m3) = served_machine"
    by (simp add: served_machine_def goes_def holds_at_def idle_machine_def)
  show ?thesis using 1 2 3 4 [unfolded e] by (meson converse_rtranclp_into_rtranclp rtranclp.rtrancl_refl)
qed

theorem lone_daemon_is_reachable_witness: "dial served_machine ''/s'' = Some 1"
  by (rule lone_daemon_is_reachable [OF served_machine_run]) (simp_all add: served_machine_def)

section \<open>A second daemon\<close>

text \<open>One process runs from its start to its end while nothing else happens.\<close>

lemma failed_start_run:
  assumes "ma_stages m q = None" and "K (ma_disk m) pol = (True, dsk)"
    and "SUN_PATH_MAX < length path \<or> dial m path \<noteq> None"
  shows "life_steps K m (goes q (Exited False) (holds_at path None
    (m\<lparr>ma_started := ma_started m @ [(q, path)], ma_disk := dsk\<rparr>)))"
proof -
  let ?m1 = "goes q (Loading path pol) (m\<lparr>ma_started := ma_started m @ [(q, path)]\<rparr>)"
  let ?m2 = "goes q (Probing path) (?m1\<lparr>ma_disk := dsk\<rparr>)"
  let ?m3 = "goes q (Leaving path False) ?m2"
  have 1: "life_step K m ?m1" using assms(1) by (rule starts)
  have 2: "life_step K ?m1 ?m2" using loads [of ?m1 q path pol K True dsk] assms(2) by simp
  have d: "dial ?m2 path = dial m path" using assms(1) by (auto simp: dial_def split: option.splits node.splits)
  have "ma_nodes ?m2 path \<noteq> None" if "dial m path \<noteq> None" using that by (auto simp: dial_def split: option.splits)
  then have "after_probe path (prepare_socket path (ma_nodes ?m2 path \<noteq> None) (dial ?m2 path \<noteq> None)) = Leaving path False"
    using assms(3) d by (auto simp: prepare_socket_def after_probe_def)
  then have 3: "life_step K ?m2 ?m3" using probes [of ?m2 q path K] by simp
  have 4: "life_step K ?m3 (goes q (Exited False) (holds_at path None ?m3))" by (rule unlinks) simp
  have e: "goes q (Exited False) (holds_at path None ?m3) = goes q (Exited False) (holds_at path None
      (m\<lparr>ma_started := ma_started m @ [(q, path)], ma_disk := dsk\<rparr>))"
    by (simp add: goes_def holds_at_def)
  show ?thesis unfolding e [symmetric] using 1 2 3 4 by (meson converse_rtranclp_into_rtranclp rtranclp.rtrancl_refl)
qed

text \<open>
  C25: Starting a second daemon opens the firewall: while one daemon serves a path, another that is started for
  the same path finds it there and gives up, as it should; but on its way out it removes the first one's
  socket.  The first goes on serving, and nobody can reach it any more: a session started then finds no
  daemon, and every complete line that its client sends reaches the server, with nothing refused.
\<close>

theorem second_daemon_opens_the_wall:
  assumes "dial m path = Some p" and "ma_stages m q = None" and "K (ma_disk m) pol = (True, dsk)"
    and "memchr_ok mc" and "\<forall>c \<in> set cs. c \<noteq> []" and "wrap_config command project = Some cfg"
  shows "\<exists>m' r. life_steps K m m' \<and> ma_stages m' q = Some (Exited False) \<and>
    ma_stages m' p = Some (Serving path) \<and> dial m' path = None \<and>
    wrap_client parse (dial m' path \<noteq> None) hello ob = Returned None \<and>
    pump_run mc parse render (up_pump cfg (chosen_point parse sha render)) (map Read cs)
      \<lparr>rl_out = [], rl_denied = [], rl_notes = [], rl_state = None\<rparr> = Some r \<and> rl_denied r = [] \<and>
    prefix (concat (map (\<lambda>l. l @ [NL]) (filter (good_line DEFAULT_MAX_FRAME_BYTES) (butlast (lines (concat cs))))))
      (rl_out r)"
proof -
  let ?m = "goes q (Exited False) (holds_at path None (m\<lparr>ma_started := ma_started m @ [(q, path)], ma_disk := dsk\<rparr>))"
  have run: "life_steps K m ?m" using failed_start_run [of m q K pol dsk path] assms(1-3) by simp
  have p: "ma_stages ?m p = Some (Serving path)" using assms(1,2) by (auto simp: dial_Some)
  have d: "dial ?m path = None" by (simp add: dial_def)
  have none: "wrap_client parse (dial ?m path \<noteq> None) hello ob = Returned None"
    by (simp add: d wrap_client_def connect_def)
  have cfg: "sc_max_frame_bytes cfg = DEFAULT_MAX_FRAME_BYTES"
    using assms(6) by (auto simp: wrap_config_def session_config_new_def split: list.splits)
  obtain r where "pump_run mc parse render (up_pump cfg (chosen_point parse sha render)) (map Read cs)
      \<lparr>rl_out = [], rl_denied = [], rl_notes = [], rl_state = None\<rparr> = Some r" "rl_denied r = []"
    "prefix (concat (map (\<lambda>l. l @ [NL]) (filter (good_line DEFAULT_MAX_FRAME_BYTES) (butlast (lines (concat cs)))))) (rl_out r)"
    using wrapped.run_lenient [OF assms(4,5) _ _ refl, of "up_pump cfg (chosen_point parse sha render)" parse sha render
        "\<lparr>rl_out = [], rl_denied = [], rl_notes = [], rl_state = None\<rparr>" parse render]
    by (auto simp: up_pump_def cfg without_daemon_def prefix_def split del: if_split)
  then show ?thesis using run p d none by (intro exI [of _ ?m] exI [of _ r]) simp
qed

theorem second_daemon_opens_the_wall_witness:
  "\<exists>m' r. life_steps (\<lambda>d p. (True, d)) served_machine m' \<and> ma_stages m' 1 = Some (Serving ''/s'') \<and> dial m' ''/s'' = None \<and>
     pump_run first_index (\<lambda>_. None) (\<lambda>_. []) (up_pump (session_config_new ''srv'' []) (chosen_point (\<lambda>_. None) (\<lambda>x. x) (\<lambda>_. [])))
       (map Read [''{}'', [NL]]) \<lparr>rl_out = [], rl_denied = [], rl_notes = [], rl_state = None\<rparr> = Some r \<and>
     prefix (''{}'' @ [NL]) (rl_out r)"
proof -
  have d: "dial served_machine ''/s'' = Some 1" "ma_stages served_machine 2 = None"
    by (simp_all add: served_machine_def dial_def)
  have l: "filter (good_line DEFAULT_MAX_FRAME_BYTES) (butlast (lines (concat [''{}'', [NL]]))) = [''{}'']"
    by (simp add: good_line_def strip_cr_len_def DEFAULT_MAX_FRAME_BYTES_def)
  have w: "wrap_config [''srv''] None = Some (session_config_new ''srv'' [])"
    by (simp add: wrap_config_def session_config_new_def)
  have k: "(\<lambda>d p. (True, d)) (ma_disk served_machine) ''/p'' = (True, Map.empty)" by (simp add: served_machine_def)
  show ?thesis
    using second_daemon_opens_the_wall [where K = "\<lambda>d p. (True, d)" and pol = "''/p''" and dsk = Map.empty and mc = first_index
        and cs = "[''{}'', [NL]]" and parse = "\<lambda>_. None" and hello = None and ob = idle_observer and render = "\<lambda>_. []"
        and sha = "\<lambda>x. x", OF d k _ _ w, unfolded l] by auto
qed

end
