(* ===== verification/Onboarding.thy ===== *)
theory Onboarding
  imports Setup_Correct Lifecycle
begin

text \<open>
  \<open>mcpwall init\<close> from its first line to its last (\<open>cli/init.rs\<close>, \<open>setup/mod.rs\<close>): the link to the binary, what
  is printed and in which order, and every write with its failures.  A run is the list of what it does; the
  files are what that list leaves.  Cli and Setup hold the parts, here they are run.
\<close>

section \<open>What a run does\<close>

datatype act = Says bytes | Puts bytes bytes | Drops bytes | Links bytes bytes

fun put_act :: "act \<Rightarrow> files \<Rightarrow> files" where
  "put_act (Puts path text) disk = disk(path \<mapsto> text)"
| "put_act a disk = disk"

fun link_act :: "act \<Rightarrow> files \<Rightarrow> files" where
  "link_act (Links path dest) links = links(path \<mapsto> dest)"
| "link_act (Drops path) links = links(path := None)"
| "link_act a links = links"

text \<open>What stands around the run: paths, the two maps of the disk, and what its system calls will do.\<close>

record place =
  at_exe :: "bytes option"
  at_home :: "bytes option"
  at_cwd :: "bytes option"
  at_real :: "bytes \<Rightarrow> bytes option"
  at_present :: "bytes \<Rightarrow> bool"
  at_files :: files
  at_dirs :: "bytes \<Rightarrow> bool"
  at_drops :: bool
  at_links :: bool
  at_writes :: "bytes \<Rightarrow> write_result"
  at_clock :: "bytes \<Rightarrow> nat"

section \<open>The link to the binary\<close>

definition shim_link :: "bytes \<Rightarrow> bytes" where
  "shim_link home = path_join (path_join (path_join home ''.mcpwall'') ''bin'') ''mcpwall''"

definition ensure_shim_link :: "place \<Rightarrow> bytes \<Rightarrow> act list \<times> bytes option" where
  "ensure_shim_link E target =
     (let link = shim_link (home_dir (at_home E)) in
      if \<not> at_dirs E link then ([], None)
      else ((if at_drops E then [Drops link] else []) @ (if at_links E then [Links link target] else []),
            if at_links E then Some link else None))"

text \<open>Opening a path follows a bounded number of links.\<close>

fun opened :: "nat \<Rightarrow> files \<Rightarrow> files \<Rightarrow> bytes \<Rightarrow> bytes option" where
  "opened n links disk path =
     (case links path of
        None \<Rightarrow> disk path
      | Some dest \<Rightarrow> (case n of 0 \<Rightarrow> None | Suc m \<Rightarrow> opened m links disk dest))"

declare opened.simps [simp del]

section \<open>Reading and planning\<close>

definition routes_path :: "bytes \<Rightarrow> bytes" where
  "routes_path home = path_join (path_join home ''.mcpwall'') ''routes.json''"

definition claude_settings_path :: "bytes \<Rightarrow> bytes" where
  "claude_settings_path home = path_join (path_join home ''.claude'') ''settings.json''"

text \<open>The errors as \<open>anyhow\<close> displays them: the outermost context.\<close>

definition plan_error :: "bytes option \<Rightarrow> bytes \<Rightarrow> bytes" where
  "plan_error contents path =
     (if contents = None then ''reading '' @ utf8_lossy path else utf8_lossy path @ '' is not valid JSON'')"

definition hook_error :: "parser \<Rightarrow> bytes option \<Rightarrow> bytes \<Rightarrow> bytes" where
  "hook_error parse contents path =
     (case parse (hook_before contents) of
        None \<Rightarrow> utf8_lossy path @ '' is not valid JSON''
      | Some doc \<Rightarrow>
          (case as_object doc of
             None \<Rightarrow> utf8_lossy path @ '' is not a JSON object''
           | Some obj \<Rightarrow>
               (case as_object (case map_of obj ''hooks'' of Some h \<Rightarrow> h | None \<Rightarrow> JObject []) of
                  None \<Rightarrow> ''`hooks` in '' @ utf8_lossy path @ '' is not an object''
                | Some hooks \<Rightarrow>
                    (case find (\<lambda>(e, _). \<exists>g. map_of hooks e = Some g \<and> as_array g = None) HOOK_EVENTS of
                       Some (e, _) \<Rightarrow> ''`hooks.'' @ e @ ''` in '' @ utf8_lossy path @ '' is not an array''
                     | None \<Rightarrow> []))))"

text \<open>The targets one after the other: what is said of those that are skipped, and the plans of the others.\<close>

fun plan_targets :: "parser \<Rightarrow> printer \<Rightarrow> place \<Rightarrow> bytes \<Rightarrow> bytes \<Rightarrow> target list \<Rightarrow> act list \<times> plan list" where
  "plan_targets parse pretty E shim listen [] = ([], [])"
| "plan_targets parse pretty E shim listen (t # ts) =
     (let (said, plans) = plan_targets parse pretty E shim listen ts in
      case plan_file parse pretty (at_files E (tg_path t)) t shim listen of
        Some p \<Rightarrow> (said, p # plans)
      | None \<Rightarrow> (Says ([NL] @ utf8_lossy (tg_path t) @ ''  skipped: '' @
          plan_error (at_files E (tg_path t)) (tg_path t) @ [NL]) # said, plans))"

definition plan_all :: "parser \<Rightarrow> printer \<Rightarrow> place \<Rightarrow> bytes \<Rightarrow> bytes \<Rightarrow> bytes list \<Rightarrow> act list \<times> plan list" where
  "plan_all parse pretty E shim listen extra =
     (let home = home_dir (at_home E);
          settings = claude_settings_path home;
          (said, plans) = plan_targets parse pretty E shim listen
            (discover (at_real E) (at_present E) home (at_cwd E) extra)
      in case plan_hook parse pretty (at_files E settings) settings shim of
           Some p \<Rightarrow> (said, plans @ [p])
         | None \<Rightarrow> (said @ [Says ([NL] @ ''Claude Code hooks skipped: '' @
             hook_error parse (at_files E settings) settings @ [NL])], plans))"

definition uncovered_summary :: "plan list \<Rightarrow> act list" where
  "uncovered_summary plans =
     (let us = all_uncovered plans in
      if us = [] then []
      else [Says ([NL] @ nat_text (length us) @ '' server(s) NOT covered by mcpwall:'' @ [NL] @
        concat (map (\<lambda>(name, reason). ''  '' @ name @ ''  '' @ EM_DASH @ '' '' @ reason @ [NL]) us) @
        ''  Their traffic goes straight through. See the coverage table in the README.'' @ [NL])])"

section \<open>Writing\<close>

definition attempt :: "place \<Rightarrow> bytes \<Rightarrow> bytes \<Rightarrow> act list \<times> bool" where
  "attempt E path text =
     (case at_writes E path of
        Written \<Rightarrow> ([Puts path text], True)
      | Refused \<Rightarrow> ([], False)
      | Torn n \<Rightarrow> ([Puts path (take n text)], False))"

text \<open>\<open>apply\<close>: the backup, then the file; an error stops it where it stands.\<close>

definition apply_acts :: "place \<Rightarrow> plan \<Rightarrow> act list \<times> bytes option" where
  "apply_acts E p =
     (let backup = backup_path (at_clock E (pl_path p)) (pl_path p) in
      if \<not> at_dirs E (pl_path p) then ([], None)
      else (case attempt E backup (pl_before p) of
              (a, False) \<Rightarrow> (a, None)
            | (a, True) \<Rightarrow>
                (case attempt E (pl_path p) (pl_after p) of
                   (b, False) \<Rightarrow> (a @ b, None)
                 | (b, True) \<Rightarrow> (a @ b, Some backup))))"

fun write_plans :: "place \<Rightarrow> plan list \<Rightarrow> act list \<times> bool" where
  "write_plans E [] = ([], True)"
| "write_plans E (p # ps) =
     (if is_noop p then write_plans E ps
      else (case apply_acts E p of
              (a, None) \<Rightarrow> (a, False)
            | (a, Some backup) \<Rightarrow>
                (let (rest, ok) = write_plans E ps in
                 (a @ [Says (''wrote  '' @ utf8_lossy (pl_path p) @ ''  (backup '' @ utf8_lossy backup @ '')'' @ [NL])] @ rest,
                  ok))))"

definition routes_json :: "route_table \<Rightarrow> json" where
  "routes_json t = jobject [(''listen'', JString (tb_listen t)),
     (''routes'', jobject (map (\<lambda>(n, u). (n, JString u)) (tb_routes t)))]"

definition WARNING_SIGN :: bytes where
  "WARNING_SIGN = [CHR 0xE2, CHR 0x9A, CHR 0xA0, CHR 0xEF, CHR 0xB8, CHR 0x8F]"

definition routes_text :: "bytes \<Rightarrow> nat \<Rightarrow> bytes \<Rightarrow> bytes" where
  "routes_text path n listen =
     ''wrote  '' @ utf8_lossy path @ ''  ('' @ nat_text n @ '' route(s))'' @ [NL] @
     [NL] @ WARNING_SIGN @ ''  The '' @ nat_text n @ '' HTTP server(s) above now go through the local proxy on '' @
     listen @ ''.'' @ [NL] @
     ''   Unlike the stdio servers, they are unreachable while it is stopped: an HTTP'' @ [NL] @
     ''   client connects to a URL, so there is no way to interpose without being in'' @ [NL] @
     ''   the path. The app supervises it; `mcpwall restore` puts the URLs back.'' @ [NL]"

definition write_routes :: "printer \<Rightarrow> place \<Rightarrow> plan list \<Rightarrow> route_table \<Rightarrow> act list \<times> bool" where
  "write_routes pretty E plans t =
     (let routes = concat (map pl_routes plans); t' = add_routes plans t; path = routes_path (home_dir (at_home E)) in
      if routes = [] then ([], True)
      else if \<not> at_dirs E path then ([], False)
      else (case attempt E path (pretty (routes_json t') @ [NL]) of
              (a, False) \<Rightarrow> (a, False)
            | (a, True) \<Rightarrow> (a @ [Says (routes_text path (length routes) (tb_listen t'))], True)))"

definition done_text :: bytes where
  "done_text = [NL] @ ''Restart your MCP clients for the new configuration to take effect.'' @ [NL] @
     ''`mcpwall restore` puts everything back.'' @ [NL]"

section \<open>The whole run\<close>

text \<open>From the plans on; \<open>None\<close> is a diff that does not end.\<close>

definition carry_out :: "printer \<Rightarrow> place \<Rightarrow> bool \<Rightarrow> plan list \<Rightarrow> route_table \<Rightarrow> (act list \<times> bool) option" where
  "carry_out pretty E really plans t =
     (if plans = [] then Some ([Says ([NL] @ ''nothing to configure.'' @ [NL])], True)
      else Option.bind (those (map plan_text plans)) (\<lambda>texts.
        let shown = map Says texts @ uncovered_summary plans in
        if changes plans = 0 then Some (shown @ [Says ([NL] @ ''nothing to do.'' @ [NL])], True)
        else if \<not> really
        then Some (shown @ [Says ([NL] @ nat_text (changes plans) @ '' change(s) to make. Re-run with --apply to write.'' @ [NL])], True)
        else (case write_plans E plans of
                (a, False) \<Rightarrow> Some (shown @ a, False)
              | (a, True) \<Rightarrow>
                  (case write_routes pretty E plans t of
                     (b, False) \<Rightarrow> Some (shown @ a @ b, False)
                   | (b, True) \<Rightarrow> Some (shown @ a @ b @ [Says done_text], True)))))"

definition init_table :: "parser \<Rightarrow> place \<Rightarrow> route_table option" where
  "init_table parse E =
     (let path = routes_path (home_dir (at_home E)) in
      if at_present E path then load_routes parse (at_files E path) else Some route_table_default)"

definition init :: "parser \<Rightarrow> printer \<Rightarrow> place \<Rightarrow> bool \<Rightarrow> bytes list \<Rightarrow> (act list \<times> bool) option" where
  "init parse pretty E really extra =
     (case at_exe E of
        None \<Rightarrow> Some ([], False)
      | Some exe \<Rightarrow>
          (case ensure_shim_link E exe of
             (l, None) \<Rightarrow> Some (l, False)
           | (l, Some shim) \<Rightarrow>
               (let first = l @ [Says (''shim  '' @ utf8_lossy shim @ '' -> '' @ utf8_lossy exe @ [NL])] in
                case init_table parse E of
                  None \<Rightarrow> Some (first, False)
                | Some t \<Rightarrow>
                    (let (said, plans) = plan_all parse pretty E shim (tb_listen t) extra in
                     map_option (\<lambda>(acts, ok). (first @ said @ acts, ok)) (carry_out pretty E really plans t)))))"

definition files_after :: "act list \<Rightarrow> files \<Rightarrow> files" where
  "files_after acts disk = fold put_act acts disk"

definition links_after :: "act list \<Rightarrow> files \<Rightarrow> files" where
  "links_after acts links = fold link_act acts links"

end
