(* ===== verification/Onboarding_Correct.thy ===== *)
theory Onboarding_Correct
  imports Onboarding
begin

text \<open>
  What a run of \<open>init\<close> guarantees of the files it works on: nothing is written before it is shown, nothing is lost
  when a write fails, and what an interruption leaves behind.
\<close>

section \<open>Acts and files\<close>

lemma files_after_simps [simp]:
  "files_after [] D = D" "files_after (a # as) D = files_after as (put_act a D)"
  "files_after (as @ bs) D = files_after bs (files_after as D)"
  by (simp_all add: files_after_def)

lemma links_after_simps [simp]:
  "links_after [] L = L" "links_after (a # as) L = links_after as (link_act a L)"
  "links_after (as @ bs) L = links_after bs (links_after as L)"
  by (simp_all add: links_after_def)

definition puts :: "act list \<Rightarrow> bytes set" where
  "puts acts = {path. \<exists>text. Puts path text \<in> set acts}"

lemma puts_simps [simp]:
  "puts [] = {}" "puts (Puts path text # as) = insert path (puts as)" "puts (Says s # as) = puts as"
  "puts (Drops p # as) = puts as" "puts (Links p q # as) = puts as" "puts (as @ bs) = puts as \<union> puts bs"
  "puts (map Says texts) = {}"
  by (auto simp: puts_def)

lemma files_after_other: "path \<notin> puts acts \<Longrightarrow> files_after acts D path = D path"
proof (induction acts arbitrary: D)
  case (Cons a as)
  then show ?case by (cases a) auto
qed simp

section \<open>The names of backups\<close>

lemma dot_in_digits: "list_all is_ascii_digit ds \<Longrightarrow> CHR ''.'' \<notin> set ds"
  by (auto simp: list_all_iff is_ascii_digit_def byte_def)

lemma backup_path_inject: "backup_path s f = backup_path s' f' \<Longrightarrow> f = f'"
proof -
  assume eq: "backup_path s f = backup_path s' f'"
  have "takeWhile (\<lambda>c. c \<noteq> CHR ''.'') (rev (backup_path n g)) = rev (nat_text n)" for n g
  proof -
    have "c \<noteq> CHR ''.''" if "c \<in> set (rev (nat_text n))" for c
      using that dot_in_digits nat_text_digits [of n] by fastforce
    then show ?thesis
      using takeWhile_append2 [of "rev (nat_text n)" "\<lambda>c. c \<noteq> CHR ''.''"] by (simp add: backup_path_def BAK_def)
  qed
  then have "nat_text s = nat_text s'" using eq by (metis rev_rev_ident)
  then show "f = f'" using eq by (simp add: backup_path_def)
qed

definition ends_json :: "bytes \<Rightarrow> bool" where
  "ends_json path \<longleftrightarrow> path \<noteq> [] \<and> last path = CHR ''n''"

lemma backup_not_json: "\<not> ends_json (backup_path s f)"
proof -
  have "is_ascii_digit (last (nat_text s))" using nat_text_digits [of s] by (simp add: list_all_iff)
  then show ?thesis
    using nat_text_digits [of s] by (auto simp: ends_json_def backup_path_def is_ascii_digit_def byte_def)
qed

lemma path_join_json [simp]: "n \<noteq> [] \<Longrightarrow> ends_json (path_join d n) \<longleftrightarrow> last n = CHR ''n''"
  by (simp add: path_join_def ends_json_def)

section \<open>What is written, and where\<close>

lemma attempt_puts: "attempt E path text = (a, ok) \<Longrightarrow> puts a \<subseteq> {path}"
  by (auto simp: attempt_def split: write_result.splits)

lemma apply_puts: "apply_acts E p = (a, r) \<Longrightarrow> puts a \<subseteq> {pl_path p, backup_path (at_clock E (pl_path p)) (pl_path p)}"
  by (auto simp: apply_acts_def Let_def split: prod.splits bool.splits if_splits dest!: attempt_puts)

text \<open>Where the original text of a file is: in its place, or in a backup that was written in full.\<close>

definition kept :: "place \<Rightarrow> bytes \<Rightarrow> bytes \<Rightarrow> files \<Rightarrow> bool" where
  "kept E f text D \<longleftrightarrow> D f = Some text \<or>
     D (backup_path (at_clock E f) f) = Some text \<and> at_writes E (backup_path (at_clock E f) f) = Written"

lemma apply_kept:
  assumes "apply_acts E p = (a, r)" and "kept E f text D" and "pl_path p = f \<Longrightarrow> pl_before p = text"
    and "ends_json (pl_path p)" and "\<And>s g. f \<noteq> backup_path s g"
  shows "kept E f text (files_after a D)"
proof (cases "pl_path p = f")
  case True
  let ?b = "backup_path (at_clock E f) f"
  have b: "f \<noteq> ?b" "?b \<noteq> f" using assms(5) by metis+
  show ?thesis
    using assms(1-3) True b
    by (auto simp: apply_acts_def attempt_def kept_def Let_def split: if_splits write_result.splits)
next
  case False
  have "backup_path (at_clock E f) f \<noteq> pl_path p" using assms(4) backup_not_json by metis
  moreover have "backup_path (at_clock E f) f \<noteq> backup_path (at_clock E (pl_path p)) (pl_path p)"
    using backup_path_inject False by blast
  ultimately have "f \<notin> puts a" "backup_path (at_clock E f) f \<notin> puts a"
    using apply_puts [OF assms(1)] False assms(5) by auto
  then show ?thesis using assms(2) by (simp add: kept_def files_after_other)
qed

lemma plans_kept:
  assumes "write_plans E ps = (a, ok)" and "kept E f text D" and "\<And>p. p \<in> set ps \<Longrightarrow> pl_path p = f \<Longrightarrow> pl_before p = text"
    and "\<And>p. p \<in> set ps \<Longrightarrow> ends_json (pl_path p)" and "\<And>s g. f \<noteq> backup_path s g"
  shows "kept E f text (files_after a D)"
  using assms(1-4)
proof (induction ps arbitrary: a ok D)
  case (Cons p ps)
  show ?case
  proof (cases "is_noop p")
    case True
    then show ?thesis using Cons.IH [of a ok D] Cons.prems by simp
  next
    case False
    obtain b r where b: "apply_acts E p = (b, r)" by fastforce
    have k: "kept E f text (files_after b D)"
      using apply_kept [OF b Cons.prems(2) _ _ assms(5)] Cons.prems(3,4) by simp
    show ?thesis
    proof (cases r)
      case None
      then show ?thesis using Cons.prems(1) False b k by simp
    next
      case (Some backup)
      obtain c ok' where c: "write_plans E ps = (c, ok')" by fastforce
      then have "kept E f text (files_after c (files_after b D))"
        using Cons.IH k Cons.prems(3,4) by simp
      then show ?thesis using Cons.prems(1) False b c Some by auto
    qed
  qed
qed simp

lemma plans_puts: "write_plans E ps = (a, ok) \<Longrightarrow>
   puts a \<subseteq> (\<Union>p \<in> set ps. {pl_path p, backup_path (at_clock E (pl_path p)) (pl_path p)})"
proof (induction ps arbitrary: a ok)
  case (Cons p ps)
  obtain b r where b: "apply_acts E p = (b, r)" by fastforce
  obtain c ok' where c: "write_plans E ps = (c, ok')" by fastforce
  have "puts a \<subseteq> puts b \<union> puts c" using Cons.prems b c by (auto split: if_splits option.splits)
  then show ?case using apply_puts [OF b] Cons.IH [OF c] by auto
qed simp

section \<open>Which files are planned\<close>

text \<open>The end of a name is enough to tell the configurations, the hook's settings and the route table apart.\<close>

definition ending :: "bytes \<Rightarrow> bytes" where
  "ending path = take 7 (rev path)"

lemma ending_join [simp]: "7 \<le> length n \<Longrightarrow> ending (path_join d n) = ending n"
  by (auto simp: ending_def path_join_def)

lemma ending_json: "ending path = rev (x @ ''json'') \<Longrightarrow> ends_json path"
  by (cases path rule: rev_cases) (auto simp: ending_def ends_json_def)

definition config_path :: "bytes \<Rightarrow> bool" where
  "config_path path \<longleftrightarrow> ending path \<in> {rev ''de.json'', rev ''cp.json''}"

lemma config_paths [simp]:
  "config_path (path_join d ''.claude.json'')" "config_path (path_join d ''mcp.json'')"
  "config_path (path_join d ''.mcp.json'')"
  by (simp_all add: config_path_def) (simp_all add: ending_def)

lemma config_json: "config_path path \<Longrightarrow> ends_json path"
  using ending_json [of path "''de.''"] ending_json [of path "''cp.''"] by (auto simp: config_path_def)

lemma special_paths:
  "ends_json (claude_settings_path home)" "ends_json (routes_path home)"
  "\<not> config_path (claude_settings_path home)" "\<not> config_path (routes_path home)"
  "claude_settings_path home \<noteq> routes_path home'"
proof -
  have e: "ending (claude_settings_path h) = rev ''gs.json''" "ending (routes_path h) = rev ''es.json''" for h
    by (simp_all add: claude_settings_path_def routes_path_def) (simp_all add: ending_def)
  show "ends_json (claude_settings_path home)" "ends_json (routes_path home)"
    by (simp_all add: claude_settings_path_def routes_path_def)
  show "\<not> config_path (claude_settings_path home)" "\<not> config_path (routes_path home)"
    by (simp_all add: config_path_def e)
  show "claude_settings_path home \<noteq> routes_path home'" using e [of home] e [of home'] by auto
qed

lemma project_targets_paths:
  "list_all (\<lambda>t. config_path (tg_path t)) out \<Longrightarrow> distinct (map tg_path out) \<Longrightarrow>
   list_all (\<lambda>t. config_path (tg_path t)) (project_targets fs present ps out) \<and>
   distinct (map tg_path (project_targets fs present ps out))"
proof (induction ps arbitrary: out)
  case (Cons p ps)
  let ?f = "path_join p ''.mcp.json''"
  show ?case
  proof (cases "present ?f \<and> \<not> list_ex (\<lambda>t. components (tg_path t) = components ?f) out")
    case True
    let ?t = "\<lparr>tg_path = ?f, tg_kind = ProjectMcp, tg_project = Some (canonicalize_for_scope fs p)\<rparr>"
    have "?f \<notin> set (map tg_path out)" using True by (auto simp: list_ex_iff)
    then have "distinct (map tg_path (out @ [?t]))" "list_all (\<lambda>t. config_path (tg_path t)) (out @ [?t])"
      using Cons.prems by simp_all
    then show ?thesis using Cons.IH [of "out @ [?t]"] True by (simp add: Let_def)
  next
    case False
    then have "project_targets fs present (p # ps) out = project_targets fs present ps out"
      by (simp only: project_targets.simps Let_def if_False)
    then show ?thesis using Cons.IH [OF Cons.prems] by simp
  qed
qed simp

lemma discover_paths:
  "list_all (\<lambda>t. config_path (tg_path t)) (discover fs present home cwd extra)"
  "distinct (map tg_path (discover fs present home cwd extra))"
proof -
  have ne: "path_join home ''.claude.json'' \<noteq> path_join (path_join home ''.cursor'') ''mcp.json''"
    by (intro notI, drule arg_cong [where f = ending]) (simp, simp add: ending_def)
  have "list_all (\<lambda>t. config_path (tg_path t)) (discover fs present home cwd extra) \<and>
      distinct (map tg_path (discover fs present home cwd extra))"
    unfolding discover_def Let_def by (rule project_targets_paths) (use ne in simp_all)
  then show "list_all (\<lambda>t. config_path (tg_path t)) (discover fs present home cwd extra)"
    "distinct (map tg_path (discover fs present home cwd extra))" by simp_all
qed

lemma plan_file_parts:
  "plan_file parse pretty contents tg shim listen = Some p \<Longrightarrow> pl_path p = tg_path tg \<and> contents = Some (pl_before p)"
  by (auto simp: plan_file_def bind_eq_Some_conv case_prod_beta)

lemma plan_hook_parts:
  "plan_hook parse pretty contents path shim = Some p \<Longrightarrow>
   pl_path p = path \<and> pl_before p = hook_before contents \<and> pl_routes p = []"
  by (auto simp: plan_hook_def bind_eq_Some_conv Let_def)

lemma plan_targets_parts:
  assumes "plan_targets parse pretty E shim listen ts = (said, plans)"
  shows "puts said = {} \<and> set (map pl_path plans) \<subseteq> set (map tg_path ts) \<and> (distinct (map tg_path ts) \<longrightarrow> distinct (map pl_path plans)) \<and>
    (\<forall>p \<in> set plans. \<exists>tg \<in> set ts. plan_file parse pretty (at_files E (tg_path tg)) tg shim listen = Some p)"
  using assms
proof (induction ts arbitrary: said plans)
  case (Cons t ts)
  obtain s ps where r: "plan_targets parse pretty E shim listen ts = (s, ps)" by fastforce
  note ih = Cons.IH [OF r]
  show ?case
  proof (cases "plan_file parse pretty (at_files E (tg_path t)) t shim listen")
    case None
    then show ?thesis using Cons.prems ih r by auto
  next
    case (Some p)
    then have "plans = p # ps" "said = s" "pl_path p = tg_path t"
      using Cons.prems r plan_file_parts [OF Some] by simp_all
    then show ?thesis using ih Some by auto
  qed
qed simp

section \<open>The parts of a run\<close>

definition planned :: "parser \<Rightarrow> printer \<Rightarrow> place \<Rightarrow> bytes list \<Rightarrow> plan list" where
  "planned parse pretty E extra =
     (case (at_exe E, init_table parse E) of
        (Some exe, Some t) \<Rightarrow>
          (case snd (ensure_shim_link E exe) of
             Some shim \<Rightarrow> snd (plan_all parse pretty E shim (tb_listen t) extra)
           | None \<Rightarrow> [])
      | _ \<Rightarrow> [])"

lemma plan_all_parts:
  assumes "plan_all parse pretty E shim listen extra = (said, plans)"
  shows "puts said = {} \<and> distinct (map pl_path plans) \<and>
    (\<forall>p \<in> set plans. (config_path (pl_path p) \<and> (\<exists>tg \<in> set (discover (at_real E) (at_present E) (home_dir (at_home E)) (at_cwd E) extra).
         plan_file parse pretty (at_files E (pl_path p)) tg shim listen = Some p)) \<or>
       (pl_path p = claude_settings_path (home_dir (at_home E)) \<and>
        pl_before p = hook_before (at_files E (pl_path p)) \<and> pl_routes p = []))"
proof -
  let ?ts = "discover (at_real E) (at_present E) (home_dir (at_home E)) (at_cwd E) extra"
  let ?home = "home_dir (at_home E)"
  obtain s ps where r: "plan_targets parse pretty E shim listen ?ts = (s, ps)" by fastforce
  note t = plan_targets_parts [OF r]
  have c: "config_path (pl_path p) \<and> (\<exists>tg \<in> set ?ts. plan_file parse pretty (at_files E (pl_path p)) tg shim listen = Some p)"
    if p: "p \<in> set ps" for p
  proof -
    obtain tg where tg: "tg \<in> set ?ts" "plan_file parse pretty (at_files E (tg_path tg)) tg shim listen = Some p"
      using t p by blast
    then show ?thesis
      using plan_file_parts [OF tg(2)] discover_paths(1) [of "at_real E" "at_present E" ?home "at_cwd E" extra]
      by (auto simp: list_all_iff)
  qed
  have new: "claude_settings_path ?home \<notin> pl_path ` set ps"
  proof
    assume "claude_settings_path ?home \<in> pl_path ` set ps"
    then obtain q where "q \<in> set ps" "pl_path q = claude_settings_path ?home" by auto
    then show False using c [of q] special_paths(3) [of ?home] by simp
  qed
  have d: "puts s = {}" "distinct (map pl_path ps)" using t discover_paths(2) by blast+
  let ?settings = "claude_settings_path ?home"
  show ?thesis
  proof (cases "plan_hook parse pretty (at_files E ?settings) ?settings shim")
    case None
    then have "plans = ps" "puts said = {}" using assms r d by (auto simp: plan_all_def Let_def)
    then show ?thesis using d c by simp
  next
    case (Some q)
    then have "plans = ps @ [q]" "said = s" using assms r by (auto simp: plan_all_def Let_def)
    moreover have "pl_path q = ?settings" "pl_before q = hook_before (at_files E ?settings)" "pl_routes q = []"
      using plan_hook_parts [OF Some] by simp_all
    ultimately show ?thesis using d c new by auto
  qed
qed

lemma planned_parts:
  assumes "at_exe E = Some exe" and "ensure_shim_link E exe = (l, Some shim)" and "init_table parse E = Some t"
    and "plan_all parse pretty E shim (tb_listen t) extra = (said, plans)"
  shows "planned parse pretty E extra = plans"
  using assms by (simp add: planned_def)

lemma init_parts:
  assumes "init parse pretty E really extra = Some (acts, ok)"
  obtains (stopped) "puts acts = {}" "\<not> ok" "planned parse pretty E extra = []"
  | (ran) t first rest where "init_table parse E = Some t" "puts first = {}" "acts = first @ rest"
      "carry_out pretty E really (planned parse pretty E extra) t = Some (rest, ok)"
proof (cases "at_exe E")
  case None
  then show thesis using assms stopped by (simp add: init_def planned_def)
next
  case (Some exe)
  obtain l r where l: "ensure_shim_link E exe = (l, r)" by fastforce
  have lp: "puts l = {}" using l by (auto simp: ensure_shim_link_def Let_def split: if_splits)
  show thesis
  proof (cases "r = None \<or> init_table parse E = None")
    case True
    then show thesis
      using assms Some l lp stopped by (auto simp: init_def planned_def Let_def split: option.splits)
  next
    case False
    then obtain shim t where r: "r = Some shim" and t: "init_table parse E = Some t" by auto
    obtain said plans where p: "plan_all parse pretty E shim (tb_listen t) extra = (said, plans)" by fastforce
    note pl = planned_parts [OF Some l [unfolded r] t p]
    obtain rest where rest: "carry_out pretty E really plans t = Some (rest, ok)" and
      acts: "acts = (l @ [Says (''shim  '' @ utf8_lossy shim @ '' -> '' @ utf8_lossy exe @ [NL])] @ said) @ rest"
      using assms Some l r t p by (auto simp: init_def Let_def)
    show thesis by (rule ran [OF t _ acts]) (use lp plan_all_parts [OF p] rest pl in simp_all)
  qed
qed

lemma planned_all:
  "planned parse pretty E extra = [] \<or>
   (\<exists>exe shim t said l. at_exe E = Some exe \<and> ensure_shim_link E exe = (l, Some shim) \<and> init_table parse E = Some t \<and>
      plan_all parse pretty E shim (tb_listen t) extra = (said, planned parse pretty E extra))"
  by (auto simp: planned_def split: option.splits) (metis prod.collapse)

lemma planned_paths:
  "distinct (map pl_path (planned parse pretty E extra))"
  "p \<in> set (planned parse pretty E extra) \<Longrightarrow> ends_json (pl_path p) \<and> pl_path p \<noteq> routes_path home"
  "p \<in> set (planned parse pretty E extra) \<Longrightarrow> at_files E (pl_path p) = Some text \<Longrightarrow> \<not> trims_to_nothing text \<Longrightarrow>
   pl_before p = text"
proof -
  have a: "distinct (map pl_path ps) \<and> (p \<in> set ps \<longrightarrow> ends_json (pl_path p) \<and> pl_path p \<noteq> routes_path home \<and>
      (at_files E (pl_path p) = Some text \<longrightarrow> \<not> trims_to_nothing text \<longrightarrow> pl_before p = text))"
    if "plan_all parse pretty E shim listen extra = (said, ps)" for shim listen said ps
  proof (cases "p \<in> set ps")
    case True
    note parts = plan_all_parts [OF that]
    from parts True consider tg where "config_path (pl_path p)" "plan_file parse pretty (at_files E (pl_path p)) tg shim listen = Some p"
      | "pl_path p = claude_settings_path (home_dir (at_home E))" "pl_before p = hook_before (at_files E (pl_path p))"
      by blast
    then show ?thesis
    proof cases
      case 1
      then show ?thesis using parts config_json special_paths(4) plan_file_parts [OF 1(2)] by auto
    next
      case 2
      then show ?thesis using parts special_paths(1,5) by (auto simp: hook_before_def)
    qed
  qed (use plan_all_parts [OF that] in simp)
  then show "distinct (map pl_path (planned parse pretty E extra))"
    "p \<in> set (planned parse pretty E extra) \<Longrightarrow> ends_json (pl_path p) \<and> pl_path p \<noteq> routes_path home"
    "p \<in> set (planned parse pretty E extra) \<Longrightarrow> at_files E (pl_path p) = Some text \<Longrightarrow> \<not> trims_to_nothing text \<Longrightarrow>
     pl_before p = text"
    using planned_all [of parse pretty E extra] by fastforce+
qed

lemma plan_text_ends: "\<exists>txt. plan_text p = Some txt"
  using diff_loop_script [of 0 "str_lines (pl_before p)" 0 "str_lines (pl_after p)" "[]"]
  by (auto simp: plan_text_def diff_def Let_def)

lemma those_texts: "\<exists>texts. those (map plan_text ps) = Some texts \<and> (\<forall>p \<in> set ps. \<exists>txt. plan_text p = Some txt \<and> txt \<in> set texts)"
proof (induction ps)
  case (Cons p ps)
  then show ?case using plan_text_ends [of p] by fastforce
qed simp

lemma carry_out_ends: "\<exists>acts ok. carry_out pretty E really plans t = Some (acts, ok)"
proof -
  obtain texts where "those (map plan_text plans) = Some texts" using those_texts by blast
  moreover obtain a ok1 where "write_plans E plans = (a, ok1)" by fastforce
  moreover obtain b ok2 where "write_routes pretty E plans t = (b, ok2)" by fastforce
  ultimately show ?thesis by (cases ok1; cases ok2) (auto simp: carry_out_def Let_def)
qed

lemma init_ends: "\<exists>acts ok. init parse pretty E really extra = Some (acts, ok)"
proof -
  have "\<exists>y. map_option (\<lambda>(acts, ok). (first @ acts, ok)) (carry_out pretty E really plans t) = Some y" for first plans t
    using carry_out_ends [of pretty E really plans t] by auto
  then show ?thesis by (auto simp: init_def Let_def split: option.split prod.split)
qed

lemma summary_puts [simp]: "puts (uncovered_summary plans) = {}"
  by (simp add: uncovered_summary_def Let_def)

lemma routes_puts: "write_routes pretty E plans t = (b, ok) \<Longrightarrow> puts b \<subseteq> {routes_path (home_dir (at_home E))}"
  by (auto simp: write_routes_def Let_def split: if_splits prod.splits bool.splits dest!: attempt_puts)

text \<open>What \<open>carry_out\<close> does is to show everything, and then to write or not.\<close>

lemma carry_out_parts:
  assumes "carry_out pretty E really plans t = Some (acts, ok)"
  obtains shown rest where "acts = shown @ rest" "puts shown = {}"
    "\<forall>p \<in> set plans. \<exists>txt. plan_text p = Some txt \<and> Says txt \<in> set shown"
    "set (uncovered_summary plans) \<subseteq> set shown"
    "rest = [] \<or> really \<and> (\<exists>a b ok'. write_plans E plans = (a, ok') \<and> rest = a @ b \<and>
       puts b \<subseteq> {routes_path (home_dir (at_home E))} \<and> (\<not> ok' \<longrightarrow> b = [] \<and> \<not> ok))"
proof (cases "plans = []")
  case True
  then show thesis
    using assms that [of acts "[]"] by (auto simp: carry_out_def uncovered_summary_def all_uncovered_def)
next
  case False
  obtain texts where texts: "those (map plan_text plans) = Some texts"
    "\<forall>p \<in> set plans. \<exists>txt. plan_text p = Some txt \<and> txt \<in> set texts"
    using those_texts by blast
  let ?shown = "map Says texts @ uncovered_summary plans"
  have s: "\<forall>p \<in> set plans. \<exists>txt. plan_text p = Some txt \<and> Says txt \<in> set (?shown @ more)" for more
    using texts(2) by fastforce
  consider (dry) more where "acts = ?shown @ more" "puts more = {}"
    | (wet) "really" "acts = ?shown @ (case write_plans E plans of (a, False) \<Rightarrow> a
        | (a, True) \<Rightarrow> (case write_routes pretty E plans t of (b, False) \<Rightarrow> a @ b | (b, True) \<Rightarrow> a @ b @ [Says done_text]))"
      "ok = (case write_plans E plans of (a, False) \<Rightarrow> False | (a, True) \<Rightarrow> snd (write_routes pretty E plans t))"
    using assms False texts(1) unfolding carry_out_def Let_def
    by (auto split: if_splits prod.splits bool.splits)
  then show thesis
  proof cases
    case dry
    then show thesis using that [of "?shown @ more" "[]"] s [of more] by auto
  next
    case wet
    show thesis
      by (rule that [OF wet(2)])
        (use wet(1,3) s [of "[]"] routes_puts [of pretty E plans t] in \<open>auto split: prod.splits bool.splits\<close>)
  qed
qed

section \<open>Nothing before it is shown, nothing lost\<close>

text \<open>
  C21: Nothing is written before it has been shown: when a run of \<open>init\<close> writes a file, \<open>--apply\<close> was given, and
  before the first write the user was shown the text on every file that is going to be changed, its diff included, and
  the list of the servers left unprotected; also when writes fail.
\<close>

theorem nothing_is_written_before_it_is_shown:
  assumes "init parse pretty E really extra = Some (before @ Puts path text # after, ok)"
  shows "really \<and> (\<forall>p \<in> set (planned parse pretty E extra). \<exists>txt. plan_text p = Some txt \<and> Says txt \<in> set before) \<and>
    set (uncovered_summary (planned parse pretty E extra)) \<subseteq> set before"
  using assms
proof (cases rule: init_parts)
  case stopped
  then show ?thesis by simp
next
  case (ran t first rest)
  show ?thesis
  proof (rule carry_out_parts [OF ran(4)])
    fix shown more
    assume parts: "rest = shown @ more" "puts shown = {}"
      "\<forall>p \<in> set (planned parse pretty E extra). \<exists>txt. plan_text p = Some txt \<and> Says txt \<in> set shown"
      "set (uncovered_summary (planned parse pretty E extra)) \<subseteq> set shown"
      "more = [] \<or> really \<and> (\<exists>a b ok'. write_plans E (planned parse pretty E extra) = (a, ok') \<and> more = a @ b \<and>
       puts b \<subseteq> {routes_path (home_dir (at_home E))} \<and> (\<not> ok' \<longrightarrow> b = [] \<and> \<not> ok))"
    have all: "before @ Puts path text # after = (first @ shown) @ more" using ran(3) parts(1) by simp
    have none: "Puts path text \<notin> set (first @ shown)" using ran(2) parts(2) by (auto simp: puts_def)
    from all none have "set (first @ shown) \<subseteq> set before"
      by (auto simp: append_eq_append_conv2 Cons_eq_append_conv)
    moreover have "more \<noteq> []"
      using all none by (metis append_Nil2 in_set_conv_decomp)
    ultimately have "really" "set shown \<subseteq> set before" using parts(5) by auto
    then show ?thesis using parts(3,4) by (meson subset_trans subsetD)
  qed
qed

text \<open>
  C19: \<open>init\<close> loses nothing, whatever write fails and however: at the end of any run, each file that held a text
  still holds it, or else the run's backup of the file does, complete.  The route table, which is not a
  user's file and has no backup, and old backups are set aside.
\<close>

theorem init_loses_nothing:
  assumes "init parse pretty E really extra = Some (acts, ok)"
    and "at_files E f = Some text" and "\<not> trims_to_nothing text"
    and "f \<noteq> routes_path (home_dir (at_home E))" and "\<And>s g. f \<noteq> backup_path s g"
  shows "files_after acts (at_files E) f = Some text \<or>
    files_after acts (at_files E) (backup_path (at_clock E f) f) = Some text"
  using assms(1)
proof (cases rule: init_parts)
  case stopped
  then show ?thesis using assms(2) by (simp add: files_after_other)
next
  case (ran t first rest)
  let ?ps = "planned parse pretty E extra"
  show ?thesis
  proof (rule carry_out_parts [OF ran(4)])
    fix shown more
    assume parts: "rest = shown @ more" "puts shown = {}"
      "more = [] \<or> really \<and> (\<exists>a b ok'. write_plans E ?ps = (a, ok') \<and> more = a @ b \<and>
       puts b \<subseteq> {routes_path (home_dir (at_home E))} \<and> (\<not> ok' \<longrightarrow> b = [] \<and> \<not> ok))"
    have same: "files_after (first @ shown) (at_files E) = at_files E"
      using ran(2) parts(2) by (intro ext files_after_other) simp
    have start: "kept E f text (at_files E)" using assms(2) by (simp add: kept_def)
    have "kept E f text (files_after more (at_files E))"
    proof (cases "more = []")
      case False
      then obtain a ok' b where a: "write_plans E ?ps = (a, ok')" and more: "more = a @ b"
        and b: "puts b \<subseteq> {routes_path (home_dir (at_home E))}"
        using parts(3) by blast
      have k: "kept E f text (files_after a (at_files E))"
      proof (rule plans_kept [OF a start])
        fix p
        assume p: "p \<in> set ?ps"
        show "pl_path p = f \<Longrightarrow> pl_before p = text" using planned_paths(3) [OF p] assms(2,3) by simp
        show "ends_json (pl_path p)" using planned_paths(2) [OF p] by simp
      qed (rule assms(5))
      have "backup_path (at_clock E f) f \<noteq> routes_path (home_dir (at_home E))"
        using special_paths(2) backup_not_json by metis
      then have "f \<notin> puts b" "backup_path (at_clock E f) f \<notin> puts b" using b assms(4) by auto
      then show ?thesis using k by (simp add: more kept_def files_after_other)
    qed (simp add: start)
    then show ?thesis using same ran(3) parts(1) by (auto simp: kept_def)
  qed
qed

section \<open>The link\<close>

text \<open>
  The link every configuration names leads to the program that ran \<open>init\<close>, and no other link changes,
  when \<open>current_exe\<close> gives the program's own file.  When it gives the path the program was started by, as some platforms
  do, and that is the link, the link is remade onto itself, and no configuration can start its server any more.
\<close>

theorem the_link_leads_to_the_program:
  assumes "ensure_shim_link E target = (acts, Some link)"
  shows "(\<forall>p. p \<noteq> link \<longrightarrow> links_after acts links p = links p) \<and>
    (target \<noteq> link \<longrightarrow> links target = None \<longrightarrow> opened (Suc n) (links_after acts links) disk link = disk target) \<and>
    (target = link \<longrightarrow> opened n (links_after acts links) disk link = None)"
proof -
  have acts: "acts = (if at_drops E then [Drops link] else []) @ [Links link target]"
    using assms by (auto simp: ensure_shim_link_def Let_def split: if_splits)
  then have l: "links_after acts links = links(link \<mapsto> target)" by auto
  have "opened n (links(link \<mapsto> link)) disk link = None"
    by (induction n) (simp_all add: opened.simps)
  then show ?thesis unfolding l by (auto simp: opened.simps [of _ "links(link \<mapsto> target)" disk])
qed

definition a_place :: place where
  "a_place = \<lparr>at_exe = Some ''/app/mcpwall'', at_home = Some ''/h'', at_cwd = None, at_real = (\<lambda>_. None),
     at_present = (\<lambda>p. p = ''/h/.claude.json''), at_files = [''/h/.claude.json'' \<mapsto> ''old''], at_dirs = (\<lambda>_. True),
     at_drops = False, at_links = True,
     at_writes = (\<lambda>p. if p = ''/h/.claude/settings.json.bak.7'' then Refused else Written), at_clock = (\<lambda>_. 7)\<rparr>"

lemma a_link: "ensure_shim_link a_place x = ([Links ''/h/.mcpwall/bin/mcpwall'' x], Some ''/h/.mcpwall/bin/mcpwall'')"
  by (simp add: ensure_shim_link_def a_place_def home_dir_def shim_link_def path_join_def Let_def)

theorem the_link_leads_to_the_program_witness:
  "opened 9 (links_after (fst (ensure_shim_link a_place ''/app/mcpwall'')) Map.empty) [''/app/mcpwall'' \<mapsto> ''elf''] ''/h/.mcpwall/bin/mcpwall'' = Some ''elf'' \<and>
   opened 9 (links_after (fst (ensure_shim_link a_place ''/h/.mcpwall/bin/mcpwall'')) Map.empty) Map.empty ''/h/.mcpwall/bin/mcpwall'' = None"
  using the_link_leads_to_the_program [OF a_link [of "''/app/mcpwall''"], of Map.empty 8 "[''/app/mcpwall'' \<mapsto> ''elf'']"]
    the_link_leads_to_the_program [OF a_link [of "''/h/.mcpwall/bin/mcpwall''"], of Map.empty 9 Map.empty]
  by (simp add: a_link numeral_eq_Suc)

section \<open>Interrupted\<close>

lemma apply_done: "apply_acts E p = (a, Some b) \<Longrightarrow> files_after a D (pl_path p) = Some (pl_after p)"
  by (auto simp: apply_acts_def attempt_def Let_def split: if_splits write_result.splits)

lemma plans_stop:
  assumes "write_plans E (ps @ p # rest) = (a, ok)" and "\<forall>q \<in> set ps. \<not> is_noop q \<longrightarrow> snd (apply_acts E q) \<noteq> None"
    and "\<not> is_noop p" and "snd (apply_acts E p) = None"
    and "distinct (map pl_path (ps @ p # rest))" and "\<forall>q \<in> set (ps @ p # rest). ends_json (pl_path q)"
  shows "\<not> ok \<and> (\<forall>q \<in> set ps. \<not> is_noop q \<longrightarrow> files_after a D (pl_path q) = Some (pl_after q))"
  using assms
proof (induction ps arbitrary: a ok D)
  case Nil
  then show ?case by (auto split: prod.splits option.splits)
next
  case (Cons q ps)
  obtain c ok' where c: "write_plans E (ps @ p # rest) = (c, ok')" by fastforce
  have ih: "\<not> ok' \<and> (\<forall>q \<in> set ps. \<not> is_noop q \<longrightarrow> files_after c D (pl_path q) = Some (pl_after q))" for D
    using Cons.IH [OF c] Cons.prems(2-6) by simp
  show ?case
  proof (cases "is_noop q")
    case True
    then show ?thesis using Cons.prems(1) c ih by auto
  next
    case False
    then obtain b backup where b: "apply_acts E q = (b, Some backup)"
      using Cons.prems(2) by (cases "apply_acts E q") auto
    have "pl_path q \<noteq> backup_path s g" for s g using Cons.prems(6) backup_not_json by (metis append_Cons list.set_intros(1))
    then have "pl_path q \<notin> (\<Union>x \<in> set (ps @ p # rest). {pl_path x, backup_path (at_clock E (pl_path x)) (pl_path x)})"
      using Cons.prems(5) by auto
    then have "pl_path q \<notin> puts c" using plans_puts [OF c] by blast
    then have "files_after c (files_after b D) (pl_path q) = Some (pl_after q)"
      using apply_done [OF b] by (simp add: files_after_other)
    then show ?thesis using Cons.prems(1) False b c ih by auto
  qed
qed

text \<open>A file of the plans comes from one target, the same in every run at the place.\<close>

lemma planned_config:
  assumes "at_exe E = Some exe" and "ensure_shim_link E exe = (l, Some shim)" and "init_table parse E = Some t"
    and "q \<in> set (planned parse pretty E extra)" and "pl_routes q \<noteq> [] \<or> config_path (pl_path q)"
  obtains tg where "tg \<in> set (discover (at_real E) (at_present E) (home_dir (at_home E)) (at_cwd E) extra)"
    "plan_file parse pretty (at_files E (tg_path tg)) tg shim (tb_listen t) = Some q" "pl_path q = tg_path tg"
proof -
  obtain said plans where p: "plan_all parse pretty E shim (tb_listen t) extra = (said, plans)" by fastforce
  have "q \<in> set plans" using assms(4) planned_parts [OF assms(1-3) p] by simp
  then obtain tg where "tg \<in> set (discover (at_real E) (at_present E) (home_dir (at_home E)) (at_cwd E) extra)"
    "plan_file parse pretty (at_files E (pl_path q)) tg shim (tb_listen t) = Some q"
    using plan_all_parts [OF p] assms(5) special_paths(3) by metis
  then show thesis using that [of tg] plan_file_parts [of parse pretty "at_files E (pl_path q)" tg shim "tb_listen t" q] by simp
qed

lemma link_of_place [simp]: "ensure_shim_link (E\<lparr>at_files := D\<rparr>) exe = ensure_shim_link E exe"
  by (simp add: ensure_shim_link_def Let_def)

lemma planned_again:
  assumes "q \<in> set (planned parse pretty E extra)" and "config_path (pl_path q)"
    and "init_table parse (E\<lparr>at_files := D\<rparr>) = init_table parse E" and "D (pl_path q) = Some (pl_after q)"
    and "\<And>v. pl_after q = pretty v @ [NL] \<Longrightarrow> parse (pl_after q) = Some v"
    and "q' \<in> set (planned parse pretty (E\<lparr>at_files := D\<rparr>) extra)" and "pl_path q' = pl_path q"
  shows "pl_routes q' = []"
proof -
  obtain exe shim t said l where e: "at_exe E = Some exe" "ensure_shim_link E exe = (l, Some shim)" "init_table parse E = Some t"
    using planned_all [of parse pretty E extra] assms(1) by auto
  have e': "at_exe (E\<lparr>at_files := D\<rparr>) = Some exe" "ensure_shim_link (E\<lparr>at_files := D\<rparr>) exe = (l, Some shim)"
    "init_table parse (E\<lparr>at_files := D\<rparr>) = Some t"
    using e assms(3) by simp_all
  obtain tg where tg: "tg \<in> set (discover (at_real E) (at_present E) (home_dir (at_home E)) (at_cwd E) extra)"
    "plan_file parse pretty (at_files E (tg_path tg)) tg shim (tb_listen t) = Some q" "pl_path q = tg_path tg"
    using planned_config [OF e assms(1)] assms(2) by blast
  obtain tg' where tg': "tg' \<in> set (discover (at_real E) (at_present E) (home_dir (at_home E)) (at_cwd E) extra)"
    "plan_file parse pretty (D (tg_path tg')) tg' shim (tb_listen t) = Some q'" "pl_path q' = tg_path tg'"
    using planned_config [OF e' assms(6)] assms(2,7) by auto
  have "tg' = tg"
    using tg tg' assms(7) discover_paths(2) [of "at_real E" "at_present E" "home_dir (at_home E)" "at_cwd E" extra]
    by (auto simp: distinct_map dest: inj_onD)
  then show ?thesis
    using plan_again [of parse pretty _ tg shim "tb_listen t" q] tg tg'(2) assms(4,5)
      plan_file_parts [OF tg(2)] by fastforce
qed

lemma stopped_run:
  assumes "init parse pretty E True extra = Some (acts, ok)"
    and "planned parse pretty E extra = before @ p # rest"
    and "\<forall>q \<in> set before. \<not> is_noop q \<longrightarrow> snd (apply_acts E q) \<noteq> None"
    and "\<not> is_noop p" and "snd (apply_acts E p) = None"
    and "q \<in> set before" and "\<not> is_noop q" and "D = files_after acts (at_files E)"
  shows "\<not> ok \<and> D (pl_path q) = Some (pl_after q) \<and> init_table parse (E\<lparr>at_files := D\<rparr>) = init_table parse E"
  using assms(1)
proof (cases rule: init_parts)
  case stopped
  then show ?thesis using assms(2) by simp
next
  case (ran t first more)
  let ?ps = "planned parse pretty E extra"
  have q: "q \<in> set ?ps" using assms(2,6) by simp
  obtain a ok' where a: "write_plans E ?ps = (a, ok')" by fastforce
  have stop: "\<not> ok' \<and> files_after a (at_files E) (pl_path q) = Some (pl_after q)"
    using plans_stop [OF a [unfolded assms(2)] assms(3-5), of "at_files E"] assms(6,7) planned_paths(1,2) assms(2)
    by metis
  have "changes ?ps \<noteq> 0" using assms(2,4) by (simp add: changes_def is_noop_def)
  then obtain shown where more: "more = shown @ a" "puts shown = {}" "\<not> ok"
    using ran(4) a stop assms(2) by (auto simp: carry_out_def Let_def bind_eq_Some_conv)
  have same: "files_after (first @ shown) (at_files E) = at_files E"
    using ran(2) more(2) by (intro ext files_after_other) simp
  then have D: "D = files_after a (at_files E)" using assms(8) ran(3) more(1) by simp
  have routes: "routes_path (home_dir (at_home E)) \<notin> puts a"
  proof
    assume "routes_path (home_dir (at_home E)) \<in> puts a"
    then obtain x where x: "x \<in> set ?ps" "routes_path (home_dir (at_home E)) = pl_path x \<or>
        routes_path (home_dir (at_home E)) = backup_path (at_clock E (pl_path x)) (pl_path x)"
      using plans_puts [OF a] by blast
    then show False
      using planned_paths(2) [OF x(1), of "home_dir (at_home E)"] special_paths(2) [of "home_dir (at_home E)"]
        backup_not_json by metis
  qed
  then have table: "init_table parse (E\<lparr>at_files := D\<rparr>) = init_table parse E"
    by (simp add: init_table_def D files_after_other Let_def)
  show ?thesis using more(3) stop table by (simp add: D)
qed

text \<open>
  C22: An interrupted \<open>init\<close> strands the HTTP servers of the files it had written: when the write of a file
  fails, the files before it are rewritten and their servers point at the local proxy, but the route
  table is untouched and does not know them; and running \<open>init\<close> again does not repair it, since planning these
  files again takes their servers for routed and finds no route to add.
\<close>

theorem interrupted_init_strands_routes:
  assumes "init parse pretty E True extra = Some (acts, ok)"
    and "planned parse pretty E extra = before @ p # rest"
    and "\<forall>q \<in> set before. \<not> is_noop q \<longrightarrow> snd (apply_acts E q) \<noteq> None"
    and "\<not> is_noop p" and "snd (apply_acts E p) = None"
    and "q \<in> set before" and "\<not> is_noop q" and "pl_routes q \<noteq> []"
    and "\<And>v. pl_after q = pretty v @ [NL] \<Longrightarrow> parse (pl_after q) = Some v"
    and "D = files_after acts (at_files E)"
  shows "\<not> ok \<and> D (pl_path q) = Some (pl_after q) \<and>
    init_table parse (E\<lparr>at_files := D\<rparr>) = init_table parse E \<and>
    (\<forall>q' \<in> set (planned parse pretty (E\<lparr>at_files := D\<rparr>) extra). pl_path q' = pl_path q \<longrightarrow> pl_routes q' = [])"
proof -
  have q: "q \<in> set (planned parse pretty E extra)" using assms(2,6) by simp
  note stop = stopped_run [OF assms(1-7,10)]
  have config: "config_path (pl_path q)"
    using planned_all [of parse pretty E extra] q assms(8) plan_all_parts by fastforce
  show ?thesis using stop planned_again [OF q config _ _ assms(9)] by auto
qed

section \<open>Undisturbed\<close>

text \<open>
  When every write succeeds, the list of acts of a run leaves exactly what the function \<open>init_run\<close> of the
  files and the route table says: the two models of \<open>init\<close> agree, so that what is proved of the one holds of
  the other.
\<close>

theorem undisturbed_init_is_init_run:
  assumes "carry_out pretty E really plans t = Some (acts, ok)"
    and "\<And>path. at_dirs E path" and "\<And>path. at_writes E path = Written" and "\<And>path. at_clock E path = stamp"
  shows "ok \<and> files_after acts D = (case init_run stamp really plans t D of
      (D', None) \<Rightarrow> D'
    | (D', Some t') \<Rightarrow> D'(routes_path (home_dir (at_home E)) \<mapsto> pretty (routes_json t') @ [NL]))"
proof -
  have plans: "\<exists>a. write_plans E ps = (a, True) \<and> (\<forall>D. files_after a D = apply_plans stamp ps D)" for ps
  proof (induction ps)
    case (Cons p ps)
    then obtain a where a: "write_plans E ps = (a, True)" "\<And>D. files_after a D = apply_plans stamp ps D" by blast
    obtain b backup where b: "apply_acts E p = (b, Some backup)" "\<And>D. files_after b D = apply_plan stamp p D"
      by (simp add: apply_acts_def attempt_def assms(2-4) apply_plan_def Let_def)
    show ?case
      using a b by (cases "is_noop p") (simp_all add: apply_plans_def)
  qed (simp add: apply_plans_def)
  then obtain a where a: "write_plans E plans = (a, True)" "\<And>D. files_after a D = apply_plans stamp plans D" by metis
  have still: "puts shown = {} \<Longrightarrow> files_after shown D = D" for shown D by (intro ext files_after_other) simp
  show ?thesis
  proof (cases "changes plans = 0 \<or> \<not> really")
    case True
    then have "ok \<and> puts acts = {}"
      using assms(1) by (auto simp: carry_out_def Let_def bind_eq_Some_conv split: if_splits)
    then show ?thesis using True by (simp add: init_run_def still)
  next
    case False
    then have "plans \<noteq> []" by (auto simp: changes_def)
    obtain b ok' where b: "write_routes pretty E plans t = (b, ok')" by fastforce
    obtain texts where "those (map plan_text plans) = Some texts" using those_texts by blast
    then have "acts = (map Says texts @ uncovered_summary plans) @ a @ b @ (if ok' then [Says done_text] else []) \<and> ok = ok'"
      using assms(1) False a(1) b \<open>plans \<noteq> []\<close> by (simp add: carry_out_def Let_def split: bool.splits)
    then obtain shown c where r: "write_routes pretty E plans t = (b, ok')" "acts = shown @ a @ b @ c" "puts shown = {}"
      "puts c = {}" "ok = ok'"
      using b that [of "map Says texts @ uncovered_summary plans" "if ok' then [Says done_text] else []"] by simp
    let ?path = "routes_path (home_dir (at_home E))" and ?n = "length (concat (map pl_routes plans))"
    have "write_routes pretty E plans t = (if concat (map pl_routes plans) = [] then []
        else [Puts ?path (pretty (routes_json (add_routes plans t)) @ [NL]), Says (routes_text ?path ?n (tb_listen (add_routes plans t)))], True)"
      by (simp add: write_routes_def attempt_def assms(2,3) Let_def)
    then show ?thesis using False r a(2) by (simp add: init_run_def still split: if_splits)
  qed
qed

theorem undisturbed_init_is_init_run_witness:
  "\<exists>acts. carry_out (\<lambda>_. ''t'') (a_place\<lparr>at_writes := \<lambda>_. Written\<rparr>) True
      [\<lparr>pl_path = ''/c'', pl_kind = ProjectMcp, pl_before = ''a'', pl_after = ''b'', pl_wrapped = [''git''], pl_already = [],
        pl_routes = [(''git'', ''https://h'')], pl_uncovered = []\<rparr>] route_table_default = Some (acts, True) \<and>
     files_after acts [''/c'' \<mapsto> ''a''] = [''/c'' \<mapsto> ''b'', ''/c.bak.7'' \<mapsto> ''a'', ''/h/.mcpwall/routes.json'' \<mapsto> ''t'' @ [NL]]"
proof -
  let ?E = "a_place\<lparr>at_writes := \<lambda>_. Written\<rparr>"
  let ?p = "\<lparr>pl_path = ''/c'', pl_kind = ProjectMcp, pl_before = ''a'', pl_after = ''b'', pl_wrapped = [''git''], pl_already = [],
        pl_routes = [(''git'', ''https://h'')], pl_uncovered = []\<rparr>"
  obtain acts ok where run: "carry_out (\<lambda>_. ''t'') ?E True [?p] route_table_default = Some (acts, ok)"
    using carry_out_ends by blast
  have b: "backup_path 7 ''/c'' = ''/c.bak.7''" by code_simp
  have home: "routes_path (home_dir (at_home ?E)) = ''/h/.mcpwall/routes.json''"
    by (simp add: a_place_def home_dir_def routes_path_def path_join_def)
  show ?thesis
    using undisturbed_init_is_init_run [OF run, of 7 "[''/c'' \<mapsto> ''a'']"] run home b
    by (simp add: a_place_def init_run_def changes_def apply_plans_def apply_plan_def is_noop_def fun_upd_twist)
qed

section \<open>A small place\<close>

text \<open>One configuration with an HTTP server, and a disk that refuses the backup of the hook's settings.\<close>

definition a_routed :: json where
  "a_routed = fst (place_document ''/h/.mcpwall/bin/mcpwall'' default_listen None a_config)"

definition a_parse :: parser where
  "a_parse s = (if s = ''old'' then Some a_config else if s = ''new'' @ [NL] then Some a_routed
     else if s = ''{}'' @ [NL] then Some (JObject []) else None)"

definition a_pretty :: printer where
  "a_pretty v = (if v = a_routed then ''new'' else [])"

lemma a_plans:
  "\<exists>q p. planned a_parse a_pretty a_place [] = [q, p] \<and> pl_path q = ''/h/.claude.json'' \<and> pl_after q = ''new'' @ [NL] \<and>
     pl_routes q = [(''git'', ''https://h/mcp'')] \<and> \<not> is_noop q \<and> \<not> is_noop p \<and> pl_path p = ''/h/.claude/settings.json''"
proof -
  have home: "home_dir (at_home a_place) = ''/h''" by (simp add: a_place_def home_dir_def)
  have table: "init_table a_parse a_place = Some route_table_default"
    by (simp add: init_table_def home routes_path_def path_join_def a_place_def)
  have found: "discover (at_real a_place) (at_present a_place) ''/h'' (at_cwd a_place) [] =
      [\<lparr>tg_path = ''/h/.claude.json'', tg_kind = ClaudeGlobal, tg_project = None\<rparr>]"
    by (simp add: discover_def a_place_def path_join_def)
  have place: "place_document ''/h/.mcpwall/bin/mcpwall'' default_listen None a_config =
      (a_routed, \<lparr>ta_wrapped = [''git''], ta_already = [], ta_uncovered = [], ta_routes = [(''git'', ''https://h/mcp'')]\<rparr>)"
    by (simp add: a_routed_def a_config_def place_document_def place_servers_def place_entry_def wrap_entry_def
        route_entry_def default_listen_def starts_with_def no_tally_def Let_def)
  obtain q where q: "plan_file a_parse a_pretty (Some ''old'') \<lparr>tg_path = ''/h/.claude.json'', tg_kind = ClaudeGlobal, tg_project = None\<rparr>
      ''/h/.mcpwall/bin/mcpwall'' default_listen = Some q" and qs: "pl_path q = ''/h/.claude.json''" "pl_after q = ''new'' @ [NL]"
      "pl_routes q = [(''git'', ''https://h/mcp'')]" "\<not> is_noop q"
    by (simp add: plan_file_def a_parse_def place a_pretty_def is_noop_def)
  obtain p where p: "plan_hook a_parse a_pretty None ''/h/.claude/settings.json'' ''/h/.mcpwall/bin/mcpwall'' = Some p"
    and ps: "\<not> is_noop p" "pl_path p = ''/h/.claude/settings.json''"
    by (simp add: plan_hook_def hook_before_def a_parse_def HOOK_EVENTS_def is_noop_def)
  have files: "at_files a_place ''/h/.claude.json'' = Some ''old''" "at_files a_place ''/h/.claude/settings.json'' = None"
    by (simp_all add: a_place_def)
  have "plan_all a_parse a_pretty a_place ''/h/.mcpwall/bin/mcpwall'' default_listen [] = ([], [q, p])"
    by (simp add: plan_all_def home found claude_settings_path_def path_join_def files q p)
  moreover have "at_exe a_place = Some ''/app/mcpwall''" by (simp add: a_place_def)
  ultimately have "planned a_parse a_pretty a_place [] = [q, p]"
    by (simp add: planned_def table a_link route_table_default_def)
  then show ?thesis using qs ps by blast
qed

lemma a_backups:
  "backup_path 7 ''/h/.claude/settings.json'' = ''/h/.claude/settings.json.bak.7''"
  "backup_path 7 ''/h/.claude.json'' = ''/h/.claude.json.bak.7''"
  by code_simp+

theorem nothing_is_written_before_it_is_shown_witness:
  "\<exists>before text after ok. init a_parse a_pretty a_place True [] = Some (before @ Puts ''/h/.claude.json'' text # after, ok) \<and>
     (\<forall>p \<in> set (planned a_parse a_pretty a_place []). \<exists>said. plan_text p = Some said \<and> Says said \<in> set before)"
proof -
  obtain acts ok where run: "init a_parse a_pretty a_place True [] = Some (acts, ok)" using init_ends by blast
  obtain q p where a: "planned a_parse a_pretty a_place [] = [q, p]" "pl_path q = ''/h/.claude.json''" "pl_after q = ''new'' @ [NL]"
    "\<not> is_noop q" "\<not> is_noop p" "pl_path p = ''/h/.claude/settings.json''" using a_plans by blast
  have fails: "snd (apply_acts a_place p) = None" and works: "snd (apply_acts a_place q) \<noteq> None"
    by (simp_all add: apply_acts_def attempt_def a a_place_def a_backups Let_def)
  have "files_after acts (at_files a_place) ''/h/.claude.json'' = Some (''new'' @ [NL])"
    using stopped_run [OF run, of "[q]" p "[]" q, OF _ _ a(5) fails _ a(4) refl] works a by simp
  then have "''/h/.claude.json'' \<in> puts acts"
    using files_after_other [of "''/h/.claude.json''" acts "at_files a_place"] by (auto simp: a_place_def)
  then obtain words where "Puts ''/h/.claude.json'' words \<in> set acts" by (auto simp: puts_def)
  then obtain before after where acts: "acts = before @ Puts ''/h/.claude.json'' words # after"
    by (meson split_list)
  show ?thesis
    using run nothing_is_written_before_it_is_shown [OF run [unfolded acts]] unfolding acts by blast
qed

theorem init_loses_nothing_witness:
  "\<exists>acts ok. init a_parse a_pretty a_place True [] = Some (acts, ok) \<and>
     (files_after acts (at_files a_place) ''/h/.claude.json'' = Some ''old'' \<or>
      files_after acts (at_files a_place) (backup_path 7 ''/h/.claude.json'') = Some ''old'')"
proof -
  obtain acts ok where run: "init a_parse a_pretty a_place True [] = Some (acts, ok)" using init_ends by blast
  have json: "ends_json ''/h/.claude.json''" by (simp add: ends_json_def)
  have "files_after acts (at_files a_place) ''/h/.claude.json'' = Some ''old'' \<or>
      files_after acts (at_files a_place) (backup_path (at_clock a_place ''/h/.claude.json'') ''/h/.claude.json'') = Some ''old''"
  proof (rule init_loses_nothing [OF run])
    show "at_files a_place ''/h/.claude.json'' = Some ''old''" by (simp add: a_place_def)
    show "\<not> trims_to_nothing ''old''" by code_simp
    show "''/h/.claude.json'' \<noteq> routes_path (home_dir (at_home a_place))"
      by (simp add: a_place_def home_dir_def routes_path_def path_join_def)
    show "''/h/.claude.json'' \<noteq> backup_path s g" for s g using json backup_not_json by metis
  qed
  then show ?thesis using run by (auto simp: a_place_def)
qed

theorem interrupted_init_strands_routes_witness:
  "\<exists>acts (q :: plan). init a_parse a_pretty a_place True [] = Some (acts, False) \<and> pl_routes q = [(''git'', ''https://h/mcp'')] \<and>
     files_after acts (at_files a_place) ''/h/.claude.json'' = Some (pl_after q) \<and>
     init_table a_parse (a_place\<lparr>at_files := files_after acts (at_files a_place)\<rparr>) = init_table a_parse a_place"
proof -
  obtain acts ok where run: "init a_parse a_pretty a_place True [] = Some (acts, ok)" using init_ends by blast
  obtain q p where a: "planned a_parse a_pretty a_place [] = [q, p]" "pl_path q = ''/h/.claude.json''" "pl_after q = ''new'' @ [NL]"
    "pl_routes q = [(''git'', ''https://h/mcp'')]" "\<not> is_noop q" "\<not> is_noop p" "pl_path p = ''/h/.claude/settings.json''"
    using a_plans by blast
  have fails: "snd (apply_acts a_place p) = None" and works: "snd (apply_acts a_place q) \<noteq> None"
    by (simp_all add: apply_acts_def attempt_def a a_place_def a_backups Let_def)
  have parse: "a_parse (pl_after q) = Some v" if "pl_after q = a_pretty v @ [NL]" for v
    using that a(3) by (auto simp: a_pretty_def a_parse_def split: if_splits)
  have "\<not> ok \<and> files_after acts (at_files a_place) (pl_path q) = Some (pl_after q) \<and>
      init_table a_parse (a_place\<lparr>at_files := files_after acts (at_files a_place)\<rparr>) = init_table a_parse a_place"
    using interrupted_init_strands_routes [OF run, of "[q]" p "[]", OF _ _ a(6) fails _ a(5) _ parse refl] works a(1,4) by simp
  then have "init a_parse a_pretty a_place True [] = Some (acts, False) \<and> pl_routes q = [(''git'', ''https://h/mcp'')] \<and>
      files_after acts (at_files a_place) ''/h/.claude.json'' = Some (pl_after q) \<and>
      init_table a_parse (a_place\<lparr>at_files := files_after acts (at_files a_place)\<rparr>) = init_table a_parse a_place"
    using run a(2,4) by simp
  then show ?thesis by blast
qed

end
