(* ===== verification/Commands.thy ===== *)
theory Commands
  imports Wrap Log Onboarding_Correct
begin

text \<open>
  The command line as a whole (\<open>cli/mod.rs\<close>): which subcommand runs with what, and the small ones that
  only put parts together, \<open>policy\<close> and \<open>proxy\<close>.
\<close>

section \<open>The arguments\<close>

record proxy_args =
  pa_routes :: "bytes option"
  pa_listen :: "bytes option"
  pa_socket :: "bytes option"

record hook_args =
  ha_project :: "bytes option"
  ha_socket :: "bytes option"

record init_args =
  ia_apply :: bool
  ia_projects :: "bytes list"

datatype command =
  CWrap wrap_args | CLog log_args | CDaemon daemon_args | CProxy proxy_args | CHook hook_args | CInit init_args
| CRestore | CPolicy

record cli =
  ci_db :: "bytes option"
  ci_command :: command

definition default_db_path :: "bytes \<Rightarrow> bytes" where
  "default_db_path home = path_join (path_join home ''.mcpwall'') ''journal.db''"

section \<open>Dispatch\<close>

datatype runtime = NoRuntime | CurrentThread | MultiThread

text \<open>What a subcommand is started with: the level of its diagnostics, its runtime, the journal it is given.\<close>

record launch =
  ln_tracing :: "bytes option"
  ln_runtime :: runtime
  ln_db :: "bytes option"

definition launched :: "bytes option \<Rightarrow> cli \<Rightarrow> launch" where
  "launched home c =
     (let db = (case ci_db c of Some d \<Rightarrow> d | None \<Rightarrow> default_db_path (home_dir home)) in
      case ci_command c of
        CWrap a \<Rightarrow> \<lparr>ln_tracing = Some ''warn'', ln_runtime = CurrentThread, ln_db = Some db\<rparr>
      | CLog a \<Rightarrow> \<lparr>ln_tracing = None, ln_runtime = NoRuntime, ln_db = Some db\<rparr>
      | CDaemon a \<Rightarrow> \<lparr>ln_tracing = Some ''info'', ln_runtime = MultiThread, ln_db = Some db\<rparr>
      | CProxy a \<Rightarrow> \<lparr>ln_tracing = Some ''info'', ln_runtime = MultiThread, ln_db = None\<rparr>
      | CHook a \<Rightarrow> \<lparr>ln_tracing = Some ''warn'', ln_runtime = NoRuntime, ln_db = None\<rparr>
      | CInit a \<Rightarrow> \<lparr>ln_tracing = None, ln_runtime = NoRuntime, ln_db = None\<rparr>
      | CRestore \<Rightarrow> \<lparr>ln_tracing = None, ln_runtime = NoRuntime, ln_db = None\<rparr>
      | CPolicy \<Rightarrow> \<lparr>ln_tracing = None, ln_runtime = NoRuntime, ln_db = None\<rparr>)"

text \<open>The status of the process: \<open>wrap\<close> hands on its session's code, an error anywhere is 1.\<close>

definition process_status :: "command \<Rightarrow> int option \<Rightarrow> int" where
  "process_status c result =
     (case result of
        None \<Rightarrow> 1
      | Some code \<Rightarrow> (case c of CWrap a \<Rightarrow> code | _ \<Rightarrow> 0))"

section \<open>mcpwall policy\<close>

text \<open>\<open>Duration\<close> as \<open>Debug\<close> prints whole seconds.\<close>

definition seconds_text :: "nat \<Rightarrow> bytes" where
  "seconds_text n = (if n = 0 then ''0ns'' else nat_text n @ ''s'')"

definition policy_text :: "bytes \<Rightarrow> policy_file \<Rightarrow> bytes" where
  "policy_text path f =
     ''policy         '' @ utf8_lossy path @ [NL] @
     ''default        '' @ action_str (pf_default f) @ [NL] @
     ''fail_closed    '' @ (if pf_fail_closed f then ''true'' else ''false'') @ [NL] @
     ''ask_timeout    '' @ seconds_text (pf_ask_timeout f) @ [NL] @
     [NL] @ ''syntax valid.'' @ [NL]"

definition show_policy ::
  "('g, 's) glob_lib \<Rightarrow> bytes \<Rightarrow> parser \<Rightarrow> bytes \<Rightarrow> bool \<Rightarrow> nat option \<Rightarrow> bytes option \<Rightarrow> disk \<Rightarrow> bytes option \<times> disk" where
  "show_policy G ghome yaml shipped writable mtime home dsk =
     (let path = policy_path (home_dir home); (p, dsk') = load_or_create G ghome yaml shipped writable mtime dsk path in
      (map_option (\<lambda>p. policy_text path (p_file p)) p, dsk'))"

section \<open>mcpwall proxy\<close>

definition proxy_start ::
  "'u uri_lib \<Rightarrow> parser \<Rightarrow> bytes option \<Rightarrow> proxy_args \<Rightarrow> (bytes \<Rightarrow> bool) \<Rightarrow> files \<Rightarrow> bool \<Rightarrow> bytes option \<Rightarrow>
   ((ip \<times> nat) \<times> 'u route list \<times> client option) option outcome" where
  "proxy_start U parse home a present files connected hello =
     (let path = (case pa_routes a of Some p \<Rightarrow> p | None \<Rightarrow> routes_path (home_dir home)) in
      case proxy_table parse (present path) (files path) (pa_listen a) of
        None \<Rightarrow> Returned None
      | Some t \<Rightarrow>
          (case resolve_table U t of
             Inl e \<Rightarrow> Returned None
           | Inr (addr, routes) \<Rightarrow>
               obind (connect parse connected hello False proxy_session_info) (\<lambda>c.
                 Returned (Some (addr, routes, c)))))"

end
