(* ===== verification/Link.thy ===== *)
theory Link
  imports Connection Client "HOL-Library.Countable"
begin

text \<open>
  A shim and the daemon over one socket: the IPC thread of \<open>ipc/client.rs\<close> with the channel that feeds it, the
  lines on their way in both directions, and the task of this connection in the daemon's system, in which the tasks of
  all other connections, the interfaces and the user take their steps as well.  The verdicts carry no number: that each
  is read as the answer to its own question rests on both sides taking lines in order and on every other
  message of a shim having no answer.
\<close>

section \<open>The IPC thread and the line\<close>

text \<open>What the thread is asked to send; a question carries the number of the call that waits for it.\<close>

datatype outgoing = Ask nat decide_request | Tell client_message

text \<open>
  \<open>lk_waiting\<close> is the call whose verdict the thread is reading; \<open>lk_down\<close> are the lines the daemon has written, of
  which the thread has read \<open>lk_read\<close>, the hello being the first; \<open>lk_sys\<close> is the whole daemon with the tasks of
  all its calls, \<open>lk_serving\<close> the task that decides a question of this connection.  \<open>lk_asked\<close> are the questions
  of all calls by number, \<open>lk_got\<close> what their reply channels received.  Two histories: \<open>lk_sent\<close> the calls whose
  question was written, \<open>lk_taken\<close> the tasks of the questions the daemon has read, each in that order.
\<close>

record 's link =
  lk_queue :: "outgoing list"
  lk_waiting :: "nat option"
  lk_alive :: bool
  lk_up :: "bytes list"
  lk_down :: "bytes list"
  lk_read :: nat
  lk_open :: bool
  lk_sys :: "'s system"
  lk_serving :: "nat option"
  lk_asked :: "decide_request list"
  lk_got :: "nat \<Rightarrow> decide_response option option"
  lk_sent :: "nat list"
  lk_taken :: "nat list"

definition line_of :: "('g, 's) libs \<Rightarrow> client_message \<Rightarrow> bytes" where
  "line_of L m = lib_render L (enc_client m)"

text \<open>A line as \<open>BufRead::lines\<close> gives it: without its newline and a carriage return before it.\<close>

definition chomp :: "bytes \<Rightarrow> bytes" where
  "chomp l =
     (let l1 = (if l \<noteq> [] \<and> last l = NL then butlast l else l)
      in if l1 \<noteq> l \<and> l1 \<noteq> [] \<and> last l1 = CR then butlast l1 else l1)"

definition unread :: "'s link \<Rightarrow> bytes list" where
  "unread s = drop (lk_read s) (lk_down s)"

fun is_report :: "client_message \<Rightarrow> bool" where
  "is_report (CTaint t) = True"
| "is_report (CTools t) = True"
| "is_report m = False"

text \<open>
  The first eight steps are the shim's: its threads hand over questions and reports, the IPC thread writes and
  reads.  The others are the daemon's: the loop of this connection takes a line only when the question before it is
  answered, and the system moves by any step of any of its tasks (\<open>world\<close>), the policy file being edited among them.
\<close>

inductive link_step :: "('g, 's) libs \<Rightarrow> 's link \<Rightarrow> 's link \<Rightarrow> bool" for L :: "('g, 's) libs" where
  asks: "lk_alive s \<Longrightarrow> client_wf (CDecide q) \<Longrightarrow>
    link_step L s (s\<lparr>lk_queue := lk_queue s @ [Ask (length (lk_asked s)) q], lk_asked := lk_asked s @ [q]\<rparr>)"
| tells: "lk_alive s \<Longrightarrow> is_report m \<Longrightarrow> client_wf m \<Longrightarrow> link_step L s (s\<lparr>lk_queue := lk_queue s @ [Tell m]\<rparr>)"
| writes_question: "lk_alive s \<Longrightarrow> lk_waiting s = None \<Longrightarrow> lk_queue s = Ask n q # rest \<Longrightarrow> sendable q \<Longrightarrow>
    link_step L s (s\<lparr>lk_queue := rest, lk_up := lk_up s @ [line_of L (CDecide q)], lk_waiting := Some n,
      lk_sent := lk_sent s @ [n]\<rparr>)"
| cannot_write: "lk_alive s \<Longrightarrow> lk_waiting s = None \<Longrightarrow> lk_queue s = Ask n q # rest \<Longrightarrow>
    link_step L s (s\<lparr>lk_queue := rest, lk_got := (lk_got s)(n \<mapsto> None), lk_alive := False\<rparr>)"
| writes_report: "lk_alive s \<Longrightarrow> lk_waiting s = None \<Longrightarrow> lk_queue s = Tell m # rest \<Longrightarrow>
    link_step L s (s\<lparr>lk_queue := rest, lk_up := lk_up s @ [line_of L m]\<rparr>)"
| loses_report: "lk_alive s \<Longrightarrow> lk_waiting s = None \<Longrightarrow> lk_queue s = Tell m # rest \<Longrightarrow>
    link_step L s (s\<lparr>lk_queue := rest\<rparr>)"
| reads: "lk_alive s \<Longrightarrow> lk_waiting s = Some n \<Longrightarrow> unread s = l # rest \<Longrightarrow>
    link_step L s (s\<lparr>lk_got := (lk_got s)(n \<mapsto> verdict_in (lib_parse L) (chomp l)), lk_waiting := None,
      lk_read := lk_read s + 1, lk_alive := (verdict_in (lib_parse L) (chomp l) \<noteq> None)\<rparr>)"
| gives_up: "lk_alive s \<Longrightarrow> lk_waiting s = Some n \<Longrightarrow>
    link_step L s (s\<lparr>lk_got := (lk_got s)(n \<mapsto> None), lk_waiting := None, lk_alive := False\<rparr>)"
| world: "sys_step L (lk_sys s) w \<Longrightarrow> link_step L s (s\<lparr>lk_sys := w\<rparr>)"
| skips: "lk_open s \<Longrightarrow> lk_serving s = None \<Longrightarrow> lk_up s = l # rest \<Longrightarrow> read_line L l = None \<Longrightarrow>
    link_step L s (s\<lparr>lk_up := rest\<rparr>)"
| takes_question: "lk_open s \<Longrightarrow> lk_serving s = None \<Longrightarrow> lk_up s = l # rest \<Longrightarrow>
    read_line L l = Some (CDecide q) \<Longrightarrow> sy_tasks (lk_sys s) t = None \<Longrightarrow>
    link_step L s (s\<lparr>lk_up := rest, lk_sys := at t (Received q) (sy_daemon (lk_sys s)) (lk_sys s), lk_serving := Some t,
      lk_taken := lk_taken s @ [t]\<rparr>)"
| takes_read: "lk_open s \<Longrightarrow> lk_serving s = None \<Longrightarrow> lk_up s = l # rest \<Longrightarrow> read_line L l = Some (CTaint r) \<Longrightarrow>
    link_step L s (s\<lparr>lk_up := rest, lk_sys := (lk_sys s)\<lparr>sy_daemon := take_taint now r (sy_daemon (lk_sys s))\<rparr>\<rparr>)"
| takes_tools: "lk_open s \<Longrightarrow> lk_serving s = None \<Longrightarrow> lk_up s = l # rest \<Longrightarrow> read_line L l = Some (CTools r) \<Longrightarrow>
    link_step L s (s\<lparr>lk_up := rest, lk_sys := (lk_sys s)\<lparr>sy_daemon := take_tools io_ok ms r (sy_daemon (lk_sys s))\<rparr>\<rparr>)"
| replies: "lk_open s \<Longrightarrow> lk_serving s = Some t \<Longrightarrow> sy_tasks (lk_sys s) t = Some (Done q dec tool r) \<Longrightarrow>
    link_step L s (s\<lparr>lk_down := lk_down s @ [reply_line L (SVerdict r)], lk_serving := None\<rparr>)"
| reply_fails: "lk_open s \<Longrightarrow> lk_serving s = Some t \<Longrightarrow> sy_tasks (lk_sys s) t = Some (Done q dec tool r) \<Longrightarrow>
    link_step L s (s\<lparr>lk_open := False\<rparr>)"
| dies: "lk_open s \<Longrightarrow> lk_serving s = Some t \<Longrightarrow> sy_tasks (lk_sys s) t = Some Crashed \<Longrightarrow>
    link_step L s (s\<lparr>lk_open := False\<rparr>)"
| hangs_up: "lk_open s \<Longrightarrow> link_step L s (s\<lparr>lk_open := False\<rparr>)"

text \<open>
  After the handshake the daemon, in whatever state it is, has written its hello, which the shim has read.
\<close>

definition link_start :: "('g, 's) libs \<Rightarrow> json \<Rightarrow> 's system \<Rightarrow> 's link" where
  "link_start L hello w =
     \<lparr>lk_queue = [], lk_waiting = None, lk_alive = True, lk_up = [], lk_down = [lib_render L hello @ [NL]], lk_read = 1,
      lk_open = True, lk_sys = w, lk_serving = None, lk_asked = [], lk_got = Map.empty, lk_sent = [], lk_taken = []\<rparr>"

abbreviation link_steps where "link_steps L \<equiv> (link_step L)\<^sup>*\<^sup>*"

section \<open>What the lines carry\<close>

text \<open>
  What both sides rely on of the JSON library: a message reads back as what was written, and its
  text is a line of its own, neither blank nor broken.
\<close>

definition json_faithful :: "('g, 's) libs \<Rightarrow> bool" where
  "json_faithful L \<longleftrightarrow>
     (\<forall>m. client_wf m \<longrightarrow> lib_parse L (lib_render L (enc_client m)) = Some (enc_client m)) \<and>
     (\<forall>m. server_wf m \<longrightarrow> lib_parse L (lib_render L (enc_server m)) = Some (enc_server m)) \<and>
     (\<forall>v. lib_render L v \<noteq> [] \<and> last (lib_render L v) \<noteq> CR \<and> \<not> trims_to_nothing (lib_render L v))"

lemma chomp_reply: "json_faithful L \<Longrightarrow> chomp (reply_line L a) = lib_render L (enc_server a)"
  by (auto simp: json_faithful_def chomp_def reply_line_def)

lemma read_sent:
  assumes "json_faithful L" and "client_wf m"
  shows "read_line L (line_of L m) = Some m"
  using assms by (simp add: json_faithful_def read_line_def line_of_def dec_enc_client del: enc_client.simps)

lemma verdict_read:
  assumes "json_faithful L"
  shows "verdict_in (lib_parse L) (chomp (reply_line L (SVerdict r))) = Some r"
  using assms dec_enc_server [of "SVerdict r"] chomp_reply [OF assms, of "SVerdict r"]
  by (simp add: json_faithful_def verdict_in_def del: enc_server.simps)

section \<open>The tasks of the daemon\<close>

text \<open>A call that has its answer keeps it, whatever happens afterwards, and a task keeps its request.\<close>

lemma done_stays:
  "sys_step L s s' \<Longrightarrow> sy_tasks s t = Some (Done q dec tool r) \<Longrightarrow> sy_tasks s' t = Some (Done q dec tool r)"
  by (induction rule: sys_step.induct) (auto simp: at_def)

fun request_in :: "phase \<Rightarrow> decide_request option" where
  "request_in (Received q) = Some q"
| "request_in (Judged q dec tool) = Some q"
| "request_in (Asking q dec tool) = Some q"
| "request_in (Opening q dec tool) = Some q"
| "request_in (Waiting i q dec tool) = Some q"
| "request_in (Answered a q dec tool) = Some q"
| "request_in (Abandoned i why q dec tool) = Some q"
| "request_in (Done q dec tool r) = Some q"
| "request_in Crashed = None"

definition works_on :: "'s system \<Rightarrow> nat \<Rightarrow> decide_request \<Rightarrow> bool" where
  "works_on s t q \<longleftrightarrow> (\<exists>ph. sy_tasks s t = Some ph \<and> (request_in ph = Some q \<or> ph = Crashed))"

lemma works_on_stays: "sys_step L s s' \<Longrightarrow> works_on s t q \<Longrightarrow> works_on s' t q"
  by (induction rule: sys_step.induct) (auto simp: at_def works_on_def)

text \<open>What the policy said of the call of a task, once it has been judged.\<close>

fun judgement_in :: "phase \<Rightarrow> (decide_request \<times> decision \<times> bytes option) option" where
  "judgement_in (Judged q dec tool) = Some (q, dec, tool)"
| "judgement_in (Asking q dec tool) = Some (q, dec, tool)"
| "judgement_in (Opening q dec tool) = Some (q, dec, tool)"
| "judgement_in (Waiting i q dec tool) = Some (q, dec, tool)"
| "judgement_in (Answered a q dec tool) = Some (q, dec, tool)"
| "judgement_in (Abandoned i why q dec tool) = Some (q, dec, tool)"
| "judgement_in (Done q dec tool r) = Some (q, dec, tool)"
| "judgement_in ph = None"

definition judges :: "('g, 's) libs \<Rightarrow> nat \<Rightarrow> decide_request \<times> decision \<times> bytes option \<Rightarrow> 's system \<Rightarrow> bool" where
  "judges L t j s \<longleftrightarrow> (case j of (q, dec, tool) \<Rightarrow> sy_tasks s t = Some (Received q) \<and>
     (\<exists>now timeout d. judge L now q (sy_daemon s) = (Returned (dec, tool, timeout), d)))"

lemma judged_or_judging:
  "sys_step L s s' \<Longrightarrow> sy_tasks s' t = Some ph' \<Longrightarrow> judgement_in ph' = Some j \<Longrightarrow>
   (\<exists>ph. sy_tasks s t = Some ph \<and> judgement_in ph = Some j) \<or> judges L t j s"
  by (induction rule: sys_step.induct, auto simp: at_def judges_def split: if_splits, blast)

text \<open>A step of the link is none of the daemon's, or one of the system's.\<close>

lemma link_moves_system:
  assumes "link_step L s s'"
  shows "lk_sys s' = lk_sys s \<or> sys_step L (lk_sys s) (lk_sys s')"
  using assms by (induction rule: link_step.induct) (auto intro: sys_step.intros)

lemma link_keeps:
  assumes "link_step L s s'"
  shows "works_on (lk_sys s) t q \<Longrightarrow> works_on (lk_sys s') t q"
    and "sy_tasks (lk_sys s) t = Some (Done q dec tool r) \<Longrightarrow> sy_tasks (lk_sys s') t = Some (Done q dec tool r)"
  using link_moves_system [OF assms] works_on_stays done_stays by metis+

section \<open>Both sides in step\<close>

text \<open>
  The lines on their way up are reports and the questions the shim wrote that the daemon has not taken yet, in order.
\<close>

definition questions_up :: "client_message list \<Rightarrow> decide_request list" where
  "questions_up ms = List.map_filter (\<lambda>m. case m of CDecide q \<Rightarrow> Some q | _ \<Rightarrow> None) ms"

definition sent_by_shim :: "client_message list \<Rightarrow> bool" where
  "sent_by_shim ms \<longleftrightarrow> (\<forall>m \<in> set ms. client_wf m \<and> (is_report m \<or> (\<exists>q. m = CDecide q)))"

inductive up_ok :: "('g, 's) libs \<Rightarrow> 's link \<Rightarrow> bool" for L :: "('g, 's) libs" where
  "lk_up s = map (line_of L) ms \<Longrightarrow> sent_by_shim ms \<Longrightarrow>
   questions_up ms = map ((!) (lk_asked s)) (drop (length (lk_taken s)) (lk_sent s)) \<Longrightarrow> up_ok L s"

text \<open>The calls are written once each; the rest wait in the queue with the request of their number.\<close>

definition calls_in :: "outgoing list \<Rightarrow> nat list" where
  "calls_in queue = List.map_filter (\<lambda>x. case x of Ask n q \<Rightarrow> Some n | Tell m \<Rightarrow> None) queue"

definition queue_ok :: "'s link \<Rightarrow> bool" where
  "queue_ok s \<longleftrightarrow> distinct (lk_sent s @ calls_in (lk_queue s)) \<and>
     (\<forall>n \<in> set (lk_sent s @ calls_in (lk_queue s)). n < length (lk_asked s)) \<and>
     (\<forall>x \<in> set (lk_queue s). case x of
        Ask n q \<Rightarrow> lk_asked s ! n = q \<and> client_wf (CDecide q) | Tell m \<Rightarrow> is_report m \<and> client_wf m)"

text \<open>The tasks the daemon has taken are as many calls, each at work on the question of its place.\<close>

definition taken_ok :: "'s link \<Rightarrow> bool" where
  "taken_ok s \<longleftrightarrow> length (lk_taken s) \<le> length (lk_sent s) \<and> distinct (lk_taken s) \<and>
     (\<forall>k < length (lk_taken s). works_on (lk_sys s) (lk_taken s ! k) (lk_asked s ! (lk_sent s ! k))) \<and>
     (lk_open s \<longrightarrow> (\<forall>t. lk_serving s = Some t \<longrightarrow> lk_taken s \<noteq> [] \<and> t = last (lk_taken s)))"

definition decided :: "'s link \<Rightarrow> nat \<Rightarrow> decide_response \<Rightarrow> bool" where
  "decided s k r \<longleftrightarrow> k < length (lk_taken s) \<and>
     (\<exists>dec tool. sy_tasks (lk_sys s) (lk_taken s ! k) = Some (Done (lk_asked s ! (lk_sent s ! k)) dec tool r))"

text \<open>
  While the thread lives, at most one question is open, and it is that of the call it waits for: still on its way up,
  being decided, answered by the only line on its way down, or never to be.
\<close>

definition awaited :: "('g, 's) libs \<Rightarrow> 's link \<Rightarrow> bool" where
  "awaited L s \<longleftrightarrow>
     (case lk_waiting s of
        None \<Rightarrow> length (lk_taken s) = length (lk_sent s) \<and> unread s = [] \<and> (lk_open s \<longrightarrow> lk_serving s = None)
      | Some n \<Rightarrow> lk_sent s \<noteq> [] \<and> last (lk_sent s) = n \<and>
          (Suc (length (lk_taken s)) = length (lk_sent s) \<and> unread s = [] \<and> (lk_open s \<longrightarrow> lk_serving s = None) \<or>
           length (lk_taken s) = length (lk_sent s) \<and>
             (unread s = [] \<and> (lk_open s \<longrightarrow> lk_serving s \<noteq> None) \<or>
              (\<exists>r. unread s = [reply_line L (SVerdict r)] \<and> decided s (length (lk_taken s) - 1) r) \<and>
                (lk_open s \<longrightarrow> lk_serving s = None))))"

definition got_ok :: "'s link \<Rightarrow> bool" where
  "got_ok s \<longleftrightarrow> (\<forall>n r. lk_got s n = Some (Some r) \<longrightarrow> (\<exists>k. decided s k r \<and> lk_sent s ! k = n))"

definition in_step :: "('g, 's) libs \<Rightarrow> 's link \<Rightarrow> bool" where
  "in_step L s \<longleftrightarrow> lk_read s \<le> length (lk_down s) \<and> up_ok L s \<and> queue_ok s \<and> taken_ok s \<and> got_ok s \<and>
     (lk_alive s \<longrightarrow> awaited L s)"

lemma questions_up_simps [simp]:
  "questions_up [] = []" "questions_up (CDecide q # ms) = q # questions_up ms"
  "is_report m \<Longrightarrow> questions_up (m # ms) = questions_up ms"
  "questions_up (ms @ ms') = questions_up ms @ questions_up ms'"
  by (cases m; simp add: questions_up_def map_filter_Cons map_filter_append)+

lemma calls_in_simps [simp]:
  "calls_in [] = []" "calls_in (Ask n q # rest) = n # calls_in rest" "calls_in (Tell m # rest) = calls_in rest"
  "calls_in (xs @ ys) = calls_in xs @ calls_in ys"
  by (simp_all add: calls_in_def map_filter_Cons map_filter_append)

lemma sent_by_shim_simps [simp]:
  "sent_by_shim []" "sent_by_shim (m # ms) \<longleftrightarrow> client_wf m \<and> (is_report m \<or> (\<exists>q. m = CDecide q)) \<and> sent_by_shim ms"
  "sent_by_shim (ms @ ms') \<longleftrightarrow> sent_by_shim ms \<and> sent_by_shim ms'"
  by (auto simp: sent_by_shim_def)

lemma calls_in_mem: "Ask n q \<in> set xs \<Longrightarrow> n \<in> set (calls_in xs)"
  by (force simp: calls_in_def List.map_filter_def)

lemma histories_grow:
  "link_step L s s' \<Longrightarrow>
   (\<exists>qs. lk_asked s' = lk_asked s @ qs) \<and> (\<exists>ns. lk_sent s' = lk_sent s @ ns) \<and> (\<exists>ts. lk_taken s' = lk_taken s @ ts)"
  by (induction rule: link_step.induct) auto

lemma same_question:
  assumes "link_step L s s'" and "queue_ok s" and "k < length (lk_sent s)"
  shows "lk_asked s' ! (lk_sent s' ! k) = lk_asked s ! (lk_sent s ! k)" and "lk_sent s' ! k = lk_sent s ! k"
proof -
  have "lk_sent s ! k < length (lk_asked s)" using assms(2,3) by (auto simp: queue_ok_def)
  then show "lk_asked s' ! (lk_sent s' ! k) = lk_asked s ! (lk_sent s ! k)" "lk_sent s' ! k = lk_sent s ! k"
    using histories_grow [OF assms(1)] assms(3) by (auto simp: nth_append)
qed

lemma same_task:
  assumes "link_step L s s'" and "k < length (lk_taken s)"
  shows "lk_taken s' ! k = lk_taken s ! k" and "k < length (lk_taken s')"
  using histories_grow [OF assms(1)] assms(2) by (auto simp: nth_append)

lemma decided_stays:
  assumes "link_step L s s'" and "queue_ok s" and "taken_ok s" and "decided s k r"
  shows "decided s' k r"
proof -
  have k: "k < length (lk_taken s)" "k < length (lk_sent s)"
    using assms(3,4) by (auto simp: decided_def taken_ok_def)
  then show ?thesis
    using assms(4) same_question [OF assms(1,2) k(2)] same_task [OF assms(1) k(1)] link_keeps(2) [OF assms(1)]
    by (auto simp: decided_def)
qed

lemma read_step:
  assumes "link_step L s s'" and "lk_read s \<le> length (lk_down s)"
  shows "lk_read s' \<le> length (lk_down s')"
  using assms by (induction rule: link_step.induct) (auto simp: unread_def Suc_le_eq intro: ccontr)

lemma queue_step:
  assumes "link_step L s s'" and "queue_ok s"
  shows "queue_ok s'"
  using assms
proof (induction rule: link_step.induct)
  case (asks s q)
  have "lk_asked s ! n = x" if "Ask n x \<in> set (lk_queue s)" for n x
    using asks(3) that by (fastforce simp: queue_ok_def)
  moreover have "n < length (lk_asked s)" if "Ask n x \<in> set (lk_queue s)" for n x
    using asks(3) calls_in_mem [OF that] by (simp add: queue_ok_def)
  ultimately show ?case
    using asks by (fastforce simp: queue_ok_def nth_append less_Suc_eq split: outgoing.splits)
qed (auto simp: queue_ok_def split: outgoing.splits)

text \<open>What stands first on the way up is a report, or the question after the last one taken.\<close>

lemma first_up:
  assumes "json_faithful L" and "up_ok L s" and "lk_up s = l # rest"
  obtains m ms where "read_line L l = Some m" "rest = map (line_of L) ms" "sent_by_shim ms"
    "questions_up (m # ms) = map ((!) (lk_asked s)) (drop (length (lk_taken s)) (lk_sent s))"
    "is_report m \<or> (\<exists>q. m = CDecide q)"
  using assms(2)
proof cases
  case (1 ms)
  then show thesis using that read_sent [OF assms(1)] assms(3) by (cases ms) auto
qed

lemma next_question:
  assumes "q # qs = map f (drop n xs)"
  shows "n < length xs \<and> q = f (xs ! n) \<and> qs = map f (drop (Suc n) xs)"
proof -
  have "n < length xs" using assms by (cases "n < length xs") auto
  then show ?thesis using assms by (simp add: Cons_nth_drop_Suc [symmetric])
qed

lemma up_quiet:
  assumes "up_ok L s" and "lk_up s' = lk_up s" and "lk_taken s' = lk_taken s" and "lk_sent s' = lk_sent s"
    and "lk_asked s' = lk_asked s"
  shows "up_ok L s'"
  using assms by (auto elim!: up_ok.cases intro: up_ok.intros)

lemma up_step:
  assumes "link_step L s s'" and "json_faithful L" and "up_ok L s" and "queue_ok s" and "taken_ok s"
  shows "up_ok L s'"
  using assms
proof (induction rule: link_step.induct)
  case (asks s q)
  from asks(4) show ?case
  proof cases
    case (1 ms)
    moreover have "n < length (lk_asked s)" if "n \<in> set (drop (length (lk_taken s)) (lk_sent s))" for n
      using asks(5) in_set_dropD [OF that] by (simp add: queue_ok_def)
    ultimately show ?thesis by (intro up_ok.intros [where ms = ms]) (auto simp: nth_append)
  qed
next
  case (writes_question s n q rest)
  from writes_question(6) show ?case
  proof cases
    case (1 ms)
    then show ?thesis
      using writes_question(3,7,8)
      by (intro up_ok.intros [where ms = "ms @ [CDecide q]"]) (auto simp: queue_ok_def taken_ok_def)
  qed
next
  case (writes_report s m rest)
  from writes_report(5) show ?case
  proof cases
    case (1 ms)
    then show ?thesis
      using writes_report(3,6) by (intro up_ok.intros [where ms = "ms @ [m]"]) (auto simp: queue_ok_def)
  qed
next
  case (skips s l rest)
  show ?case using first_up [OF skips(5,6,3)] skips(4) by simp
next
  case (takes_question s l rest q t)
  obtain m ms where "read_line L l = Some m" "rest = map (line_of L) ms" "sent_by_shim ms"
    "questions_up (m # ms) = map ((!) (lk_asked s)) (drop (length (lk_taken s)) (lk_sent s))"
    using first_up [OF takes_question(6,7,3)] by metis
  moreover from this have "q # questions_up ms = map ((!) (lk_asked s)) (drop (length (lk_taken s)) (lk_sent s))"
    using takes_question(4) by (metis questions_up_simps(2) option.inject)
  moreover from next_question [OF this]
  have "questions_up ms = map ((!) (lk_asked s)) (drop (Suc (length (lk_taken s))) (lk_sent s))" by blast
  ultimately show ?case by (intro up_ok.intros [where ms = ms]) simp_all
next
  case (takes_read s l rest r now)
  obtain m ms where "read_line L l = Some m" "rest = map (line_of L) ms" "sent_by_shim ms"
    "questions_up (m # ms) = map ((!) (lk_asked s)) (drop (length (lk_taken s)) (lk_sent s))"
    using first_up [OF takes_read(5,6,3)] by metis
  then show ?case using takes_read(4) by (intro up_ok.intros [where ms = ms]) auto
next
  case (takes_tools s l rest r io_ok ms')
  obtain m ms where "read_line L l = Some m" "rest = map (line_of L) ms" "sent_by_shim ms"
    "questions_up (m # ms) = map ((!) (lk_asked s)) (drop (length (lk_taken s)) (lk_sent s))"
    using first_up [OF takes_tools(5,6,3)] by metis
  then show ?case using takes_tools(4) by (intro up_ok.intros [where ms = ms]) auto
qed (erule up_quiet; simp)+

text \<open>The question the daemon takes is that of the next call written, and the task that decides it is new.\<close>

lemma question_taken:
  assumes "json_faithful L" and "up_ok L s" and "lk_up s = l # rest" and "read_line L l = Some (CDecide q)"
  shows "length (lk_taken s) < length (lk_sent s) \<and> lk_asked s ! (lk_sent s ! length (lk_taken s)) = q"
proof -
  obtain m ms where "read_line L l = Some m"
    "questions_up (m # ms) = map ((!) (lk_asked s)) (drop (length (lk_taken s)) (lk_sent s))"
    using first_up [OF assms(1-3)] by metis
  then have "q # questions_up ms = map ((!) (lk_asked s)) (drop (length (lk_taken s)) (lk_sent s))"
    using assms(4) by (metis questions_up_simps(2) option.inject)
  from next_question [OF this] show ?thesis by simp
qed

lemma task_taken:
  assumes "taken_ok s" and "sy_tasks (lk_sys s) t = None"
  shows "t \<notin> set (lk_taken s)"
  using assms by (auto simp: taken_ok_def in_set_conv_nth works_on_def)

lemma taken_step:
  assumes "link_step L s s'" and "json_faithful L" and "up_ok L s" and "queue_ok s" and "taken_ok s"
  shows "taken_ok s'"
proof -
  have old: "works_on (lk_sys s') (lk_taken s' ! k) (lk_asked s' ! (lk_sent s' ! k))" if k: "k < length (lk_taken s)" for k
    using assms(5) link_keeps(1) [OF assms(1)] same_question [OF assms(1,4)] same_task [OF assms(1) k] k
    by (simp add: taken_ok_def)
  show ?thesis
    using assms(1)
  proof cases
    case (takes_question l rest q t)
    have n: "length (lk_taken s) < length (lk_sent s)" "lk_asked s ! (lk_sent s ! length (lk_taken s)) = q"
      using question_taken [OF assms(2,3)] takes_question by auto
    moreover have "t \<notin> set (lk_taken s)" using task_taken [OF assms(5)] takes_question by blast
    moreover have "works_on (lk_sys s') t q" using takes_question(1) by (simp add: works_on_def at_def)
    ultimately show ?thesis
      using assms(5) old takes_question(1) by (auto simp: taken_ok_def less_Suc_eq nth_append)
  qed (use assms(5) old in \<open>auto simp: taken_ok_def\<close>)
qed

lemma got_step:
  assumes "link_step L s s'" and "json_faithful L" and "queue_ok s" and "taken_ok s" and "got_ok s"
    and "lk_alive s \<Longrightarrow> awaited L s"
  shows "got_ok s'"
proof -
  have old: "\<exists>k. decided s' k r \<and> lk_sent s' ! k = n" if g: "lk_got s n = Some (Some r)" for n r
  proof -
    obtain k where k: "decided s k r" "lk_sent s ! k = n" using g assms(5) by (auto simp: got_ok_def)
    then have "k < length (lk_sent s)" using assms(4) by (auto simp: decided_def taken_ok_def)
    then show ?thesis
      using decided_stays [OF assms(1,3,4) k(1)] same_question(2) [OF assms(1,3)] k(2) by auto
  qed
  show ?thesis
    using assms(1)
  proof cases
    case (reads n l rest)
    then have a: "awaited L s" using assms(6) by simp
    then obtain r where r: "l = reply_line L (SVerdict r)" "decided s (length (lk_taken s) - 1) r"
      "lk_sent s \<noteq> []" "last (lk_sent s) = n" "length (lk_taken s) = length (lk_sent s)"
      using reads by (auto simp: awaited_def)
    then have "lk_sent s ! (length (lk_taken s) - 1) = n" by (simp add: last_conv_nth)
    moreover have "verdict_in (lib_parse L) (chomp l) = Some r" using verdict_read [OF assms(2)] r(1) by simp
    moreover have "decided s' (length (lk_taken s) - 1) r" using decided_stays [OF assms(1,3,4) r(2)] .
    ultimately show ?thesis using reads(1) old by (auto simp: got_ok_def)
  qed (use old in \<open>auto simp: got_ok_def split: if_splits\<close>)
qed

lemma waits_for_none:
  assumes "awaited L s" and "lk_waiting s = None"
  shows "length (lk_taken s) = length (lk_sent s)" "unread s = []" "lk_open s \<Longrightarrow> lk_serving s = None"
  using assms by (simp_all add: awaited_def)

lemma awaited_taken:
  assumes "awaited L s" and "lk_open s" and "lk_serving s = None" and "length (lk_taken s) < length (lk_sent s)"
  shows "awaited L (s\<lparr>lk_up := up, lk_sys := w, lk_serving := Some t, lk_taken := lk_taken s @ [t]\<rparr>)"
  using assms by (auto simp: awaited_def unread_def split: option.splits)

lemma awaited_replied:
  assumes "awaited L s" and "lk_open s" and "lk_serving s = Some t" and "taken_ok s"
    and "sy_tasks (lk_sys s) t = Some (Done q dec tool r)" and "lk_read s \<le> length (lk_down s)"
  shows "awaited L (s\<lparr>lk_down := lk_down s @ [reply_line L (SVerdict r)], lk_serving := None\<rparr>)"
proof -
  obtain n where n: "lk_waiting s = Some n" "lk_sent s \<noteq> []" "last (lk_sent s) = n"
    "length (lk_taken s) = length (lk_sent s)" "unread s = []"
    using assms(1-3) by (auto simp: awaited_def split: option.splits)
  moreover have "works_on (lk_sys s) t (lk_asked s ! (lk_sent s ! (length (lk_taken s) - 1)))"
    "lk_taken s ! (length (lk_taken s) - 1) = t" "lk_taken s \<noteq> []"
    using assms(2-4) by (auto simp: taken_ok_def last_conv_nth)
  ultimately show ?thesis using assms(5,6) by (auto simp: awaited_def decided_def unread_def works_on_def)
qed

lemma awaited_step:
  assumes "link_step L s s'" and "json_faithful L" and "lk_read s \<le> length (lk_down s)" and "up_ok L s"
    and "queue_ok s" and "taken_ok s" and "lk_alive s \<Longrightarrow> awaited L s" and "lk_alive s'"
  shows "awaited L s'"
proof -
  have old: "decided s' k r" if "decided s k r" for k r using decided_stays [OF assms(1,5,6) that] .
  show ?thesis
    using assms(1)
  proof cases
    case (reads n l rest)
    then have "awaited L s" using assms(7) by simp
    then show ?thesis
      using reads by (auto simp: awaited_def unread_def drop_Suc tl_drop [symmetric])
  next
    case (takes_question l rest q t)
    then show ?thesis
      using awaited_taken [OF _ takes_question(2,3)] question_taken [OF assms(2,4)] assms(7,8) by simp
  next
    case (replies t q dec tool r)
    then show ?thesis using awaited_replied [OF _ replies(2,3) assms(6) replies(4) assms(3)] assms(7,8) by simp
  next
    case (world w)
    then have a: "awaited L s" using assms(7,8) by simp
    show ?thesis using a old world(1) by (auto simp: awaited_def unread_def split: option.splits)
  qed (use assms(7,8) old in \<open>auto simp: awaited_def unread_def split: option.splits\<close>)
qed

lemma in_step_step: "link_step L s s' \<Longrightarrow> json_faithful L \<Longrightarrow> in_step L s \<Longrightarrow> in_step L s'"
  using read_step [of L s s'] up_step [of L s s'] queue_step [of L s s'] taken_step [of L s s'] got_step [of L s s']
    awaited_step [of L s s']
  by (auto simp: in_step_def)

lemma in_step_start: "in_step L (link_start L hello w)"
  by (auto simp: in_step_def link_start_def queue_ok_def taken_ok_def got_ok_def awaited_def unread_def
      intro: up_ok.intros [where ms = "[]"])

lemma in_step_run: "link_steps L (link_start L hello w) s \<Longrightarrow> json_faithful L \<Longrightarrow> in_step L s"
  by (induction rule: rtranclp_induct) (auto intro: in_step_step in_step_start)

section \<open>What lies behind a verdict\<close>

lemma system_runs:
  "link_steps L (link_start L hello w) s \<Longrightarrow> reachable L d w \<Longrightarrow> reachable L d (lk_sys s)"
proof (induction rule: rtranclp_induct)
  case base
  then show ?case by (simp add: link_start_def)
next
  case (step s s')
  then show ?case using link_moves_system [OF step(2)] by (auto intro: reachable.step)
qed

text \<open>A call that has been judged on this connection was judged on the way, in the state the daemon had then.\<close>

definition judged_before :: "('g, 's) libs \<Rightarrow> 's link \<Rightarrow> nat \<Rightarrow> decide_request \<times> decision \<times> bytes option \<Rightarrow> 's link \<Rightarrow> bool" where
  "judged_before L s0 t j s \<longleftrightarrow> (\<exists>s1. link_steps L s0 s1 \<and> link_steps L s1 s \<and> judges L t j (lk_sys s1))"

lemma judged_before_step: "judged_before L s0 t j s \<Longrightarrow> link_step L s s' \<Longrightarrow> judged_before L s0 t j s'"
  unfolding judged_before_def by (meson rtranclp.rtrancl_into_rtrancl)

lemma judged_on_the_way:
  "link_steps L (link_start L hello w) s \<Longrightarrow> sy_tasks (lk_sys s) t = Some ph \<Longrightarrow> judgement_in ph = Some j \<Longrightarrow>
   sy_tasks w t = None \<Longrightarrow> judged_before L (link_start L hello w) t j s"
proof (induction arbitrary: ph rule: rtranclp_induct)
  case base
  then show ?case by (simp add: link_start_def)
next
  case (step s s')
  have "lk_sys s' = lk_sys s \<or> sys_step L (lk_sys s) (lk_sys s')" by (rule link_moves_system [OF step(2)])
  then have "(\<exists>ph. sy_tasks (lk_sys s) t = Some ph \<and> judgement_in ph = Some j) \<or> judges L t j (lk_sys s)"
    using judged_or_judging [of L "lk_sys s" "lk_sys s'"] step(4,5) by metis
  then show ?case
  proof
    assume "judges L t j (lk_sys s)"
    then show ?thesis using step(1,2) unfolding judged_before_def by (meson r_into_rtranclp)
  qed (use step judged_before_step in blast)
qed

text \<open>The tasks of this connection did not exist when it began.\<close>

lemma none_before: "sys_step L s s' \<Longrightarrow> sy_tasks s' t = None \<Longrightarrow> sy_tasks s t = None"
  by (induction rule: sys_step.induct) (auto simp: at_def split: if_splits)

lemma taken_is_new:
  "link_steps L (link_start L hello w) s \<Longrightarrow>
   (sy_tasks (lk_sys s) t = None \<or> t \<in> set (lk_taken s) \<longrightarrow> sy_tasks w t = None)"
proof (induction rule: rtranclp_induct)
  case base
  then show ?case by (simp add: link_start_def)
next
  case (step s s')
  from step(2,3) show ?case
    by (induction rule: link_step.induct) (auto dest: none_before simp: at_def split: if_splits)
qed

text \<open>
  C5: Each verdict is the answer to its own question: the tasks of one connection share the daemon with the calls of all
  others, the interfaces and the user, and no message carries a number; but however the steps interleave, from any
  state that the daemon can be in when the connection begins, the verdict a call of the shim gets is the one that one
  task of this daemon has reached on exactly the request of this call.  That task is the one of the question's
  place: the \<open>k\<close>th question written is the \<open>k\<close>th the daemon took, and no two calls share a place or a task.  Its
  decision is what the policy said, in the state in which the daemon was at a moment of this very run, of this very
  request; and if it lets the call through, then the policy said allow, or it said ask and the user was heard to allow
  this request, or the user was heard to allow an earlier call of this tool in this scope for longer than once.
\<close>

theorem verdict_is_for_this_call:
  assumes "json_faithful L" and "reachable L d w" and "link_steps L (link_start L hello w) s"
    and "lk_got s n = Some (Some r)"
  shows "distinct (lk_sent s) \<and> distinct (lk_taken s) \<and> n < length (lk_asked s) \<and>
    (\<exists>k dec tool s1 now timeout d1. k < length (lk_taken s) \<and> k < length (lk_sent s) \<and> lk_sent s ! k = n \<and>
       sy_tasks (lk_sys s) (lk_taken s ! k) = Some (Done (lk_asked s ! n) dec tool r) \<and>
       link_steps L (link_start L hello w) s1 \<and> link_steps L s1 s \<and>
       sy_tasks (lk_sys s1) (lk_taken s ! k) = Some (Received (lk_asked s ! n)) \<and>
       judge L now (lk_asked s ! n) (sy_daemon (lk_sys s1)) = (Returned (dec, tool, timeout), d1) \<and>
       (verdict_of r = Allow \<longrightarrow>
          d_action dec = AAllow \<or>
          (\<exists>a q'. (a, q', tool) \<in> set (sy_heard (lk_sys s)) \<and> an_allow a \<and>
             (q' = lk_asked s ! n \<and> d_action dec = AAsk \<or>
              dq_scope_key q' = dq_scope_key (lk_asked s ! n) \<and> an_until a \<noteq> UOnce))))"
proof -
  have ok: "queue_ok s" "taken_ok s" "got_ok s" using in_step_run [OF assms(3,1)] by (simp_all add: in_step_def)
  then obtain k where k: "decided s k r" "lk_sent s ! k = n" using assms(4) by (auto simp: got_ok_def)
  then obtain dec tool where d: "k < length (lk_taken s)"
    "sy_tasks (lk_sys s) (lk_taken s ! k) = Some (Done (lk_asked s ! n) dec tool r)"
    by (auto simp: decided_def)
  have "sy_tasks w (lk_taken s ! k) = None" using taken_is_new [OF assms(3)] d(1) by auto
  then have "judged_before L (link_start L hello w) (lk_taken s ! k) (lk_asked s ! n, dec, tool) s"
    by (intro judged_on_the_way [OF assms(3) d(2)]) simp_all
  then obtain s1 now timeout d1 where j: "link_steps L (link_start L hello w) s1" "link_steps L s1 s"
    "sy_tasks (lk_sys s1) (lk_taken s ! k) = Some (Received (lk_asked s ! n))"
    "judge L now (lk_asked s ! n) (sy_daemon (lk_sys s1)) = (Returned (dec, tool, timeout), d1)"
    by (auto simp: judged_before_def judges_def)
  have snd: "sound (lk_sys s)" by (rule reachable_sound [OF system_runs [OF assms(3,2)]])
  have c: "cause (lk_sys s) (lk_asked s ! n) dec tool" if "verdict_of r = Allow"
    using phase_here [OF d(2) snd] that by (simp add: verdict_of_def split: ipc_outcome.splits)
  have "k < length (lk_sent s)" "n < length (lk_asked s)" "distinct (lk_sent s)" "distinct (lk_taken s)"
    using ok d(1) k(2) by (auto simp: queue_ok_def taken_ok_def)
  then show ?thesis using d k(2) j cause_heard [OF snd c] by blast
qed

text \<open>A JSON library that is faithful: texts are numbers in unary, one for each value.\<close>

instance json :: countable
  by countable_datatype

definition unary_libs :: "(bytes, bytes list) libs" where
  "unary_libs = plain_libs\<lparr>lib_render := (\<lambda>v. replicate (Suc (to_nat v)) (CHR ''x'')),
     lib_parse := (\<lambda>s. if s \<noteq> [] \<and> list_all (\<lambda>c. c = CHR ''x'') s then Some (from_nat (length s - 1)) else None)\<rparr>"

lemma unary_faithful: "json_faithful unary_libs"
proof -
  have "utf8_chars (replicate (Suc n) (CHR ''x'')) = replicate (Suc n) [CHR ''x'']" for n
    by (subst utf8_chars_ascii) (simp_all add: list_all_iff byte_def)
  then have "\<not> trims_to_nothing (replicate (Suc n) (CHR ''x''))" for n
    by (simp add: trims_to_nothing_def ws_chars_def)
  then show ?thesis
    by (simp add: json_faithful_def unary_libs_def list_all_iff del: replicate.simps enc_client.simps enc_server.simps)
qed

lemma unary_judges:
  "judge unary_libs 0 plain_call (plain_daemon policy_file_default) =
     (Returned (\<lparr>d_action = AAllow, d_rule = None, d_severity = Info, d_message = ''default policy'',
        d_findings = []\<rparr>, None, 60), plain_daemon policy_file_default)"
  by (simp add: judge_def plain_daemon_def daemon_new_def compile_policy_def reload_if_changed_def Let_def
      plain_call_def unary_libs_def plain_libs_def engine_request_def request_from_frame_def evaluate_def
      policy_file_default_def collect_findings_def store_is_empty_def store_len_def taint_new_def default_ask_timeout_def)

theorem verdict_is_for_this_call_witness:
  "\<exists>s r. link_steps unary_libs (link_start unary_libs JNull (fresh_system (plain_daemon policy_file_default))) s \<and>
     lk_got s 0 = Some (Some r) \<and> verdict_of r = Allow \<and>
     (\<exists>t dec tool. sy_tasks (lk_sys s) t = Some (Done plain_call dec tool r))"
proof -
  let ?L = unary_libs and ?d = "plain_daemon policy_file_default"
  let ?w = "fresh_system ?d"
  let ?dec = "\<lparr>d_action = AAllow, d_rule = None, d_severity = Info, d_message = ''default policy'', d_findings = []\<rparr>"
  let ?r = "respond OAllow None ''default policy'' (allows_forever (request_scope plain_call))"
  let ?s0 = "link_start ?L JNull ?w"
  let ?s1 = "?s0\<lparr>lk_queue := lk_queue ?s0 @ [Ask (length (lk_asked ?s0)) plain_call], lk_asked := lk_asked ?s0 @ [plain_call]\<rparr>"
  let ?s2 = "?s1\<lparr>lk_queue := [], lk_up := lk_up ?s1 @ [line_of ?L (CDecide plain_call)], lk_waiting := Some 0,
      lk_sent := lk_sent ?s1 @ [0]\<rparr>"
  let ?s3 = "?s2\<lparr>lk_up := [], lk_sys := at 1 (Received plain_call) (sy_daemon (lk_sys ?s2)) (lk_sys ?s2), lk_serving := Some 1,
      lk_taken := lk_taken ?s2 @ [1]\<rparr>"
  let ?s4 = "?s3\<lparr>lk_sys := at 1 (Judged plain_call ?dec None) ?d (lk_sys ?s3)\<rparr>"
  let ?s5 = "?s4\<lparr>lk_sys := at 1 (Done plain_call ?dec None ?r) (sy_daemon (lk_sys ?s4)) (lk_sys ?s4)\<rparr>"
  let ?l = "reply_line ?L (SVerdict ?r)"
  let ?s6 = "?s5\<lparr>lk_down := lk_down ?s5 @ [?l], lk_serving := None\<rparr>"
  let ?s7 = "?s6\<lparr>lk_got := (lk_got ?s6)(0 \<mapsto> verdict_in (lib_parse ?L) (chomp ?l)), lk_waiting := None,
      lk_read := lk_read ?s6 + 1, lk_alive := (verdict_in (lib_parse ?L) (chomp ?l) \<noteq> None)\<rparr>"
  have d: "sy_daemon ?w = ?d" by (simp add: fresh_system_def plain_daemon_def daemon_new_def)
  have wf: "client_wf (CDecide plain_call)" by (simp add: plain_call_def is_i64_def)
  then have 1: "link_step ?L ?s0 ?s1" by (intro asks) (simp_all add: link_start_def)
  have 2: "link_step ?L ?s1 ?s2"
    by (rule writes_question) (auto simp: link_start_def sendable_def plain_call_def byte_def intro!: utf8_valid_ascii)
  have 3: "link_step ?L ?s2 ?s3"
    by (rule takes_question [OF _ _ _ read_sent [OF unary_faithful wf]]) (simp_all add: link_start_def fresh_system_def)
  have 4: "link_step ?L ?s3 ?s4"
    by (rule world, rule judged [where now = 0]) (simp_all add: link_start_def d unary_judges)
  have 5: "link_step ?L ?s4 ?s5"
    by (rule world, rule settles)
      (simp_all add: settle_def matching_override_def plain_daemon_def daemon_new_def Let_def)
  have 6: "link_step ?L ?s5 ?s6" by (rule replies [where t = 1 and q = plain_call and dec = ?dec and tool = None]) (simp_all add: link_start_def at_def)
  have 7: "link_step ?L ?s6 ?s7" by (rule reads) (simp_all add: link_start_def unread_def)
  have "link_steps ?L ?s0 ?s4" using 1 2 3 4 by (meson converse_rtranclp_into_rtranclp rtranclp.rtrancl_refl)
  then have run: "link_steps ?L ?s0 ?s7" using 5 6 7 by (meson rtranclp.rtrancl_into_rtrancl)
  have got: "lk_got ?s7 0 = Some (Some ?r)" using verdict_read [OF unary_faithful] by simp
  have v: "verdict_of ?r = Allow" by (simp add: verdict_of_def respond_def)
  have q: "lk_asked ?s7 ! 0 = plain_call" by (simp add: link_start_def)
  have "\<exists>t dec tool. sy_tasks (lk_sys ?s7) t = Some (Done plain_call dec tool ?r)"
    using verdict_is_for_this_call [OF unary_faithful reachable.start run got] unfolding q by blast
  then show ?thesis using run got v by blast
qed

end
