(* ===== verification/Exfiltration.thy ===== *)
theory Exfiltration
  imports Client Daemon_System
begin

text \<open>
  From a report of what was read to the refusal of the call that carries it away: the lemmas that join
  \<open>ipc/client.rs\<close>, the taint store and the shipped policy.
\<close>

section \<open>What a report leaves in the daemon\<close>

text \<open>The fingerprint a taint report carries, and the reports that are recorded.\<close>

definition fp_in :: "taint_report \<Rightarrow> fingerprint" where
  "fp_in r = \<lparr>ngrams = map word_of_nat (tn_ngrams r), tokens = map word_of_nat (tn_tokens r)\<rparr>"

definition recorded :: "(nat \<times> taint_report) list \<Rightarrow> report list" where
  "recorded rs = map (\<lambda>(t, r). (fp_in r, tn_origin r, t)) (filter (\<lambda>(t, r). \<not> fp_is_empty (fp_in r)) rs)"

lemma take_taint_record:
  "dm_taint (take_taint t r d) =
     (if fp_is_empty (fp_in r) then dm_taint d else taint_record (fp_in r) (tn_origin r) t (dm_taint d))"
  by (simp add: take_taint_def fp_in_def Let_def)

lemma taint_after:
  "dm_taint (fold (\<lambda>(t, r). take_taint t r) rs d) =
     fold (\<lambda>(fp, l, t). taint_record fp l t) (recorded rs) (dm_taint d)"
  by (induction rs arbitrary: d) (auto simp: recorded_def take_taint_record)

lemma recorded_at:
  "recorded (bef @ (t, r) # later) =
     recorded bef @ (if fp_is_empty (fp_in r) then [] else [(fp_in r, tn_origin r, t)]) @ recorded later"
  by (simp add: recorded_def)

lemma words_back [simp]: "map (word_of_nat \<circ> unat) (ws :: u64 list) = ws"
  by (simp add: map_idI)

lemma reported_fingerprint:
  assumes "cl_sent (report_taint origin text c) = cl_sent c @ [CTaint rep]"
  shows "fp_in rep = capped (fingerprint_of text)" and "tn_origin rep = origin" and "\<not> fp_is_empty (fp_in rep)"
  using assms by (auto simp: report_taint_def send_only_def taint_message_def fp_in_def fp_is_empty_def Let_def
      split: if_splits)

lemma engine_request_policy [simp]: "engine_request L (d\<lparr>dm_policy := p\<rparr>) now q = engine_request L d now q"
  by (simp add: engine_request_def drifted_tools_def Let_def cong: option.case_cong if_cong)

lemma engine_request_tainted:
  assumes "fresh_hit now (ts_tokens (dm_taint d)) (fnv1a tok) = Some o'"
    and "tok \<in> set (candidate_tokens (join_with '' '' (rq_values (engine_request L d now q))))"
    and "MIN_TOKEN_LEN \<le> length tok"
  shows "\<exists>l. rq_tainted (engine_request L d now q) = Some l"
proof -
  let ?vs = "rq_values (engine_request L d now q)"
  have "fnv1a tok \<in> set (tokens (fingerprint_of (join_with '' '' ?vs)))"
    using assms(2,3) by (simp add: tokens_fingerprint)
  then obtain m where "overlap (dm_taint d) (fingerprint_of (join_with '' '' ?vs)) now = Some m"
    using overlap_token [OF _ assms(1)] by blast
  moreover have "\<not> store_is_empty (dm_taint d)"
    using assms(1) by (auto simp: store_is_empty_def store_len_def fresh_hit_def)
  ultimately show ?thesis by (simp add: engine_request_def Let_def)
qed

lemma judged_exfiltration:
  assumes "snd (reload_if_changed (lib_globs L) (lib_home L) (lib_yaml L) (dm_disk d) (dm_policy d)) =
      compile_policy (lib_globs L) (lib_home L) default_policy path mtime"
    and "rq = engine_request L d now q"
    and "collect_findings rq = Returned fs" and "build_globs (lib_globs L) (lib_home L) SECRET_PATHS = Some sp"
    and "build_globs (lib_globs L) (lib_home L) (pf_outbound default_policy) = Some ob"
    and "rq_tainted rq = Some l" and "rq_tool rq = Some t" and "set_match (lib_globs L) ob (to_ascii_lowercase t)"
    and "\<forall>x \<in> set (rq_paths rq). \<not> set_match (lib_globs L) sp x" and "\<forall>k x. Secret k x \<notin> set fs"
    and "\<not> has_path_outside_scope rq"
    and "matching_override (dq_scope_key q) (Some t) d = None"
  shows "\<exists>dec tmo d' r. judge L now q d = (Returned (dec, Some t, tmo), d') \<and> settle q dec (Some t) d' = Some r \<and>
    verdict_of r = Deny ''taint_exfil'' (agent_message dec)"
proof -
  let ?dec = "\<lparr>d_action = ADeny, d_rule = Some ''taint_exfil'', d_severity = Critical,
      d_message = ''tainted local data in an outbound argument'', d_findings = fs\<rparr>"
  have ev: "evaluate (lib_globs L) (compile_policy (lib_globs L) (lib_home L) default_policy path mtime) rq = Returned ?dec"
    using exfiltration_denied [OF assms(3-11)] .
  obtain tmo d' where j: "judge L now q d = (Returned (?dec, Some t, tmo), d')"
    using ev assms(1,2,7) by (simp add: judge_def Let_def)
  then have "matching_override (dq_scope_key q) (Some t) d' = None"
    using assms(12) overrides_judge [OF j] by (simp add: matching_override_def)
  then show ?thesis using j by (auto simp: settle_def respond_def verdict_of_def Let_def)
qed

section \<open>A call that carries what was read\<close>

text \<open>What the frame of a call says, before the daemon adds what it remembers.\<close>

definition bare_request :: "('g, 's) libs \<Rightarrow> decide_request \<Rightarrow> request" where
  "bare_request L q = request_from_frame (lib_parse L) (dq_method q) (dq_frame q) (request_scope q) []"

lemma engine_request_bare [simp]:
  "rq_tool (engine_request L d now q) = rq_tool (bare_request L q)"
  "rq_values (engine_request L d now q) = rq_values (bare_request L q)"
  "rq_paths (engine_request L d now q) = rq_paths (bare_request L q)"
  "has_path_outside_scope (engine_request L d now q) = has_path_outside_scope (bare_request L q)"
  by (simp_all add: engine_request_def bare_request_def has_path_outside_scope_def Let_def)

lemma taint_keeps [simp]:
  "dm_policy (take_taint t r d) = dm_policy d" "dm_disk (take_taint t r d) = dm_disk d"
  "dm_drifted (take_taint t r d) = dm_drifted d"
  by (simp_all add: take_taint_def Let_def)

lemma taints_keep [simp]:
  "dm_policy (fold (\<lambda>(t, r). take_taint t r) rs d) = dm_policy d"
  "dm_disk (fold (\<lambda>(t, r). take_taint t r) rs d) = dm_disk d"
  "dm_overrides (fold (\<lambda>(t, r). take_taint t r) rs d) = dm_overrides d"
  by (induction rs arbitrary: d) (auto split: prod.splits)

lemma leak_denied:
  assumes "fp_in rep = capped (fingerprint_of text)" and "dm_taint d0 = taint_new"
    and "\<forall>(t, r) \<in> set later. t0 \<le> t \<and> t \<le> now" and "now - t0 < TTL"
    and "MIN_TOKEN_LEN \<le> length tok" and "tok \<in> set (candidate_tokens text)"
    and "tok \<in> set (candidate_tokens (join_with '' '' (rq_values (bare_request L q))))"
    and "snd (reload_if_changed (lib_globs L) (lib_home L) (lib_yaml L) (dm_disk d0) (dm_policy d0)) =
      compile_policy (lib_globs L) (lib_home L) default_policy path mtime"
    and "collect_secrets (rq_values (bare_request L q)) [] = Returned ss" and "\<forall>k x. Secret k x \<notin> set ss"
    and "build_globs (lib_globs L) (lib_home L) SECRET_PATHS = Some sp"
    and "build_globs (lib_globs L) (lib_home L) (pf_outbound default_policy) = Some ob"
    and "rq_tool (bare_request L q) = Some t" and "set_match (lib_globs L) ob (to_ascii_lowercase t)"
    and "\<forall>x \<in> set (rq_paths (bare_request L q)). \<not> set_match (lib_globs L) sp x"
    and "\<not> has_path_outside_scope (bare_request L q)" and "matching_override (dq_scope_key q) (Some t) d0 = None"
    and "d = fold (\<lambda>(t, r). take_taint t r) (bef @ (t0, rep) # later) d0"
  shows "\<exists>dec tmo d' r. judge L now q d = (Returned (dec, Some t, tmo), d') \<and> settle q dec (Some t) d' = Some r \<and>
    verdict_of r = Deny ''taint_exfil'' (agent_message dec)"
proof -
  let ?rq = "engine_request L d now q"
  have tk: "fnv1a tok \<in> set (tokens (capped (fingerprint_of text)))"
    using assms(5,6) by (simp add: capped_def tokens_fingerprint)
  then have "\<not> fp_is_empty (fp_in rep)" using assms(1) by (auto simp: fp_is_empty_def)
  then have st: "dm_taint d = record_all (recorded bef @ (capped (fingerprint_of text), tn_origin rep, t0) # recorded later)"
    unfolding assms(18) taint_after assms(2) recorded_at by (simp add: record_all_def assms(1))
  have lt: "\<forall>(fp, l, t) \<in> set (recorded later). t0 \<le> t \<and> t \<le> now"
    using assms(3) by (auto simp: recorded_def)
  obtain o' where "fresh_hit now (ts_tokens (dm_taint d)) (fnv1a tok) = Some o'"
    unfolding st using recorded_hit(1) [OF lt assms(4) tk] by blast
  then obtain l where tainted: "rq_tainted ?rq = Some l"
    using engine_request_tainted [of now d tok o' L q] assms(5,7) by auto
  let ?fs = "ss @ [Tainted l] @ (case rq_tool ?rq of Some t \<Rightarrow> if rq_drifted ?rq then [Drifted t] else [] | None \<Rightarrow> [])"
  have fs: "collect_findings ?rq = Returned ?fs" "\<forall>k x. Secret k x \<notin> set ?fs"
    using assms(9,10) tainted by (auto simp: collect_findings_def split: option.splits if_splits)
  have ov: "matching_override (dq_scope_key q) (Some t) d = None"
    using assms(17,18) by (simp add: matching_override_def)
  show ?thesis
    by (rule judged_exfiltration [OF _ refl fs(1) assms(11,12) tainted _ assms(14) _ fs(2) _ ov])
      (use assms(8,13,15,16,18) in simp_all)
qed

section \<open>A concrete call\<close>

text \<open>A JSON library for which every text is a call of \<open>webfetch\<close> with one argument.\<close>

definition leak_libs :: "bytes \<Rightarrow> (bytes, bytes list) libs" where
  "leak_libs arg = plain_libs\<lparr>lib_parse := (\<lambda>_. Some (JObject [(''params'', JObject
     [(''arguments'', JObject [(''q'', JString arg)]), (''name'', JString ''webfetch'')])]))\<rparr>"

lemma leak_request:
  assumes "\<not> looks_like_path arg"
  shows "rq_values (bare_request (leak_libs arg) q) = [arg, ''webfetch'']"
    "rq_tool (bare_request (leak_libs arg) q) = Some ''webfetch''"
    "rq_paths (bare_request (leak_libs arg) q) = []"
    "\<not> has_path_outside_scope (bare_request (leak_libs arg) q)"
proof -
  have "\<not> looks_like_path ''webfetch''" by code_simp
  then show "rq_values (bare_request (leak_libs arg) q) = [arg, ''webfetch'']"
    "rq_tool (bare_request (leak_libs arg) q) = Some ''webfetch''"
    "rq_paths (bare_request (leak_libs arg) q) = []"
    "\<not> has_path_outside_scope (bare_request (leak_libs arg) q)"
    using assms by (simp_all add: bare_request_def request_from_frame_def leak_libs_def Let_def has_path_outside_scope_def)
qed

lemma leak_policy:
  "snd (reload_if_changed (lib_globs (leak_libs arg)) (lib_home (leak_libs arg)) (lib_yaml (leak_libs arg))
     (dm_disk (plain_daemon default_policy)) (dm_policy (plain_daemon default_policy))) =
   compile_policy (lib_globs (leak_libs arg)) (lib_home (leak_libs arg)) default_policy None None"
  "build_globs (lib_globs (leak_libs arg)) (lib_home (leak_libs arg)) SECRET_PATHS =
   Some (concat (map (globs_of (lib_globs plain_libs) ''/home/me'') SECRET_PATHS))"
  "build_globs (lib_globs (leak_libs arg)) (lib_home (leak_libs arg)) (pf_outbound default_policy) =
   Some (concat (map (globs_of (lib_globs plain_libs) ''/home/me'') (pf_outbound default_policy)))"
  by (simp_all add: plain_daemon_def daemon_new_def reload_if_changed_def compile_policy_def build_globs_def
      SECRET_PATHS_def default_policy_def leak_libs_def plain_libs_def)

lemma leak_outbound:
  "set_match (lib_globs (leak_libs arg)) (concat (map (globs_of (lib_globs plain_libs) ''/home/me'') (pf_outbound default_policy)))
     (to_ascii_lowercase ''webfetch'')"
proof -
  have "set_match (lib_globs plain_libs) (concat (map (globs_of (lib_globs plain_libs) ''/home/me'') (pf_outbound default_policy)))
     (to_ascii_lowercase ''webfetch'')"
    by code_simp
  then show ?thesis by (simp add: leak_libs_def)
qed

lemma plain_daemon_fresh [simp]:
  "dm_taint (plain_daemon f) = taint_new" "dm_overrides (plain_daemon f) = []" "dm_drifted (plain_daemon f) = []"
  by (simp_all add: plain_daemon_def daemon_new_def)

end
