(* ===== verification/Rug_Pull.thy ===== *)
theory Rug_Pull
  imports Servers Exfiltration
begin

text \<open>
  A tool that changes after it has been approved, from the two listings the server sends to the question that is
  put to the user: \<open>protocol/drift.rs\<close>, \<open>ipc/client.rs\<close>, \<open>journal/query.rs\<close> and \<open>daemon/\<close> together.
\<close>

section \<open>From a listing to the report\<close>

lemma reported_tools:
  assumes "cl_sent (observe_response parse sha render resp c) = cl_sent c @ [CTools rep]"
    and "parse resp = Some v" and "jpath [''result'', ''tools''] v = Some (JArray js)"
    and "j \<in> set js" and "jget ''name'' j = Some (JString t)"
  shows "(t, digest sha render j) \<in> set (tr_tools rep)"
proof -
  have entry: "tool_entry sha render j = Some \<lparr>td_name = t, td_sha256 = digest sha render j\<rparr>"
    using assms(5) by (simp add: tool_entry_def)
  then have in_list: "\<lparr>td_name = t, td_sha256 = digest sha render j\<rparr> \<in> set (List.map_filter (tool_entry sha render) js)"
    using assms(4) by (force simp: List.map_filter_def)
  then have "tools_in_response parse sha render resp = Some (List.map_filter (tool_entry sha render) js)"
    using assms(2,3) by (auto simp: tools_in_response_def Let_def simp del: jpath.simps)
  then have "tr_tools rep = map (\<lambda>t. (td_name t, td_sha256 t)) (List.map_filter (tool_entry sha render) js)"
    using assms(1) by (auto simp: observe_response_def note_server_name_def send_only_def Let_def
        split: option.splits if_splits)
  then show ?thesis using in_list by force
qed

section \<open>From the report to the daemon's memory\<close>

definition known_hash :: "'s daemon \<Rightarrow> bytes \<Rightarrow> bytes \<Rightarrow> bytes option" where
  "known_hash d server t = map_option t_sha (map_of (db_tools (dm_db d)) (server, t))"

lemma take_tools_db:
  "tr_tools rep \<noteq> [] \<Longrightarrow> dm_db (take_tools True now rep d) = snd (record_loop now (tr_server rep) (tr_tools rep) [] (dm_db d))"
  by (auto simp: take_tools_def record_descriptions_def drift_extend_def Let_def split: prod.split)

lemma hash_recorded:
  assumes "distinct (map fst (tr_tools rep))" and "(t, h) \<in> set (tr_tools rep)"
  shows "known_hash (take_tools True now rep d) (tr_server rep) t = Some h"
proof -
  have "tr_tools rep \<noteq> []" "map_of (tr_tools rep) t = Some h" using assms by auto
  then show ?thesis
    using record_loop_spec [OF assms(1), of now "tr_server rep" "[]" "dm_db d"]
    by (simp add: known_hash_def take_tools_db)
qed

lemma drift_remembered:
  assumes "distinct (map fst (tr_tools rep))" and "(t, h) \<in> set (tr_tools rep)"
    and "known_hash d (tr_server rep) t = Some h0" and "h0 \<noteq> h"
  shows "t \<in> set (drifted_tools (take_tools True now rep d) (tr_server rep))"
proof -
  let ?changed = "fst (record_loop now (tr_server rep) (tr_tools rep) [] (dm_db d))"
  have "drifted_in (dm_db d) (tr_server rep) (t, h)"
    using assms(3,4) by (auto simp: drifted_in_def known_hash_def)
  then have c: "t \<in> set ?changed"
    using assms(1,2) record_loop_spec [OF assms(1), of now "tr_server rep" "[]" "dm_db d"] by force
  moreover have "record_descriptions True now (tr_server rep) (tr_tools rep) (dm_db d) =
      (Some ?changed, snd (record_loop now (tr_server rep) (tr_tools rep) [] (dm_db d)))"
    using assms(2) by (auto simp: record_descriptions_def split: prod.splits)
  ultimately show ?thesis
    by (auto simp: take_tools_def drift_extend_def drifted_tools_def Let_def update_conv')
qed

section \<open>From the memory to the question\<close>

lemma request_drifted:
  "rq_tool (engine_request L d now q) = Some t \<Longrightarrow>
   rq_drifted (engine_request L d now q) \<longleftrightarrow> t \<in> set (drifted_tools d (server_key (dq_server q)))"
  by (simp add: engine_request_def Let_def)

lemma drift_forgotten: "t \<notin> set (drifted_tools (drift_remove server t d) server)"
  by (auto simp: drift_remove_def drifted_tools_def update_conv' split: option.splits)

lemma drifted_findings:
  "collect_findings rq = Returned fs \<Longrightarrow> rq_drifted rq \<Longrightarrow> rq_tool rq = Some t \<Longrightarrow> Drifted t \<in> set fs"
  by (auto simp: collect_findings_def obind_Returned_iff)

text \<open>What is on record for a scope and a tool decides before the verdict is looked at; otherwise an ask goes to the user.\<close>

lemma ask_or_record:
  assumes "judge L now q d = (x, d')" and "d_action dec = AAsk"
  shows "settle q dec tool d' = map_option (\<lambda>allow. respond (if allow then OAllow else ODeny) (Some ''override'')
      ''decision recorded for this project'' (allows_forever (request_scope q))) (matching_override (dq_scope_key q) tool d)"
  using assms overrides_judge [OF assms(1)]
  by (simp add: settle_def matching_override_def Let_def split: option.split)

text \<open>
  C8: A rug pull is put to the user, once, where no decision is on record: when two listings of a server show one tool
  with another description or another schema, then, whatever the daemon did between the two reports short of
  another report on this tool, the next call of the tool is a request with drift; the shipped policy, where no
  earlier rule speaks, asks about it by \<open>tool_description_changed\<close>, and from then on the daemon no longer holds the
  change against the tool.  If no permission or refusal of this tool in this scope is on record, the call goes to
  the user, with a prompt that names the rule and the tool that changed.  But if one is, it is the answer, although it
  was given before the change: a recorded permission lets the changed tool through without a question, and the change
  is forgotten with it.
\<close>

theorem rug_pull_is_asked_about:
  assumes "parse resp = Some v" and "jpath [''result'', ''tools''] v = Some (JArray js)"
    and "j \<in> set js" and "jget ''name'' j = Some (JString t)"
    and "parse resp' = Some v'" and "jpath [''result'', ''tools''] v' = Some (JArray js')"
    and "j' \<in> set js'" and "jget ''name'' j' = Some (JString t)"
    and "description_text j \<noteq> description_text j' \<or> schema_text render j \<noteq> schema_text render j'"
    and "\<And>v. NL \<notin> set (render v)"
    and "sha (digest_input render j) = sha (digest_input render j') \<Longrightarrow> digest_input render j = digest_input render j'"
    and "cl_sent (observe_response parse sha render resp c) = cl_sent c @ [CTools rep]"
    and "cl_sent (observe_response parse sha render resp' c') = cl_sent c' @ [CTools rep']"
    and "distinct (map fst (tr_tools rep))" and "distinct (map fst (tr_tools rep'))"
    and "tr_server rep' = tr_server rep"
    and "known_hash d (tr_server rep) t = known_hash (take_tools True now rep d0) (tr_server rep) t"
    and "d' = take_tools True now' rep' d"
    and "server_key (dq_server q) = tr_server rep" and "rq = engine_request L d' t0 q" and "rq_tool rq = Some t"
    and "snd (reload_if_changed (lib_globs L) (lib_home L) (lib_yaml L) (dm_disk d') (dm_policy d')) =
      compile_policy (lib_globs L) (lib_home L) default_policy path mtime"
    and "collect_findings rq = Returned fs" and "build_globs (lib_globs L) (lib_home L) SECRET_PATHS = Some sp"
    and "\<forall>x \<in> set (rq_paths rq). \<not> set_match (lib_globs L) sp x" and "\<forall>k x. Secret k x \<notin> set fs"
    and "\<not> has_path_outside_scope rq" and "rq_tainted rq = None"
  shows "\<exists>dec tmo d''. judge L t0 q d' = (Returned (dec, Some t, tmo), d'') \<and> d_action dec = AAsk \<and>
    d_rule dec = Some ''tool_description_changed'' \<and> Drifted t \<in> set (d_findings dec) \<and>
    t \<notin> set (drifted_tools d'' (tr_server rep)) \<and>
    (case matching_override (dq_scope_key q) (Some t) d' of
       None \<Rightarrow> settle q dec (Some t) d'' = None \<and>
         (\<forall>i. pr_rule (make_prompt L i q dec (Some t) tmo) = Some ''tool_description_changed'' \<and>
            describe (Drifted t) \<in> set (pr_findings (make_prompt L i q dec (Some t) tmo)))
     | Some allow \<Rightarrow> settle q dec (Some t) d'' = Some (respond (if allow then OAllow else ODeny) (Some ''override'')
         ''decision recorded for this project'' (allows_forever (request_scope q))))"
proof -
  have h: "(t, digest sha render j) \<in> set (tr_tools rep)" "(t, digest sha render j') \<in> set (tr_tools rep')"
    using reported_tools [OF assms(12,1-4)] reported_tools [OF assms(13,5-8)] by blast+
  have "digest sha render j \<noteq> digest sha render j'"
    using digest_pins [of render sha j j', OF assms(10,11)] assms(4,8,9) by (auto simp: text_of_def)
  moreover have "known_hash d (tr_server rep') t = Some (digest sha render j)"
    using hash_recorded [OF assms(14) h(1)] assms(16,17) by simp
  ultimately have "t \<in> set (drifted_tools d' (server_key (dq_server q)))"
    using drift_remembered [OF assms(15) h(2)] assms(16,18,19) by simp
  then have dr: "rq_drifted rq" using request_drifted [of L d' t0 q t] assms(20,21) by simp
  obtain dec where "evaluate (lib_globs L) (compile_policy (lib_globs L) (lib_home L) default_policy path mtime) rq = Returned dec"
    "d_action dec = AAsk" "d_rule dec = Some ''tool_description_changed''" "d_findings dec = fs"
    using drift_asked [OF assms(23,24,28) dr assms(25-27)] by blast
  moreover from this have "\<exists>tmo d''. judge L t0 q d' = (Returned (dec, Some t, tmo), d'') \<and>
      t \<notin> set (drifted_tools d'' (tr_server rep))"
    using assms(19-22) dr drift_forgotten by (simp add: judge_def Let_def)
  then obtain tmo d'' where j: "judge L t0 q d' = (Returned (dec, Some t, tmo), d'')"
    and gone: "t \<notin> set (drifted_tools d'' (tr_server rep))" by blast
  moreover have "Drifted t \<in> set fs" by (rule drifted_findings [OF assms(23) dr assms(21)])
  ultimately show ?thesis
    using ask_or_record [OF j, of dec "Some t"] gone
    by (intro exI [of _ dec] exI [of _ tmo] exI [of _ d'']) (auto simp: make_prompt_def simp del: describe.simps split: option.split)
qed

section \<open>The server that does it\<close>

lemma rugpull_lists:
  "jget ''id'' v = Some i \<Longrightarrow> msg_method v = ''tools/list'' \<Longrightarrow>
   fst (rugpull_reply render n v) = [render (listing i n) @ [NL]]"
  by (simp add: rugpull_reply_def write_line_def)

lemma listing_fields:
  "jpath [''result'', ''tools''] (listing i n) = Some (JArray [listed_tool (if n = 0 then HONEST else AFTER)])"
  "jget ''name'' (listed_tool text) = Some (JString ''read_file'')"
  "description_text (listed_tool text) = text"
  "jpath [''result'', ''serverInfo'', ''name''] (listing i n) = None"
  by (simp_all add: listing_def rpc_result_def listed_tool_def description_text_def text_of_def jget_jobject)

definition read_libs :: "(bytes, bytes list) libs" where
  "read_libs = plain_libs\<lparr>lib_parse := (\<lambda>_. Some (JObject [(''params'', JObject [(''name'', JString ''read_file'')])]))\<rparr>"

lemma tools_keep [simp]:
  "dm_policy (take_tools ok now rep d) = dm_policy d" "dm_disk (take_tools ok now rep d) = dm_disk d"
  "dm_taint (take_tools ok now rep d) = dm_taint d"
  by (simp_all add: take_tools_def drift_extend_def Let_def split: prod.split option.split)

definition a_printer :: printer where
  "a_printer v = (case v of JString s \<Rightarrow> filter (\<lambda>c. c \<noteq> NL) s | _ \<Rightarrow> ''x'')"

theorem rug_pull_is_asked_about_witness:
  "\<exists>parse rep rep' dec tmo d''.
     cl_sent (observe_response parse (\<lambda>x. x) a_printer ''1'' an_agent) = [CTools rep] \<and>
     cl_sent (observe_response parse (\<lambda>x. x) a_printer ''2'' an_agent) = [CTools rep'] \<and>
     judge read_libs 9 plain_call (take_tools True 2 rep' (take_tools True 1 rep (plain_daemon default_policy))) =
       (Returned (dec, Some ''read_file'', tmo), d'') \<and> d_action dec = AAsk \<and> Drifted ''read_file'' \<in> set (d_findings dec) \<and>
     settle plain_call dec (Some ''read_file'') d'' = None \<and>
   (\<exists>dec tmo d''.
     judge read_libs 9 plain_call (take_tools True 2 rep' ((take_tools True 1 rep (plain_daemon default_policy))
         \<lparr>dm_overrides := [\<lparr>so_scope = ''cwd:/p'', so_tool = ''read_file'', so_allow = True\<rparr>]\<rparr>)) =
       (Returned (dec, Some ''read_file'', tmo), d'') \<and> Drifted ''read_file'' \<in> set (d_findings dec) \<and>
     map_option dr_outcome (settle plain_call dec (Some ''read_file'') d'') = Some OAllow)"
proof -
  let ?parse = "\<lambda>s. if s = ''1'' then Some (listing (JNumber ''1'') 0) else Some (listing (JNumber ''2'') 1)"
  let ?rep = "\<lambda>text. \<lparr>tr_server = ''(unnamed)'', tr_tools = [(''read_file'', digest (\<lambda>x. x) a_printer (listed_tool text))]\<rparr>"
  let ?d = "\<lambda>ovs. (take_tools True 1 (?rep HONEST) (plain_daemon default_policy))\<lparr>dm_overrides := ovs\<rparr>"
  let ?d' = "\<lambda>ovs. take_tools True 2 (?rep AFTER) (?d ovs)"
  have tools: "tools_in_response ?parse (\<lambda>x. x) a_printer s = Some [\<lparr>td_name = ''read_file'',
      td_sha256 = digest (\<lambda>x. x) a_printer (listed_tool (if s = ''1'' then HONEST else AFTER))\<rparr>]" for s
    by (simp add: tools_in_response_def listing_fields tool_entry_def map_filter_Cons del: jpath.simps)
  have sent: "cl_sent (observe_response ?parse (\<lambda>x. x) a_printer ''1'' an_agent) = cl_sent an_agent @ [CTools (?rep HONEST)]"
    "cl_sent (observe_response ?parse (\<lambda>x. x) a_printer ''2'' an_agent) = cl_sent an_agent @ [CTools (?rep AFTER)]"
    by (simp_all add: observe_response_def tools note_server_name_def listing_fields send_only_def an_agent_def
        server_name_def CLIENT_UNNAMED_SERVER_def Let_def del: jpath.simps)
  have none: "\<not> looks_like_path ''read_file''" by code_simp
  have req: "rq_values (bare_request read_libs plain_call) = [''read_file'']" "rq_tool (bare_request read_libs plain_call) = Some ''read_file''"
    "rq_paths (bare_request read_libs plain_call) = []" "\<not> has_path_outside_scope (bare_request read_libs plain_call)"
    using none by (simp_all add: bare_request_def request_from_frame_def read_libs_def Let_def has_path_outside_scope_def)
  have tainted: "rq_tainted (engine_request read_libs (?d' ovs) 9 plain_call) = None" for ovs
    by (simp add: engine_request_def Let_def store_is_empty_def store_len_def taint_new_def)
  let ?rq = "\<lambda>ovs. engine_request read_libs (?d' ovs) 9 plain_call"
  have secrets: "detect_secret ''read_file'' = Returned None" by code_simp
  define fs where "fs ovs = (if rq_drifted (?rq ovs) then [Drifted ''read_file''] else [])" for ovs
  have fs: "collect_findings (?rq ovs) = Returned (fs ovs)" "\<forall>k x. Secret k x \<notin> set (fs ovs)" for ovs
    by (simp_all add: collect_findings_def req secrets tainted fs_def)
  have pol: "snd (reload_if_changed (lib_globs read_libs) (lib_home read_libs) (lib_yaml read_libs) (dm_disk (?d' ovs)) (dm_policy (?d' ovs))) =
      compile_policy (lib_globs read_libs) (lib_home read_libs) default_policy None None" for ovs
    by (simp add: plain_daemon_def daemon_new_def reload_if_changed_def compile_policy_def read_libs_def plain_libs_def)
  obtain sp where sp: "build_globs (lib_globs read_libs) (lib_home read_libs) SECRET_PATHS = Some sp"
    by (simp add: build_globs_def SECRET_PATHS_def default_policy_def read_libs_def plain_libs_def)
  have lists: "jpath [''result'', ''tools''] (listing (JNumber ''1'') 0) = Some (JArray [listed_tool HONEST])"
    "jpath [''result'', ''tools''] (listing (JNumber ''2'') 1) = Some (JArray [listed_tool AFTER])"
    by (simp_all add: listing_fields del: jpath.simps)
  have unnamed: "server_key (dq_server plain_call) = ''(unnamed)''"
    by (simp add: plain_call_def server_key_def UNNAMED_SERVER_def)
  have nl: "NL \<notin> set (a_printer v)" for v by (simp add: a_printer_def split: json.split)
  have diff: "description_text (listed_tool HONEST) \<noteq> description_text (listed_tool AFTER) \<or>
      schema_text a_printer (listed_tool HONEST) \<noteq> schema_text a_printer (listed_tool AFTER)"
    by (simp add: listing_fields HONEST_def AFTER_def)
  have main: "\<exists>dec tmo d''. judge read_libs 9 plain_call (?d' ovs) = (Returned (dec, Some ''read_file'', tmo), d'') \<and>
    d_action dec = AAsk \<and> d_rule dec = Some ''tool_description_changed'' \<and> Drifted ''read_file'' \<in> set (d_findings dec) \<and>
    ''read_file'' \<notin> set (drifted_tools d'' (tr_server (?rep HONEST))) \<and>
    (case matching_override (dq_scope_key plain_call) (Some ''read_file'') (?d' ovs) of
       None \<Rightarrow> settle plain_call dec (Some ''read_file'') d'' = None \<and>
         (\<forall>i. pr_rule (make_prompt read_libs i plain_call dec (Some ''read_file'') tmo) = Some ''tool_description_changed'' \<and>
            describe (Drifted ''read_file'') \<in> set (pr_findings (make_prompt read_libs i plain_call dec (Some ''read_file'') tmo)))
     | Some allow \<Rightarrow> settle plain_call dec (Some ''read_file'') d'' = Some (respond (if allow then OAllow else ODeny) (Some ''override'')
         ''decision recorded for this project'' (allows_forever (request_scope plain_call))))" for ovs
    by (rule rug_pull_is_asked_about [where parse = ?parse and sha = "\<lambda>x. x" and render = a_printer and j = "listed_tool HONEST"
          and j' = "listed_tool AFTER" and d = "?d ovs",
          OF _ lists(1) _ listing_fields(2) _ lists(2) _ listing_fields(2) diff nl _ sent _ _ _ _ refl _ refl _ pol fs(1) sp _ fs(2) _ tainted])
      (simp_all add: req unnamed known_hash_def)
  have ov: "matching_override (dq_scope_key plain_call) (Some ''read_file'') (?d' []) = None"
    "matching_override (dq_scope_key plain_call) (Some ''read_file'')
       (?d' [\<lparr>so_scope = ''cwd:/p'', so_tool = ''read_file'', so_allow = True\<rparr>]) = Some True"
    by (simp_all add: matching_override_def so_matches_def plain_call_def)
  have same: "?d [] = take_tools True 1 (?rep HONEST) (plain_daemon default_policy)" by simp
  obtain dec tmo d'' where 1: "judge read_libs 9 plain_call (?d' []) = (Returned (dec, Some ''read_file'', tmo), d'')"
    "d_action dec = AAsk" "Drifted ''read_file'' \<in> set (d_findings dec)" "settle plain_call dec (Some ''read_file'') d'' = None"
    using main [of "[]"] unfolding ov by auto
  have 2: "\<exists>dec tmo d''. judge read_libs 9 plain_call (?d' [\<lparr>so_scope = ''cwd:/p'', so_tool = ''read_file'', so_allow = True\<rparr>]) =
      (Returned (dec, Some ''read_file'', tmo), d'') \<and> Drifted ''read_file'' \<in> set (d_findings dec) \<and>
    map_option dr_outcome (settle plain_call dec (Some ''read_file'') d'') = Some OAllow"
    using main [of "[\<lparr>so_scope = ''cwd:/p'', so_tool = ''read_file'', so_allow = True\<rparr>]"]
    unfolding ov by (auto simp: respond_def)
  have "cl_sent an_agent = []" by (simp add: an_agent_def)
  then have s: "cl_sent (observe_response ?parse (\<lambda>x. x) a_printer ''1'' an_agent) = [CTools (?rep HONEST)]"
    "cl_sent (observe_response ?parse (\<lambda>x. x) a_printer ''2'' an_agent) = [CTools (?rep AFTER)]"
    using sent by simp_all
  show ?thesis using s 1(1) [unfolded same] 1(2-4) 2 by blast
qed

end
