(* ===== verification/Leak.thy ===== *)
theory Leak
  imports Servers Exfiltration
begin

text \<open>
  The complete attack of the specification, against the server that \<open>testservers/leaky.rs\<close> is: a secret is read
  through an MCP server, and then an outbound tool is called with it.
\<close>

section \<open>What the leaky server gives away\<close>

lemma leaky_read:
  assumes "jget ''id'' v = Some i" and "msg_method v = ''tools/call''" and "contains_sub (msg_tool v) ''read''"
  shows "leaky_reply render () v = ([render (text_result i ENV_FILE) @ [NL]], ())"
  using assms by (simp add: leaky_reply_def write_line_def)

lemma lower_contains_read: "contains_sub t ''read'' \<Longrightarrow> contains_sub (to_ascii_lowercase t) ''read''"
proof -
  assume "contains_sub t ''read''"
  then obtain u w where "t = u @ ''read'' @ w" by (auto simp: contains_sub_iff)
  moreover have "to_ascii_lowercase ''read'' = ''read''" by code_simp
  ultimately have "to_ascii_lowercase t = to_ascii_lowercase u @ ''read'' @ to_ascii_lowercase w"
    by (simp add: to_ascii_lowercase_def)
  then show ?thesis by (auto simp: contains_sub_iff)
qed

lemma read_call_is_local:
  assumes "contains_sub (msg_tool v) ''read''"
  shows "is_local_read m (call_tool v)"
proof -
  have "msg_tool v \<noteq> []" using assms by (auto simp: contains_sub_iff)
  then have "call_tool v = Some (msg_tool v)" by (auto simp: msg_tool_def call_tool_def split: option.splits)
  then show ?thesis using lower_contains_read [OF assms] by (simp add: is_local_read_def Let_def)
qed

text \<open>The JSON printer writes a string between quotes, and a newline in it as a backslash and an \<open>n\<close>.\<close>

definition quoted :: "bytes \<Rightarrow> bytes" where
  "quoted s = [QUOTE] @ replace_char NL [BSLASH, CHR ''n''] s @ [QUOTE]"

lemma credential_token: "list_all token_char CREDENTIAL" "MIN_TOKEN_LEN \<le> length CREDENTIAL"
  by code_simp+

lemma credential_in_text:
  assumes "text = a @ quoted ENV_FILE @ b"
  shows "CREDENTIAL \<in> set (candidate_tokens text)"
proof -
  have "replace_char NL [BSLASH, CHR ''n''] ENV_FILE = ''# production configuration'' @ [BSLASH, CHR ''n''] @ ''BILLING_TOKEN'' @
      CHR ''='' # CREDENTIAL @ BSLASH # ''nDEBUG=false'' @ [BSLASH, CHR ''n'']"
    by code_simp
  then have "text = (a @ [QUOTE] @ ''# production configuration'' @ [BSLASH, CHR ''n''] @ ''BILLING_TOKEN'') @
      CHR ''='' # CREDENTIAL @ BSLASH # (''nDEBUG=false'' @ [BSLASH, CHR ''n''] @ [QUOTE] @ b)"
    using assms by (simp add: quoted_def)
  then obtain x y where t: "text = x @ CHR ''='' # CREDENTIAL @ BSLASH # y" by blast
  have "\<not> token_char (CHR ''='')" "\<not> token_char BSLASH" by code_simp+
  moreover have "CREDENTIAL \<noteq> []" by (simp add: CREDENTIAL_def)
  ultimately show ?thesis
    unfolding t using credential_token(1) by (simp add: candidate_tokens_split candidate_tokens_one)
qed

lemma text_result_fields:
  "jget ''id'' (text_result i text) = Some i"
  "jpath [''result'', ''tools''] (text_result i text) = None"
  by (simp_all add: text_result_def rpc_result_def jget_jobject)

text \<open>
  A token that stands in one of the values of a call, between characters that no token has or at its ends, is a token of
  what the daemon fingerprints.
\<close>

lemma token_within:
  assumes "list_all token_char tok" and "tok \<noteq> []"
    and "u = [] \<or> \<not> token_char (last u)" and "w = [] \<or> \<not> token_char (hd w)"
  shows "tok \<in> set (candidate_tokens (u @ tok @ w))"
proof -
  have r: "tok \<in> set (candidate_tokens (tok @ w))"
  proof (cases w)
    case Nil
    then show ?thesis using candidate_tokens_one [OF assms(1,2)] by simp
  next
    case (Cons d y)
    then show ?thesis using candidate_tokens_split [of d tok y] candidate_tokens_one [OF assms(1,2)] assms(4) by simp
  qed
  show ?thesis
  proof (cases u rule: rev_cases)
    case (snoc x d)
    then show ?thesis using candidate_tokens_split [of d x "tok @ w"] assms(3) r by simp
  qed (simp add: r)
qed

lemma candidate_tokens_join:
  "s \<in> set vs \<Longrightarrow> set (candidate_tokens s) \<subseteq> set (candidate_tokens (join_with '' '' vs))"
proof (induction vs)
  case (Cons x vs)
  have "\<not> token_char (CHR '' '')" by code_simp
  then have "candidate_tokens (join_with '' '' (x # vs)) =
      candidate_tokens x @ (if vs = [] then [] else candidate_tokens (join_with '' '' vs))"
    using candidate_tokens_split [of "CHR '' ''" x] by (cases vs) simp_all
  then show ?case using Cons by auto
qed simp

section \<open>The attack\<close>

text \<open>
  C7: The attack of the specification fails at its last step: an agent is allowed to read through the leaky
  server, under any id and by any tool with \<open>read\<close> in its name; the answer passes the shim, which reports it;
  and the daemon, whatever other reports it takes before and after, refuses within ten minutes every
  call of an outbound tool in one of whose values the credential stands with no letter, digit or one of \<open>_ - . + /\<close>
  next to it, under the shipped policy and unless an earlier rule or a recorded permission speaks.  Where such a
  character does stand next to it the call is not refused on this account: a path of a URL is the next theorem's case.
\<close>

theorem leaky_server_gets_nothing_out:
  assumes "render (text_result i ENV_FILE) = a @ quoted ENV_FILE @ b" and "utf8_valid (render (text_result i ENV_FILE))"
    and "parse (render (text_result i ENV_FILE)) = Some (text_result i ENV_FILE)"
    and "parse (ctx_frame ctx) = Some v" and "jget ''id'' v = Some i" and "frame_id parse (ctx_frame ctx) = Some fid"
    and "msg_method v = ''tools/call''" and "contains_sub (msg_tool v) ''read''"
    and "leaky_reply render () v = ([line], ())"
    and "client_decide parse (Line l) c ctx = (Inr Allow, c1)" and "cl_thread c" and "dm_taint d0 = taint_new"
    and "\<forall>(t, r) \<in> set later. t0 \<le> t \<and> t \<le> now" and "now - t0 < TTL"
    and "u @ CREDENTIAL @ w \<in> set (rq_values (bare_request L q))"
    and "u = [] \<or> \<not> token_char (last u)" and "w = [] \<or> \<not> token_char (hd w)"
    and "snd (reload_if_changed (lib_globs L) (lib_home L) (lib_yaml L) (dm_disk d0) (dm_policy d0)) =
      compile_policy (lib_globs L) (lib_home L) default_policy path mtime"
    and "collect_secrets (rq_values (bare_request L q)) [] = Returned ss" and "\<forall>k x. Secret k x \<notin> set ss"
    and "build_globs (lib_globs L) (lib_home L) SECRET_PATHS = Some sp"
    and "build_globs (lib_globs L) (lib_home L) (pf_outbound default_policy) = Some ob"
    and "rq_tool (bare_request L q) = Some t" and "set_match (lib_globs L) ob (to_ascii_lowercase t)"
    and "\<forall>x \<in> set (rq_paths (bare_request L q)). \<not> set_match (lib_globs L) sp x"
    and "\<not> has_path_outside_scope (bare_request L q)" and "matching_override (dq_scope_key q) (Some t) d0 = None"
  shows "\<exists>rep dec tmo d' r.
    cl_sent (observe_response parse sha render (butlast line) c1) = cl_sent c @ [CDecide (decide_message ctx c), CTaint rep] \<and>
    judge L now q (fold (\<lambda>(t, r). take_taint t r) (bef @ (t0, rep) # later) d0) = (Returned (dec, Some t, tmo), d') \<and>
    settle q dec (Some t) d' = Some r \<and> verdict_of r = Deny ''taint_exfil'' (agent_message dec)"
proof -
  let ?resp = "render (text_result i ENV_FILE)"
  have line: "butlast line = ?resp" using assms(9) leaky_read [OF assms(5,7,8), of render] by auto
  have lossy: "utf8_lossy ?resp = ?resp" using assms(2) by (rule utf8_lossy_valid)
  have tok: "CREDENTIAL \<in> set (candidate_tokens ?resp)" using assms(1) by (rule credential_in_text)
  have "fnv1a CREDENTIAL \<in> set (tokens (capped (fingerprint_of ?resp)))"
    using tok credential_token(2) by (simp add: capped_def tokens_fingerprint)
  then have fp: "\<not> fp_is_empty (capped (fingerprint_of (utf8_lossy ?resp)))"
    unfolding lossy by (auto simp: fp_is_empty_def)
  have "frame_id parse ?resp = frame_id parse (ctx_frame ctx)"
    using assms(3-5) by (simp add: frame_id_def text_result_fields)
  moreover have "tools_in_response parse sha render ?resp = None"
    using assms(3) by (simp add: tools_in_response_def text_result_fields del: jpath.simps)
  ultimately have sent: "cl_sent (observe_response parse sha render ?resp c1) = cl_sent c @
      [CDecide (decide_message ctx c), taint_message (read_origin (ctx_method ctx) v) (capped (fingerprint_of ?resp))]"
    using read_reported [OF assms(4) read_call_is_local [OF assms(8)] assms(6) _ _ fp assms(10,11)] assms(6) lossy by simp
  define rep where "rep = \<lparr>tn_origin = read_origin (ctx_method ctx) v, tn_ngrams = map unat (ngrams (capped (fingerprint_of ?resp))),
      tn_tokens = map unat (tokens (capped (fingerprint_of ?resp)))\<rparr>"
  have "CREDENTIAL \<noteq> []" by (simp add: CREDENTIAL_def)
  then have out: "CREDENTIAL \<in> set (candidate_tokens (join_with '' '' (rq_values (bare_request L q))))"
    using token_within [OF credential_token(1) _ assms(16,17)] candidate_tokens_join [OF assms(15)] by blast
  have "fp_in rep = capped (fingerprint_of ?resp)" by (simp add: fp_in_def rep_def)
  then have "\<exists>dec tmo d' r. judge L now q (fold (\<lambda>(t, r). take_taint t r) (bef @ (t0, rep) # later) d0) =
      (Returned (dec, Some t, tmo), d') \<and> settle q dec (Some t) d' = Some r \<and> verdict_of r = Deny ''taint_exfil'' (agent_message dec)"
    by (rule leak_denied [OF _ assms(12-14) credential_token(2) tok out assms(18-27) refl])
  then show ?thesis using sent line by (auto simp: taint_message_def rep_def)
qed

theorem leaky_server_gets_nothing_out_witness:
  "\<exists>parse c1 rep dec tmo d' r.
     client_decide parse (Line ''v'') an_agent \<lparr>ctx_method = ''tools/call'', ctx_frame = ''q''\<rparr> = (Inr Allow, c1) \<and>
     cl_sent (observe_response parse (\<lambda>x. x) (\<lambda>_. ''x'' @ quoted ENV_FILE) (''x'' @ quoted ENV_FILE) c1) =
       [CDecide (decide_message \<lparr>ctx_method = ''tools/call'', ctx_frame = ''q''\<rparr> an_agent), CTaint rep] \<and>
     judge (leak_libs CREDENTIAL) 9 plain_call (take_taint 5 rep (plain_daemon default_policy)) = (Returned (dec, Some ''webfetch'', tmo), d') \<and>
     settle plain_call dec (Some ''webfetch'') d' = Some r \<and> verdict_of r = Deny ''taint_exfil'' (agent_message dec)"
proof -
  let ?i = "JNumber ''1''" and ?render = "\<lambda>_ :: json. ''x'' @ quoted ENV_FILE"
  let ?v = "JObject [(''id'', ?i), (''method'', JString ''tools/call''), (''params'', JObject [(''name'', JString ''read_file'')])]"
  let ?ok = "SVerdict \<lparr>dr_outcome = OAllow, dr_rule = None, dr_message = [], dr_forever = False\<rparr>"
  let ?parse = "\<lambda>s. if s = ''q'' then Some ?v else if s = ''v'' then Some (enc_server ?ok) else Some (text_result ?i ENV_FILE)"
  let ?ctx = "\<lparr>ctx_method = ''tools/call'', ctx_frame = ''q''\<rparr>"
  have "dec_server (enc_server ?ok) = Some ?ok" by (rule dec_enc_server) simp
  then have "verdict_in ?parse ''v'' = Some \<lparr>dr_outcome = OAllow, dr_rule = None, dr_message = [], dr_forever = False\<rparr>"
    by (simp add: verdict_in_def del: enc_server.simps)
  then obtain c1 where c1: "client_decide ?parse (Line ''v'') an_agent ?ctx = (Inr Allow, c1)"
    by (simp add: client_decide_def sendable_def decide_message_def Let_def verdict_of_def an_agent_def del: enc_server.simps)
  have nothing_sent: "cl_sent an_agent = []" by (simp add: an_agent_def)
  have q: "?render (text_result ?i ENV_FILE) \<noteq> ''q''" "?render (text_result ?i ENV_FILE) \<noteq> ''v''"
    by (simp_all add: quoted_def)
  have u: "utf8_valid (?render (text_result ?i ENV_FILE))"
  proof (rule utf8_valid_ascii)
    have "list_all (\<lambda>c. byte c < 128) (''x'' @ quoted ENV_FILE)" by code_simp
    then show "byte c < 128" if "c \<in> set (?render (text_result ?i ENV_FILE))" for c using that by (auto simp: list_all_iff)
  qed
  have r: "contains_sub (msg_tool ?v) ''read''" "msg_method ?v = ''tools/call''"
    by (simp_all add: msg_tool_def msg_method_def contains_sub_def starts_with_def)
  have arg: "\<not> looks_like_path CREDENTIAL" by code_simp
  note req = leak_request [OF arg, of plain_call]
  have secrets: "collect_secrets (rq_values (bare_request (leak_libs CREDENTIAL) plain_call)) [] = Returned []"
    unfolding req by code_simp
  have out: "[] @ CREDENTIAL @ [] \<in> set (rq_values (bare_request (leak_libs CREDENTIAL) plain_call))"
    unfolding req by simp
  have fid: "frame_id ?parse (ctx_frame ?ctx) = Some ''1''" by (simp add: frame_id_def)
  have parsed: "?parse (?render (text_result ?i ENV_FILE)) = Some (text_result ?i ENV_FILE)" using q by simp
  have "\<exists>rep dec tmo d' r. cl_sent (observe_response ?parse (\<lambda>x. x) ?render (butlast (?render (text_result ?i ENV_FILE) @ [NL])) c1) =
      cl_sent an_agent @ [CDecide (decide_message ?ctx an_agent), CTaint rep] \<and>
    judge (leak_libs CREDENTIAL) 9 plain_call (fold (\<lambda>(t, r). take_taint t r) ([] @ (5, rep) # []) (plain_daemon default_policy)) =
      (Returned (dec, Some ''webfetch'', tmo), d') \<and>
    settle plain_call dec (Some ''webfetch'') d' = Some r \<and> verdict_of r = Deny ''taint_exfil'' (agent_message dec)"
    by (rule leaky_server_gets_nothing_out [where a = "''x''" and b = "[]" and render = ?render, OF _ u parsed _ _ fid r(2,1) leaky_read [OF _ r(2,1)] c1 _ plain_daemon_fresh(1)
          _ _ out _ _ leak_policy(1) secrets _ leak_policy(2,3) req(2) leak_outbound _ req(4)])
      (simp_all add: req TTL_def matching_override_def an_agent_def)
  then have "\<exists>rep dec tmo d' r. cl_sent (observe_response ?parse (\<lambda>x. x) ?render (''x'' @ quoted ENV_FILE) c1) =
      [CDecide (decide_message ?ctx an_agent), CTaint rep] \<and>
    judge (leak_libs CREDENTIAL) 9 plain_call (take_taint 5 rep (plain_daemon default_policy)) = (Returned (dec, Some ''webfetch'', tmo), d') \<and>
    settle plain_call dec (Some ''webfetch'') d' = Some r \<and> verdict_of r = Deny ''taint_exfil'' (agent_message dec)"
    unfolding nothing_sent by simp
  then show ?thesis using c1 by blast
qed

section \<open>A way out\<close>













end
