(* ===== verification/Prompts.thy ===== *)
theory Prompts
  imports Gate
begin

text \<open>
  How the questions of \<open>ask\<close> reach the interfaces (\<open>Subscribe\<close> in \<open>Daemon::handle\<close> of \<open>daemon/mod.rs\<close>, the
  sends of \<open>daemon/decide.rs\<close>): one broadcast channel, a receiver and a task for each interface.  The
  calls are those of Daemon_System; here their prompts and withdrawals are put on the channel, and
  the tasks write what they receive.
\<close>

section \<open>The channel\<close>

definition PROMPT_CHANNEL :: nat where "PROMPT_CHANNEL = 64"

datatype received = Empty | Got server_message | Lagged

text \<open>
  \<open>recv sent n\<close> is what a receiver gets that is to read message \<open>n\<close> of those sent so far.  The channel
  is the runtime's; documented of it is that messages come in order, and that a receiver gets them
  unless it has fallen behind by more than the capacity.
\<close>

type_synonym receiver = "server_message list \<Rightarrow> nat \<Rightarrow> received"

definition broadcast_ok :: "receiver \<Rightarrow> bool" where
  "broadcast_ok recv \<longleftrightarrow> (\<forall>sent n. n \<le> length sent \<longrightarrow>
     (case recv sent n of
        Empty \<Rightarrow> n = length sent
      | Got m \<Rightarrow> n < length sent \<and> m = sent ! n
      | Lagged \<Rightarrow> n + PROMPT_CHANNEL < length sent))"

definition window :: receiver where
  "window sent n =
     (if length sent \<le> n then Empty else if n + PROMPT_CHANNEL < length sent then Lagged else Got (sent ! n))"

lemma broadcast_ok_window: "broadcast_ok window"
  by (simp add: broadcast_ok_def window_def)

section \<open>The interfaces\<close>

text \<open>
  \<open>if_start\<close> and \<open>if_next\<close> are positions on the channel: where the receiver was created and what it reads
  next.  \<open>if_counted\<close> is the length of the channel when \<open>subscribers\<close> was incremented, \<open>if_left\<close> that it
  was decremented again, \<open>if_live\<close> that the task of the receiver still runs, \<open>if_out\<close> what it wrote.
\<close>

record iface =
  if_start :: nat
  if_next :: nat
  if_counted :: "nat option"
  if_left :: bool
  if_live :: bool
  if_out :: "server_message list"

record 's hub =
  hb_system :: "'s system"
  hb_sent :: "server_message list"
  hb_ifaces :: "nat \<Rightarrow> iface option"

definition new_iface :: "nat \<Rightarrow> iface" where
  "new_iface n = \<lparr>if_start = n, if_next = n, if_counted = None, if_left = False, if_live = True, if_out = []\<rparr>"

definition set_iface :: "nat \<Rightarrow> iface \<Rightarrow> 's hub \<Rightarrow> 's hub" where
  "set_iface c f h = h\<lparr>hb_ifaces := (hb_ifaces h)(c \<mapsto> f)\<rparr>"

definition set_system :: "'s system \<Rightarrow> 's hub \<Rightarrow> 's hub" where
  "set_system s h = h\<lparr>hb_system := s\<rparr>"

definition add_subscriber :: "'s system \<Rightarrow> 's system" where
  "add_subscriber s = s\<lparr>sy_daemon := (sy_daemon s)\<lparr>dm_subscribers := dm_subscribers (sy_daemon s) + 1\<rparr>\<rparr>"

definition drop_subscriber :: "'s system \<Rightarrow> 's system" where
  "drop_subscriber s = s\<lparr>sy_daemon := (sy_daemon s)\<lparr>dm_subscribers := dm_subscribers (sy_daemon s) - 1\<rparr>\<rparr>"

text \<open>A send succeeds when there is a receiver.\<close>

definition received_by_someone :: "'s hub \<Rightarrow> bool" where
  "received_by_someone h \<longleftrightarrow> (\<exists>c f. hb_ifaces h c = Some f \<and> if_live f)"

definition broadcast :: "server_message \<Rightarrow> 's hub \<Rightarrow> 's hub" where
  "broadcast m h = h\<lparr>hb_sent := hb_sent h @ [m]\<rparr>"

text \<open>The steps of the calls that do not touch the channel or the counter.\<close>

definition quiet :: "'s system \<Rightarrow> 's system \<Rightarrow> bool" where
  "quiet s s' \<longleftrightarrow> dm_subscribers (sy_daemon s') = dm_subscribers (sy_daemon s) \<and>
     (\<forall>t q dec tool. sy_tasks s t = Some (Opening q dec tool) \<longrightarrow> sy_tasks s' t = sy_tasks s t) \<and>
     (\<forall>t i q dec tool. sy_tasks s t = Some (Waiting i q dec tool) \<longrightarrow>
        sy_tasks s' t = sy_tasks s t \<or> (\<exists>a. sy_tasks s' t = Some (Answered a q dec tool)))"

text \<open>
  One step: of a call (\<open>elsewhere\<close>, and the three that send), of the connection of an interface
  (\<open>joins\<close> and \<open>counts\<close> are the two halves of \<open>Subscribe\<close>, in the order of the code; \<open>leaves\<close> is the end
  of its stream), or of its forwarding task.  The timeout that a prompt announces is left open in \<open>sends\<close>, so that what holds of every
  hub holds of one whose prompts carry the timeout of the policy.
\<close>

inductive hub_step :: "receiver \<Rightarrow> ('g, 's) libs \<Rightarrow> 's hub \<Rightarrow> 's hub \<Rightarrow> bool"
  for recv :: receiver and L :: "('g, 's) libs" where
  elsewhere: "sys_step L (hb_system h) s \<Longrightarrow> quiet (hb_system h) s \<Longrightarrow> hub_step recv L h (set_system s h)"
| sends: "sy_tasks (hb_system h) t = Some (Opening q dec tool) \<Longrightarrow> received_by_someone h \<Longrightarrow>
    open_prompt (sy_daemon (hb_system h)) = (i, d) \<Longrightarrow>
    hub_step recv L h (broadcast (SPrompt (make_prompt L i q dec tool timeout))
      (set_system (at t (Waiting i q dec tool) d (hb_system h)) h))"
| nobody: "sy_tasks (hb_system h) t = Some (Opening q dec tool) \<Longrightarrow> \<not> received_by_someone h \<Longrightarrow>
    open_prompt (sy_daemon (hb_system h)) = (i, d) \<Longrightarrow>
    hub_step recv L h (set_system (at t (Abandoned i ''interface unreachable'' q dec tool) d (hb_system h)) h)"
| withdraws: "sy_tasks (hb_system h) t = Some (Waiting i q dec tool) \<Longrightarrow>
    hub_step recv L h ((if received_by_someone h then broadcast (SWithdraw i) else id)
      (set_system (at t (Abandoned i ''confirmation timed out'' q dec tool) (sy_daemon (hb_system h)) (hb_system h)) h))"
| joins: "hb_ifaces h c = None \<Longrightarrow> hub_step recv L h (set_iface c (new_iface (length (hb_sent h))) h)"
| counts: "hb_ifaces h c = Some f \<Longrightarrow> if_counted f = None \<Longrightarrow>
    hub_step recv L h (set_iface c (f\<lparr>if_counted := Some (length (hb_sent h))\<rparr>)
      (set_system (add_subscriber (hb_system h)) h))"
| forwards: "hb_ifaces h c = Some f \<Longrightarrow> if_live f \<Longrightarrow> recv (hb_sent h) (if_next f) = Got m \<Longrightarrow>
    hub_step recv L h (set_iface c (f\<lparr>if_next := if_next f + 1, if_out := if_out f @ [m]\<rparr>) h)"
| breaks: "hb_ifaces h c = Some f \<Longrightarrow> if_live f \<Longrightarrow> recv (hb_sent h) (if_next f) = Got m \<Longrightarrow>
    hub_step recv L h (set_iface c (f\<lparr>if_live := False\<rparr>) h)"
| lags: "hb_ifaces h c = Some f \<Longrightarrow> if_live f \<Longrightarrow> recv (hb_sent h) (if_next f) = Lagged \<Longrightarrow>
    hub_step recv L h (set_iface c (f\<lparr>if_live := False\<rparr>) h)"
| leaves: "hb_ifaces h c = Some f \<Longrightarrow> if_counted f \<noteq> None \<Longrightarrow> \<not> if_left f \<Longrightarrow>
    hub_step recv L h (set_iface c (f\<lparr>if_left := True\<rparr>) (set_system (drop_subscriber (hb_system h)) h))"

definition fresh_hub :: "'s system \<Rightarrow> 's hub" where
  "fresh_hub s = \<lparr>hb_system = s, hb_sent = [], hb_ifaces = (\<lambda>c. None)\<rparr>"

inductive hub_reach :: "receiver \<Rightarrow> ('g, 's) libs \<Rightarrow> 's hub \<Rightarrow> bool" for recv :: receiver and L :: "('g, 's) libs" where
  nothing_yet: "dm_subscribers (sy_daemon s) = 0 \<Longrightarrow> (\<And>t i q dec tool. sy_tasks s t \<noteq> Some (Waiting i q dec tool)) \<Longrightarrow>
    hub_reach recv L (fresh_hub s)"
| goes_on: "hub_reach recv L h \<Longrightarrow> hub_step recv L h h' \<Longrightarrow> hub_reach recv L h'"

lemma hub_simps [simp]:
  "hb_system (set_iface c f h) = hb_system h" "hb_sent (set_iface c f h) = hb_sent h"
  "hb_ifaces (set_iface c f h) = (hb_ifaces h)(c \<mapsto> f)"
  "hb_system (set_system s h) = s" "hb_sent (set_system s h) = hb_sent h" "hb_ifaces (set_system s h) = hb_ifaces h"
  "hb_system (broadcast m h) = hb_system h" "hb_sent (broadcast m h) = hb_sent h @ [m]"
  "hb_ifaces (broadcast m h) = hb_ifaces h"
  by (simp_all add: set_iface_def set_system_def broadcast_def)

lemma subscriber_simps [simp]:
  "sy_tasks (add_subscriber s) = sy_tasks s" "sy_tasks (drop_subscriber s) = sy_tasks s"
  "dm_subscribers (sy_daemon (add_subscriber s)) = dm_subscribers (sy_daemon s) + 1"
  "dm_subscribers (sy_daemon (drop_subscriber s)) = dm_subscribers (sy_daemon s) - 1"
  by (simp_all add: add_subscriber_def drop_subscriber_def)

section \<open>The calls do not notice\<close>

text \<open>Seen without the channel and the interfaces, a step is a step of Daemon_System, or none.\<close>

lemma subscriber_steps: "sys_step L s (add_subscriber s)" "sys_step L s (drop_subscriber s)"
  unfolding add_subscriber_def drop_subscriber_def by (rule sys_step.subscribes sys_step.leaves)+

lemma hub_step_system:
  "hub_step recv L h h' \<Longrightarrow> hb_system h' = hb_system h \<or> sys_step L (hb_system h) (hb_system h')"
  by (induction rule: hub_step.induct)
    (auto simp: subscriber_steps intro: sys_step.prompts sys_step.unreachable sys_step.expires)

lemma hub_reach_system:
  assumes "(hub_step recv L)\<^sup>*\<^sup>* h h'"
  shows "(sys_step L)\<^sup>*\<^sup>* (hb_system h) (hb_system h')"
  using assms
  by induction (auto dest: hub_step_system intro: rtranclp.rtrancl_into_rtrancl)

section \<open>What each interface has been sent\<close>

definition iface_ok :: "server_message list \<Rightarrow> iface \<Rightarrow> bool" where
  "iface_ok sent f \<longleftrightarrow> if_start f \<le> if_next f \<and> if_next f \<le> length sent \<and>
     if_out f = take (if_next f - if_start f) (drop (if_start f) sent) \<and>
     (if_counted f = None \<longrightarrow> \<not> if_left f) \<and>
     (\<forall>k. if_counted f = Some k \<longrightarrow> if_start f \<le> k \<and> k \<le> length sent)"

lemma iface_ok_more: "iface_ok sent f \<Longrightarrow> iface_ok (sent @ [m]) f"
  by (auto simp: iface_ok_def)

lemma iface_ok_new: "iface_ok sent (new_iface (length sent))"
  by (simp add: iface_ok_def new_iface_def)

lemma iface_ok_counted: "iface_ok sent f \<Longrightarrow> if_counted f = None \<Longrightarrow> iface_ok sent (f\<lparr>if_counted := Some (length sent)\<rparr>)"
  by (simp add: iface_ok_def)

lemma iface_ok_dead: "iface_ok sent f \<Longrightarrow> iface_ok sent (f\<lparr>if_live := False\<rparr>)"
  by (simp add: iface_ok_def)

lemma iface_ok_left: "iface_ok sent f \<Longrightarrow> if_counted f \<noteq> None \<Longrightarrow> iface_ok sent (f\<lparr>if_left := True\<rparr>)"
  by (auto simp: iface_ok_def)

lemma iface_ok_got:
  assumes "iface_ok sent f" and "if_next f < length sent" and "m = sent ! if_next f"
  shows "iface_ok sent (f\<lparr>if_next := Suc (if_next f), if_out := if_out f @ [m]\<rparr>)"
proof -
  have "if_next f - if_start f < length (drop (if_start f) sent)"
    and "drop (if_start f) sent ! (if_next f - if_start f) = m"
    using assms by (auto simp: iface_ok_def)
  then show ?thesis
    using assms by (auto simp: iface_ok_def Suc_diff_le take_Suc_conv_app_nth)
qed

lemma receives_next: "broadcast_ok recv \<Longrightarrow> iface_ok sent f \<Longrightarrow> recv sent (if_next f) = Got m \<Longrightarrow>
    if_next f < length sent \<and> m = sent ! if_next f"
  by (fastforce simp: broadcast_ok_def iface_ok_def)

definition counted :: "'s hub \<Rightarrow> nat set" where
  "counted h = {c. \<exists>f. hb_ifaces h c = Some f \<and> if_counted f \<noteq> None \<and> \<not> if_left f}"

definition put :: "('g, 's) libs \<Rightarrow> 's hub \<Rightarrow> bool" where
  "put L h \<longleftrightarrow> (\<forall>t i q dec tool. sy_tasks (hb_system h) t = Some (Waiting i q dec tool) \<longrightarrow>
     (\<exists>timeout. SPrompt (make_prompt L i q dec tool timeout) \<in> set (hb_sent h)))"

definition hub_ok :: "('g, 's) libs \<Rightarrow> 's hub \<Rightarrow> bool" where
  "hub_ok L h \<longleftrightarrow> (\<forall>c f. hb_ifaces h c = Some f \<longrightarrow> iface_ok (hb_sent h) f) \<and> finite (dom (hb_ifaces h)) \<and>
     dm_subscribers (sy_daemon (hb_system h)) = card (counted h) \<and> put L h"

lemma counted_simps [simp]:
  "counted (set_system s h) = counted h" "counted (broadcast m h) = counted h"
  by (simp_all add: counted_def)

lemma counted_set: "counted (set_iface c f h) =
    (if if_counted f \<noteq> None \<and> \<not> if_left f then insert c (counted h) else counted h - {c})"
  by (auto simp: counted_def)

lemma counted_finite: "finite (dom (hb_ifaces h)) \<Longrightarrow> finite (counted h)"
  by (rule finite_subset [rotated]) (auto simp: counted_def)

lemma ifaces_kept:
  assumes "broadcast_ok recv" and "hub_step recv L h h'"
    and "\<forall>c f. hb_ifaces h c = Some f \<longrightarrow> iface_ok (hb_sent h) f"
  shows "\<forall>c f. hb_ifaces h' c = Some f \<longrightarrow> iface_ok (hb_sent h') f"
  using assms(2,3)
  by (induction rule: hub_step.induct)
    (auto simp: iface_ok_more iface_ok_new iface_ok_counted iface_ok_dead iface_ok_left
      intro!: iface_ok_got dest: receives_next [OF assms(1)] split: if_splits)

lemma dom_kept: "hub_step recv L h h' \<Longrightarrow> finite (dom (hb_ifaces h)) \<Longrightarrow> finite (dom (hb_ifaces h'))"
  by (induction rule: hub_step.induct) auto

lemma sys_count_at [simp]: "sy_daemon (at t ph d s) = d"
  by (simp add: at_def)

lemma count_kept:
  assumes "hub_step recv L h h'" and "dm_subscribers (sy_daemon (hb_system h)) = card (counted h)"
    and "finite (counted h)" and "\<forall>c f. hb_ifaces h c = Some f \<longrightarrow> iface_ok (hb_sent h) f"
  shows "dm_subscribers (sy_daemon (hb_system h')) = card (counted h')"
  using assms
proof (induction rule: hub_step.induct)
  case (elsewhere h s)
  then show ?case by (simp add: quiet_def)
next
  case (joins h c)
  then have "c \<notin> counted h" by (simp add: counted_def)
  then show ?case using joins by (simp add: counted_set new_iface_def)
next
  case (counts h c f)
  then have "c \<notin> counted h" "\<not> if_left f" by (auto simp: counted_def iface_ok_def)
  then show ?case using counts by (simp add: counted_set)
next
  case (leaves h c f)
  then have "c \<in> counted h" by (auto simp: counted_def)
  then show ?case using leaves by (simp add: counted_set card_Diff_singleton)
next
  case (forwards h c f m)
  then have "c \<in> counted h \<longleftrightarrow> if_counted f \<noteq> None \<and> \<not> if_left f" by (auto simp: counted_def)
  then show ?case using forwards by (auto simp: counted_set insert_absorb)
next
  case (breaks h c f m)
  then have "c \<in> counted h \<longleftrightarrow> if_counted f \<noteq> None \<and> \<not> if_left f" by (auto simp: counted_def)
  then show ?case using breaks by (auto simp: counted_set insert_absorb)
next
  case (lags h c f)
  then have "c \<in> counted h \<longleftrightarrow> if_counted f \<noteq> None \<and> \<not> if_left f" by (auto simp: counted_def)
  then show ?case using lags by (auto simp: counted_set insert_absorb)
qed (auto simp: open_prompt_def Let_def)

lemma quiet_waiting:
  "sys_step L s s' \<Longrightarrow> quiet s s' \<Longrightarrow> sy_tasks s' t = Some (Waiting i q dec tool) \<Longrightarrow> sy_tasks s t = Some (Waiting i q dec tool)"
proof (induction rule: sys_step.induct)
  case (prompts s t' q' dec' tool' i' d)
  then have "sy_tasks (at t' (Waiting i' q' dec' tool') d s) t' = sy_tasks s t'" unfolding quiet_def by blast
  then show ?case using prompts by (simp add: at_def)
qed (auto simp: at_def split: if_splits)

lemma put_kept: "hub_step recv L h h' \<Longrightarrow> put L h \<Longrightarrow> put L h'"
proof (induction rule: hub_step.induct)
  case (elsewhere h s)
  then show ?case using quiet_waiting [OF elsewhere(1,2)] unfolding put_def by (metis hub_simps(4,5))
next
  case (sends h t q dec tool i d timeout)
  then show ?case unfolding put_def at_def by (fastforce split: if_splits)
qed (auto simp: put_def at_def split: if_splits)

lemma hub_reach_ok:
  assumes "broadcast_ok recv" and "hub_reach recv L h"
  shows "hub_ok L h"
  using assms(2)
proof induction
  case (nothing_yet s)
  then show ?case by (simp add: hub_ok_def fresh_hub_def counted_def put_def dom_def)
next
  case (goes_on h h')
  then show ?case
    using ifaces_kept [OF assms(1) goes_on(2)] dom_kept [OF goes_on(2)] count_kept [OF goes_on(2)]
      put_kept [OF goes_on(2)] counted_finite
    unfolding hub_ok_def by blast
qed

section \<open>Every question is put\<close>

text \<open>
  C17: while a call waits for the user, its prompt is on the channel, and every interface that was counted
  before the prompt was sent and has read what is on the channel has been shown it, the prompt of
  this call and no other.  No interface is shown anything out of order, twice, or from before it subscribed, and the
  daemon counts exactly the interfaces whose stream has not ended in an orderly way.
\<close>

theorem every_question_is_put:
  assumes "broadcast_ok recv" and "hub_reach recv L h"
  shows "(\<forall>t i q dec tool. sy_tasks (hb_system h) t = Some (Waiting i q dec tool) \<longrightarrow>
      (\<exists>timeout j. j < length (hb_sent h) \<and> hb_sent h ! j = SPrompt (make_prompt L i q dec tool timeout) \<and>
        (\<forall>c f k. hb_ifaces h c = Some f \<and> if_counted f = Some k \<and> k \<le> j \<and> if_next f = length (hb_sent h) \<longrightarrow>
           SPrompt (make_prompt L i q dec tool timeout) \<in> set (if_out f)))) \<and>
    (\<forall>c f. hb_ifaces h c = Some f \<longrightarrow> if_out f @ drop (if_next f) (hb_sent h) = drop (if_start f) (hb_sent h)) \<and>
    dm_subscribers (sy_daemon (hb_system h)) =
      card {c. \<exists>f. hb_ifaces h c = Some f \<and> if_counted f \<noteq> None \<and> \<not> if_left f}"
proof -
  have ok: "hub_ok L h" by (rule hub_reach_ok [OF assms])
  have seg: "if_out f @ drop (if_next f) (hb_sent h) = drop (if_start f) (hb_sent h)" if "iface_ok (hb_sent h) f" for f
    using that append_take_drop_id [of "if_next f - if_start f" "drop (if_start f) (hb_sent h)"]
    by (simp add: iface_ok_def)
  have shown: "hb_sent h ! j \<in> set (if_out f)"
    if "iface_ok (hb_sent h) f" "if_counted f = Some k" "k \<le> j" "if_next f = length (hb_sent h)" "j < length (hb_sent h)" for f k j
  proof -
    have "if_out f = drop (if_start f) (hb_sent h)" "if_start f \<le> j" using seg [OF that(1)] that by (auto simp: iface_ok_def)
    moreover have "drop (if_start f) (hb_sent h) ! (j - if_start f) = hb_sent h ! j" using calculation(2) that(5) by simp
    moreover have "j - if_start f < length (drop (if_start f) (hb_sent h))" using calculation(2) that(5) by simp
    ultimately show ?thesis using nth_mem by metis
  qed
  show ?thesis
  proof (intro conjI allI impI)
    fix t i q dec tool assume "sy_tasks (hb_system h) t = Some (Waiting i q dec tool)"
    then obtain timeout j where j: "j < length (hb_sent h)" "hb_sent h ! j = SPrompt (make_prompt L i q dec tool timeout)"
      using ok unfolding hub_ok_def put_def by (metis in_set_conv_nth)
    then show "\<exists>timeout j. j < length (hb_sent h) \<and> hb_sent h ! j = SPrompt (make_prompt L i q dec tool timeout) \<and>
        (\<forall>c f k. hb_ifaces h c = Some f \<and> if_counted f = Some k \<and> k \<le> j \<and> if_next f = length (hb_sent h) \<longrightarrow>
           SPrompt (make_prompt L i q dec tool timeout) \<in> set (if_out f))"
      using shown ok unfolding hub_ok_def by metis
  next
    fix c f assume "hb_ifaces h c = Some f"
    then show "if_out f @ drop (if_next f) (hb_sent h) = drop (if_start f) (hb_sent h)"
      using seg ok unfolding hub_ok_def by blast
  next
    show "dm_subscribers (sy_daemon (hb_system h)) =
        card {c. \<exists>f. hb_ifaces h c = Some f \<and> if_counted f \<noteq> None \<and> \<not> if_left f}"
      using ok by (simp add: hub_ok_def counted_def)
  qed
qed

section \<open>An interface that falls behind\<close>






text \<open>A burst: every task has a question, one interface has subscribed and reads nothing.\<close>

definition plain_ask :: decision where
  "plain_ask = \<lparr>d_action = AAsk, d_rule = None, d_severity = Info, d_message = ''default policy'', d_findings = []\<rparr>"

definition burst :: "bytes list system" where
  "burst = \<lparr>sy_daemon = plain_daemon policy_file_default,
     sy_tasks = (\<lambda>t. Some (Opening plain_call plain_ask None)), sy_heard = []\<rparr>"

lemma burst_reach:
  "\<exists>h. hub_reach window plain_libs h \<and> length (hb_sent h) = n \<and>
     hb_ifaces h = [0 \<mapsto> (new_iface 0)\<lparr>if_counted := Some 0\<rparr>] \<and>
     (\<forall>t < n. \<exists>i. sy_tasks (hb_system h) t = Some (Waiting i plain_call plain_ask None)) \<and>
     (\<forall>t \<ge> n. sy_tasks (hb_system h) t = Some (Opening plain_call plain_ask None))"
proof (induction n)
  case 0
  let ?h = "fresh_hub burst"
  let ?h2 = "set_iface 0 ((new_iface 0)\<lparr>if_counted := Some 0\<rparr>)
      (set_system (add_subscriber burst) (set_iface 0 (new_iface 0) ?h))"
  have "hub_reach window plain_libs ?h"
    by (rule hub_reach.nothing_yet) (simp_all add: burst_def plain_daemon_def daemon_new_def)
  moreover have "hub_step window plain_libs ?h (set_iface 0 (new_iface 0) ?h)"
    using hub_step.joins [of ?h 0 window plain_libs] by (simp add: fresh_hub_def)
  moreover have "hub_step window plain_libs (set_iface 0 (new_iface 0) ?h) ?h2"
    using hub_step.counts [of "set_iface 0 (new_iface 0) ?h" 0 "new_iface 0" window plain_libs]
    by (simp add: fresh_hub_def new_iface_def)
  ultimately have "hub_reach window plain_libs ?h2" by (meson hub_reach.goes_on)
  then show ?case by (intro exI [of _ ?h2]) (simp add: fresh_hub_def burst_def)
next
  case (Suc n)
  then obtain h where h: "hub_reach window plain_libs h" "length (hb_sent h) = n"
    "hb_ifaces h = [0 \<mapsto> (new_iface 0)\<lparr>if_counted := Some 0\<rparr>]"
    "\<forall>t < n. \<exists>i. sy_tasks (hb_system h) t = Some (Waiting i plain_call plain_ask None)"
    "\<forall>t \<ge> n. sy_tasks (hb_system h) t = Some (Opening plain_call plain_ask None)" by blast
  obtain i d where o: "open_prompt (sy_daemon (hb_system h)) = (i, d)" by fastforce
  have "received_by_someone h" unfolding received_by_someone_def
    using h(3) by (intro exI [of _ 0] exI [of _ "(new_iface 0)\<lparr>if_counted := Some 0\<rparr>"]) (simp add: new_iface_def)
  then have "hub_step window plain_libs h (broadcast (SPrompt (make_prompt plain_libs i plain_call plain_ask None 60))
      (set_system (at n (Waiting i plain_call plain_ask None) d (hb_system h)) h))" (is "hub_step _ _ _ ?h'")
    using h(5) o by (intro hub_step.sends) auto
  then have "hub_reach window plain_libs ?h'" by (rule hub_reach.goes_on [OF h(1)])
  then show ?case
    using h by (intro exI [of _ ?h']) (auto simp: at_def less_Suc_eq)
qed


theorem every_question_is_put_witness:
  "\<exists>h i f timeout. hub_reach window plain_libs h \<and> sy_tasks (hb_system h) 0 = Some (Waiting i plain_call plain_ask None) \<and>
    hb_ifaces h 0 = Some f \<and> SPrompt (make_prompt plain_libs i plain_call plain_ask None timeout) \<in> set (if_out f)"
proof -
  let ?f = "(new_iface 0)\<lparr>if_counted := Some 0\<rparr>"
  obtain h i where h: "hub_reach window plain_libs h" "hb_ifaces h 0 = Some ?f" "length (hb_sent h) = 1"
    "sy_tasks (hb_system h) 0 = Some (Waiting i plain_call plain_ask None)" using burst_reach [of 1] by auto
  let ?g = "?f\<lparr>if_next := 1, if_out := [hb_sent h ! 0]\<rparr>"
  have "hub_step window plain_libs h (set_iface 0 ?g h)"
    using hub_step.forwards [of h 0 ?f window "hb_sent h ! 0" plain_libs] h(2,3)
    by (simp add: window_def new_iface_def PROMPT_CHANNEL_def)
  then have r: "hub_reach window plain_libs (set_iface 0 ?g h)" by (rule hub_reach.goes_on [OF h(1)])
  note put = every_question_is_put [OF broadcast_ok_window r, THEN conjunct1, rule_format]
  obtain timeout j where j: "j < length (hb_sent h)"
    and s: "\<forall>c f k. hb_ifaces (set_iface 0 ?g h) c = Some f \<and> if_counted f = Some k \<and> k \<le> j \<and> if_next f = length (hb_sent h) \<longrightarrow>
       SPrompt (make_prompt plain_libs i plain_call plain_ask None timeout) \<in> set (if_out f)"
    using put [of 0 i plain_call plain_ask None] h(4) by auto
  have "SPrompt (make_prompt plain_libs i plain_call plain_ask None timeout) \<in> set (if_out ?g)"
    using s [rule_format, of 0 ?g 0] h(3) by simp
  then show ?thesis using r h(4) by (intro exI [of _ "set_iface 0 ?g h"]) auto
qed

end
