(* ===== verification/Broken_Pipe.thy ===== *)
theory Broken_Pipe
  imports Relay
begin

text \<open>
  \<open>transport/stdio.rs\<close> with a peer that goes away: the pump of Relay again, over a writer that takes
  a number of bytes and then fails.  The \<open>?\<close> after every write is written out, so that a failed write
  ends the pump where it stands.  \<open>flush\<close> is taken to succeed.  The lemmas compare it with the pump
  of Relay, whose writes never fail.
\<close>

section \<open>A writer with so much room\<close>

datatype io_error = Broken

type_synonym 'd wire = "'d relay \<times> nat"

definition write_all :: "bytes \<Rightarrow> 'd wire \<Rightarrow> (io_error + unit) \<times> 'd wire" where
  "write_all p w =
     (let (r, n) = w in
      (if length p \<le> n then Inr () else Inl Broken, (r\<lparr>rl_out := rl_out r @ take n p\<rparr>, n - length p)))"

definition handle_to :: "parser \<Rightarrow> printer \<Rightarrow> 'd pump \<Rightarrow> frame \<Rightarrow> 'd wire \<Rightarrow> (io_error + bool) \<times> 'd wire" where
  "handle_to parse render P f w =
     (let (v, r1) = judge_frame P f (fst w);
          r2 = note_down (OnFrame (frame_seen P f v)) r1
      in case v of
           Some (Deny rule msg) \<Rightarrow>
             (Inr False,
              (case deny_response parse render (content f) rule msg of
                 Some payload \<Rightarrow> if pu_return P then r2\<lparr>rl_denied := rl_denied r2 @ [payload]\<rparr> else r2
               | None \<Rightarrow> note_down (OnAnomaly (DeniedWithoutId (pu_direction P))) r2, snd w))
         | _ \<Rightarrow>
             (case write_all (raw f) (r2, snd w) of
                (Inl e, w') \<Rightarrow> (Inl e, w')
              | (Inr _, w') \<Rightarrow> (Inr True, w')))"

text \<open>The frames of one read: the first write that fails leaves the loop, and the frames after it.\<close>

fun results_to ::
  "parser \<Rightarrow> printer \<Rightarrow> 'd pump \<Rightarrow> (frame_error + frame) list \<Rightarrow> 'd wire \<Rightarrow> (io_error + unit) \<times> 'd wire" where
  "results_to parse render P [] w = (Inr (), w)"
| "results_to parse render P (Inl (Oversize l) # xs) w =
     results_to parse render P xs (note_down (OnAnomaly (OversizeFrame (pu_direction P) l)) (fst w), snd w)"
| "results_to parse render P (Inr f # xs) w =
     (case handle_to parse render P f w of
        (Inl e, w') \<Rightarrow> (Inl e, w')
      | (Inr _, w') \<Rightarrow> results_to parse render P xs w')"

fun loop_to ::
  "(char \<Rightarrow> bytes \<Rightarrow> nat option) \<Rightarrow> parser \<Rightarrow> printer \<Rightarrow> 'd pump \<Rightarrow> input list \<Rightarrow> splitter \<Rightarrow> 'd wire
     \<Rightarrow> ((io_error + splitter) \<times> 'd wire) option" where
  "loop_to mc parse render P [] s w = Some (Inr s, w)"
| "loop_to mc parse render P (Inject payload # is) s w =
     (case write_all payload w of
        (Inl e, w') \<Rightarrow> Some (Inl e, w')
      | (Inr _, w') \<Rightarrow> loop_to mc parse render P is s w')"
| "loop_to mc parse render P (Read chunk # is) s w =
     (if chunk = [] then Some (Inr s, w)
      else Option.bind (drain (next_frame mc) (push chunk s)) (\<lambda>(results, s').
        case results_to parse render P results w of
          (Inl e, w') \<Rightarrow> Some (Inl e, w')
        | (Inr _, w') \<Rightarrow> loop_to mc parse render P is s' w'))"

definition end_to :: "parser \<Rightarrow> printer \<Rightarrow> 'd pump \<Rightarrow> splitter \<Rightarrow> 'd wire \<Rightarrow> (io_error + unit) \<times> 'd wire" where
  "end_to parse render P s w =
     (let (residue, s') = finish s;
          (res, w') =
            (case residue of
               None \<Rightarrow> (Inr (), w)
             | Some f \<Rightarrow>
                 (case handle_to parse render P f (note_down (OnAnomaly (Unterminated (pu_direction P))) (fst w), snd w) of
                    (Inl e, w1) \<Rightarrow> (Inl e, w1)
                  | (Inr wrote, w1) \<Rightarrow> if wrote \<and> \<not> is_terminated f then write_all [NL] w1 else (Inr (), w1)))
      in case res of
           Inl e \<Rightarrow> (Inl e, w')
         | Inr _ \<Rightarrow> (Inr (), (note_down (OnEof (pu_direction P) (fs_stats s')) (fst w'), snd w')))"

definition run_to ::
  "(char \<Rightarrow> bytes \<Rightarrow> nat option) \<Rightarrow> parser \<Rightarrow> printer \<Rightarrow> 'd pump \<Rightarrow> input list \<Rightarrow> 'd wire
     \<Rightarrow> ((io_error + unit) \<times> 'd wire) option" where
  "run_to mc parse render P is w =
     Option.bind (loop_to mc parse render P is (splitter_new (pu_max P)) w) (\<lambda>(res, w').
       case res of Inl e \<Rightarrow> Some (Inl e, w') | Inr s \<Rightarrow> Some (end_to parse render P s w'))"

section \<open>Cut short\<close>

text \<open>The pump only ever adds to what it has written, returned and told the observer.\<close>

definition grows :: "'d relay \<Rightarrow> 'd relay \<Rightarrow> bool" where
  "grows r r' \<longleftrightarrow> prefix (rl_out r) (rl_out r') \<and> prefix (rl_denied r) (rl_denied r') \<and> prefix (rl_notes r) (rl_notes r')"

lemma grows_refl [simp]: "grows r r"
  by (simp add: grows_def)

lemma grows_trans: "grows r r' \<Longrightarrow> grows r' r'' \<Longrightarrow> grows r r''"
  by (auto simp: grows_def intro: prefix_order.trans)

lemma grows_note [simp]: "grows r (note_down n r)"
  by (simp add: grows_def note_down_def)

lemma grows_out [simp]: "grows r (r\<lparr>rl_out := rl_out r @ p\<rparr>)"
  by (simp add: grows_def)

lemma grows_denied: "rl_denied r = d \<Longrightarrow> grows r (r\<lparr>rl_denied := d @ p\<rparr>)"
  by (simp add: grows_def)

text \<open>
  \<open>cut n r res w r'\<close>: with room for \<open>n\<close> bytes, either all that an unfailing writer gets on the way
  from \<open>r\<close> to \<open>r'\<close> got through, or exactly the first \<open>n\<close> bytes did.
\<close>

definition cut :: "nat \<Rightarrow> 'd relay \<Rightarrow> io_error + 'a \<Rightarrow> 'd wire \<Rightarrow> 'd relay \<Rightarrow> bool" where
  "cut n r res w r' \<longleftrightarrow> grows r r' \<and>
     (let s = drop (length (rl_out r)) (rl_out r') in
      if length s \<le> n then res \<noteq> Inl Broken \<and> w = (r', n - length s)
      else res = Inl Broken \<and> rl_out (fst w) = rl_out r @ take n s \<and>
        prefix (rl_denied (fst w)) (rl_denied r') \<and> prefix (rl_notes (fst w)) (rl_notes r'))"

lemma cut_done [simp]: "cut n r (Inr x) (r, n) r"
  by (simp add: cut_def)

lemma cut_silent:
  "grows r r' \<Longrightarrow> rl_out r' = rl_out r \<Longrightarrow> cut n r (Inr x) (r', n) r'"
  by (simp add: cut_def)

lemma cut_write:
  "write_all p (r, n) = (res, w) \<Longrightarrow> cut n r res w (r\<lparr>rl_out := rl_out r @ p\<rparr>)"
  by (auto simp: write_all_def cut_def Let_def split: if_splits)

lemma cut_then:
  assumes "cut n r (Inr x) (r1, n1) r1'" and "cut n1 r1 res w r2"
  shows "cut n r res w r2"
proof -
  obtain s1 s2 where s: "rl_out r1' = rl_out r @ s1" "rl_out r2 = rl_out r1 @ s2"
    using assms by (auto simp: cut_def grows_def prefix_def)
  have "r1' = r1" "length s1 \<le> n" "n1 = n - length s1"
    using assms(1) s(1) by (auto simp: cut_def Let_def split: if_splits)
  moreover have "grows r r2" using assms calculation(1) grows_trans unfolding cut_def by blast
  ultimately show ?thesis using assms(2) s by (auto simp: cut_def Let_def split: if_splits)
qed

lemma cut_stop:
  assumes "cut n r (Inl e) w r1" and "grows r1 r2"
  shows "cut n r (Inl e) w r2"
proof -
  obtain s1 s2 where s: "rl_out r1 = rl_out r @ s1" "rl_out r2 = rl_out r1 @ s2"
    using assms by (auto simp: cut_def grows_def prefix_def)
  have e: "e = Broken" by (cases e)
  have "n < length s1" using assms(1) s(1) e by (auto simp: cut_def Let_def split: if_splits)
  then show ?thesis
    using assms s e
    by (auto simp: cut_def grows_def Let_def split: if_splits intro: prefix_order.trans grows_trans)
qed

lemma cut_value: "cut n r (Inr x) w r' \<Longrightarrow> cut n r (Inr y) w r'"
  by (auto simp: cut_def Let_def split: if_splits)

text \<open>Every write, then every frame, read, loop and run is cut short by the room there is.\<close>

lemma judge_grows: "judge_frame P f r = (v, r') \<Longrightarrow> grows r r' \<and> rl_out r' = rl_out r"
  by (auto simp: judge_frame_def Let_def grows_def note_down_def
      split: direction.splits disposition.splits option.splits prod.splits sum.splits)

lemma handle_cut:
  assumes "handle parse render P f r = (b, r')" and "handle_to parse render P f (r, n) = (res, w)"
  shows "cut n r res w r' \<and> (\<forall>b'. res = Inr b' \<longrightarrow> b' = b)"
proof -
  obtain v r1 where j: "judge_frame P f r = (v, r1)" by fastforce
  let ?r = "note_down (OnFrame (frame_seen P f v)) r1"
  have seen: "grows r ?r" "rl_out ?r = rl_out r"
    using judge_grows [OF j] grows_trans [OF _ grows_note] by auto
  show ?thesis
  proof (cases "is_deny v")
    case True
    then have "grows ?r r' \<and> rl_out r' = rl_out ?r \<and> w = (r', n) \<and> res = Inr False \<and> b = False"
      using assms j
      by (auto simp: handle_def handle_to_def is_deny_def Let_def grows_denied split: option.splits verdict.splits if_splits)
    then show ?thesis using seen grows_trans by (metis cut_silent sum.inject(2))
  next
    case False
    obtain res1 w1 where wr: "write_all (raw f) (?r, n) = (res1, w1)" by (metis surj_pair)
    have r': "r' = ?r\<lparr>rl_out := rl_out ?r @ raw f\<rparr>" "b = True"
      and res: "w = w1" "res = (case res1 of Inl e \<Rightarrow> Inl e | Inr _ \<Rightarrow> Inr True)"
      using assms j wr False
      by (auto simp: handle_def handle_to_def is_deny_def Let_def split: option.splits verdict.splits sum.splits prod.splits)
    have c: "cut n r res1 w1 r'"
      using cut_then [OF cut_silent [OF seen] cut_write [OF wr]] r' by simp
    have "cut n r res w r'"
    proof (cases res1)
      case (Inl e)
      then show ?thesis using cut_stop [OF c [unfolded Inl] grows_refl] res by simp
    next
      case (Inr u)
      then show ?thesis using cut_value [OF c [unfolded Inr]] res by simp
    qed
    then show ?thesis using r' res by (auto split: sum.splits)
  qed
qed

lemma handle_grows: "grows r (snd (handle parse render P f r))"
  using handle_cut [of parse render P f r "fst (handle parse render P f r)" "snd (handle parse render P f r)"]
  by (metis cut_def prod.collapse)

lemma result_grows: "grows r (handle_result parse render P x r)"
proof (cases x)
  case (Inl e)
  then show ?thesis by (cases e) simp
qed (simp add: handle_grows)

lemma results_grow: "grows r (fold (handle_result parse render P) xs r)"
proof (induction xs arbitrary: r)
  case (Cons x xs)
  show ?case using grows_trans [OF result_grows Cons.IH] by simp
qed simp

lemma results_cut:
  "results_to parse render P xs (r, n) = (res, w) \<Longrightarrow> cut n r res w (fold (handle_result parse render P) xs r)"
proof (induction xs arbitrary: r n)
  case (Cons x xs)
  show ?case
  proof (cases x)
    case (Inl e)
    obtain l where e: "e = Oversize l" by (cases e)
    let ?r = "note_down (OnAnomaly (OversizeFrame (pu_direction P) l)) r"
    have "cut n r (Inr ()) (?r, n) ?r" by (rule cut_silent) simp_all
    then show ?thesis using cut_then Cons.IH [of ?r n] Cons.prems Inl e by fastforce
  next
    case (Inr f)
    obtain b r1 where h: "handle parse render P f r = (b, r1)" by fastforce
    obtain res1 r2 m where t: "handle_to parse render P f (r, n) = (res1, (r2, m))" by (metis prod.exhaust)
    note c = conjunct1 [OF handle_cut [OF h t]]
    show ?thesis
    proof (cases res1)
      case (Inl e)
      then show ?thesis using cut_stop [OF _ results_grow] c Cons.prems Inr h t by auto
    next
      case (Inr b')
      have "r2 = r1" using c Inr by (auto simp: cut_def Let_def split: if_splits)
      then show ?thesis using cut_then c Cons.IH [of r2 m] Cons.prems \<open>x = Inr f\<close> Inr h t by fastforce
    qed
  qed
qed (auto intro: cut_done)

lemma loop_grows: "pump_loop mc parse render P is s r = Some (s', r') \<Longrightarrow> grows r r'"
proof (induction mc parse render P "is" s r rule: pump_loop.induct)
  case (2 mc parse render P payload "is" s r)
  then show ?case using grows_trans [OF grows_out] by fastforce
next
  case (3 mc parse render P chunk "is" s r)
  then show ?case
    by (auto split: if_splits bind_splits) (meson grows_trans results_grow)
qed simp

lemma loop_cut:
  "pump_loop mc parse render P is s r = Some (s', r') \<Longrightarrow>
   \<exists>res w. loop_to mc parse render P is s (r, n) = Some (res, w) \<and> cut n r res w r' \<and> (\<forall>x. res = Inr x \<longrightarrow> x = s')"
proof (induction mc parse render P "is" s r arbitrary: n rule: pump_loop.induct)
  case (1 mc parse render P s r)
  then show ?case by simp
next
  case (2 mc parse render P payload "is" s r)
  obtain res1 r1 m where wr: "write_all payload (r, n) = (res1, (r1, m))" by (metis prod.exhaust)
  note c = cut_write [OF wr]
  show ?case
  proof (cases res1)
    case (Inl e)
    then show ?thesis using c cut_stop [OF _ loop_grows] 2(2) wr by fastforce
  next
    case (Inr u)
    then have "r1 = r\<lparr>rl_out := rl_out r @ payload\<rparr>" using c by (auto simp: cut_def Let_def split: if_splits)
    then show ?thesis using c Inr 2(1) [of m] 2(2) wr by (fastforce intro: cut_then)
  qed
next
  case (3 mc parse render P chunk "is" s r)
  show ?case
  proof (cases "chunk = []")
    case True
    then show ?thesis using 3(2) by simp
  next
    case False
    then obtain xs s1 where d: "drain (next_frame mc) (push chunk s) = Some (xs, s1)"
      and rest: "pump_loop mc parse render P is s1 (fold (handle_result parse render P) xs r) = Some (s', r')"
      using 3(2) by (auto split: bind_splits)
    obtain res1 r1 m where t: "results_to parse render P xs (r, n) = (res1, (r1, m))" by (metis prod.exhaust)
    note c = results_cut [OF t]
    show ?thesis
    proof (cases res1)
      case (Inl e)
      then show ?thesis using c cut_stop [OF _ loop_grows [OF rest]] d t False by fastforce
    next
      case (Inr u)
      then have "r1 = fold (handle_result parse render P) xs r" using c by (auto simp: cut_def Let_def split: if_splits)
      then show ?thesis using c Inr 3(1) [OF False d refl rest, of m] d t False by (fastforce intro: cut_then)
    qed
  qed
qed

lemma end_cut:
  assumes "end_to parse render P s (r, n) = (res, w)"
  shows "cut n r res w (pump_end parse render P s r) \<and>
    (res = Inl Broken \<longrightarrow> strict_prefix (rl_notes (fst w)) (rl_notes (pump_end parse render P s r)))"
proof -
  obtain residue s' where fin: "finish s = (residue, s')" by fastforce
  let ?eof = "note_down (OnEof (pu_direction P) (fs_stats s'))"
  have last: "cut n r res w (?eof r0) \<and> (res = Inl Broken \<longrightarrow> strict_prefix (rl_notes (fst w)) (rl_notes (?eof r0)))"
    if "cut n r res0 (r', m) r0"
      and "(res, w) = (case res0 of Inl e \<Rightarrow> (Inl e, (r', m)) | Inr _ \<Rightarrow> (Inr (), (?eof r', m)))"
    for res0 :: "io_error + unit" and r' m r0
  proof (cases res0)
    case (Inl e)
    with that have c: "cut n r (Inl e :: io_error + unit) (r', m) r0" and eq: "res = Inl e" "w = (r', m)" by auto
    then have "strict_prefix (rl_notes r') (rl_notes (?eof r0))"
      by (auto simp: cut_def note_down_def Let_def strict_prefix_def prefix_def split: if_splits)
    then show ?thesis using cut_stop [OF c grows_note] eq by simp
  next
    case (Inr u)
    then have "r0 = r'" using that by (auto simp: cut_def Let_def split: if_splits)
    then show ?thesis
      using that Inr cut_then [OF _ cut_silent [OF grows_note], of n r "()" r' m] by simp
  qed
  show ?thesis
  proof (cases residue)
    case None
    have "cut n r (Inr ()) (r, n) r" by simp
    from last [OF this] show ?thesis using assms fin None by (auto simp: end_to_def pump_end_def)
  next
    case (Some f)
    let ?r = "note_down (OnAnomaly (Unterminated (pu_direction P))) r"
    obtain b r1 where h: "handle parse render P f ?r = (b, r1)" by fastforce
    obtain res1 r2 m where t: "handle_to parse render P f (?r, n) = (res1, (r2, m))" by (metis prod.exhaust)
    have c: "cut n r res1 (r2, m) r1" and b: "\<forall>b'. res1 = Inr b' \<longrightarrow> b' = b"
      using handle_cut [OF h t] cut_then [OF cut_silent [of r ?r n "()"]] by auto
    let ?r1 = "if b \<and> \<not> is_terminated f then r1\<lparr>rl_out := rl_out r1 @ [NL]\<rparr> else r1"
    have end1: "pump_end parse render P s r = ?eof ?r1"
      using fin Some h by (simp add: pump_end_def)
    show ?thesis
    proof (cases res1)
      case (Inl e)
      have "grows r1 ?r1" by simp
      from cut_stop [OF c [unfolded Inl] this] have "cut n r (Inl e :: io_error + unit) (r2, m) ?r1" .
      from last [OF this] show ?thesis using assms fin Some t Inl end1 by (auto simp: end_to_def)
    next
      case (Inr b')
      obtain res2 r3 k where w2: "write_all [NL] (r2, m) = (res2, (r3, k))" by (metis prod.exhaust)
      have "r2 = r1" using c Inr by (auto simp: cut_def Let_def split: if_splits)
      then have "cut n r (if b \<and> \<not> is_terminated f then res2 else Inr ())
          (if b \<and> \<not> is_terminated f then (r3, k) else (r2, m)) ?r1"
        using c Inr cut_then [OF _ cut_write [OF w2]] cut_value by auto
      then show ?thesis
        using last assms fin Some t Inr b w2 end1
        by (cases "b \<and> \<not> is_terminated f") (auto simp: end_to_def split: sum.splits)
    qed
  qed
qed

lemma end_grows:
  "grows r (pump_end parse render P s r) \<and> length (rl_notes r) < length (rl_notes (pump_end parse render P s r))"
proof -
  obtain residue s' where fin: "finish s = (residue, s')" by fastforce
  have noted: "grows r r1 \<Longrightarrow> grows r (note_down x r1) \<and> length (rl_notes r) < length (rl_notes (note_down x r1))" for r1 x
    by (auto simp: grows_def note_down_def prefix_def)
  have "grows r (snd (handle parse render P f (note_down x r)))" for f x
    by (rule grows_trans [OF grows_note handle_grows])
  then have "grows r (snd (handle parse render P f (note_down x r))\<lparr>rl_out := rl_out (snd (handle parse render P f (note_down x r))) @ p\<rparr>)"
    and "grows r (snd (handle parse render P f (note_down x r)))" for f x p
    by (auto intro: grows_trans [OF _ grows_out])
  then show ?thesis
    using fin noted by (cases residue) (auto simp: pump_end_def split_def Let_def)
qed

text \<open>
  C3: a peer that goes away cuts the session short and does nothing else: whatever the number of bytes
  it takes before its end breaks, it has received exactly that many bytes of what it would have
  received, so nothing that was refused, and the pump has returned the error, having sent back and
  noted a beginning of what it would have; the end of the stream is not among the notes.  A peer that
  takes everything sees no difference.
\<close>

theorem broken_pipe_only_cuts_short:
  assumes "pump_run mc parse render P is r = Some r'"
  shows "\<exists>out res r1 m. rl_out r' = rl_out r @ out \<and> run_to mc parse render P is (r, n) = Some (res, (r1, m)) \<and>
    (if length out \<le> n then res = Inr () \<and> r1 = r' \<and> m = n - length out
     else res = Inl Broken \<and> rl_out r1 = rl_out r @ take n out \<and>
       prefix (rl_denied r1) (rl_denied r') \<and> strict_prefix (rl_notes r1) (rl_notes r'))"
proof -
  obtain s1 r1 where loop: "pump_loop mc parse render P is (splitter_new (pu_max P)) r = Some (s1, r1)"
    and r': "r' = pump_end parse render P s1 r1"
    using assms by (auto simp: pump_run_def split: bind_splits)
  obtain res w where lt: "loop_to mc parse render P is (splitter_new (pu_max P)) (r, n) = Some (res, w)"
    and c: "cut n r res w r1" "\<forall>x. res = Inr x \<longrightarrow> x = s1"
    using loop_cut [OF loop] by blast
  have "\<exists>res' w'. run_to mc parse render P is (r, n) = Some (res', w') \<and> cut n r res' w' r' \<and>
      (res' = Inl Broken \<longrightarrow> strict_prefix (rl_notes (fst w')) (rl_notes r'))"
  proof (cases res)
    case (Inl e)
    have e: "e = Broken" by (cases e)
    have g: "grows r1 r'" and l: "length (rl_notes r1) < length (rl_notes r')"
      using end_grows [of r1 parse render P s1] r' by simp_all
    have "prefix (rl_notes (fst w)) (rl_notes r1)"
      using c(1) Inl e by (auto simp: cut_def Let_def split: if_splits)
    then have "strict_prefix (rl_notes (fst w)) (rl_notes r')"
      using g l prefix_length_le prefix_order.trans unfolding grows_def strict_prefix_def by fastforce
    moreover have "cut n r (Inl Broken :: io_error + unit) w r'"
      using cut_stop [OF c(1) [unfolded Inl] g] e by simp
    ultimately show ?thesis using lt Inl e by (simp add: run_to_def)
  next
    case (Inr x)
    obtain r2 m where w: "w = (r2, m)" by fastforce
    have "r2 = r1" "x = s1" using c Inr w by (auto simp: cut_def Let_def split: if_splits)
    then show ?thesis
      using lt c Inr w r' end_cut [of parse render P s1 r1 m]
      by (cases "end_to parse render P s1 (r1, m)") (auto simp: run_to_def intro: cut_then)
  qed
  then obtain res' w' where run: "run_to mc parse render P is (r, n) = Some (res', w')"
    and cut: "cut n r res' w' r'" and strict: "res' = Inl Broken \<longrightarrow> strict_prefix (rl_notes (fst w')) (rl_notes r')"
    by blast
  obtain out where "rl_out r' = rl_out r @ out" using cut by (auto simp: cut_def grows_def prefix_def)
  moreover have "e = Broken" for e by (cases e)
  ultimately show ?thesis
    using run cut strict
    by (cases w'; cases res') (fastforce simp: cut_def Let_def split: if_splits)+
qed

theorem broken_pipe_only_cuts_short_witness:
  "\<exists>r1 m. run_to first_index (\<lambda>_. None) (\<lambda>_. [])
      \<lparr>pu_direction = ToServer, pu_max = 9, pu_point = allow_all, pu_return = True\<rparr>
      (map Read [''{}'', [NL] @ ''[]''])
      (\<lparr>rl_out = [], rl_denied = [], rl_notes = [], rl_state = ()\<rparr>, 4) = Some (Inl Broken, (r1, m)) \<and>
    rl_out r1 = ''{}'' @ [NL] @ ''[''"
proof -
  let ?P = "\<lparr>pu_direction = ToServer, pu_max = 9, pu_point = allow_all, pu_return = True\<rparr>"
  let ?r = "\<lparr>rl_out = [], rl_denied = [], rl_notes = [], rl_state = ()\<rparr>"
  obtain r' where r': "pump_run first_index (\<lambda>_. None) (\<lambda>_. []) ?P (map Read [''{}'', [NL] @ ''[]'']) ?r = Some r'"
    and out: "rl_out r' = ''{}'' @ [NL] @ ''[]'' @ [NL]"
    using no_policy.run_lenient [where mc = first_index and cs = "[''{}'', [NL] @ ''[]'']" and P = ?P and r = ?r
        and res = "''[]''" and parse = "\<lambda>_. None" and render = "\<lambda>_. []"]
    by (fastforce simp: good_line_def strip_cr_len_def)
  show ?thesis
    using broken_pipe_only_cuts_short [OF r', of 4] out by (auto split: if_splits)
qed

end
