(* ===== verification/Restoration.thy ===== *)
theory Restoration
  imports Onboarding_Correct
begin

text \<open>
  \<open>mcpwall restore\<close> after \<open>mcpwall init --apply\<close> (\<open>setup/mod.rs\<close>): which directories are searched, and what
  the two commands together leave of the user's files, also when writes of either failed.
\<close>

section \<open>Where backups are looked for\<close>

definition restore_dirs :: "bytes \<Rightarrow> bytes option \<Rightarrow> bytes list" where
  "restore_dirs home cwd =
     [home, path_join home ''.cursor'', path_join home ''.claude''] @ (case cwd of Some c \<Rightarrow> [c] | None \<Rightarrow> [])"

text \<open>
  \<open>names d\<close> is what reading the directory \<open>d\<close> gives, nothing where it fails; \<open>copies\<close> says how writing each file goes.
\<close>

definition restore_at ::
  "place \<Rightarrow> (bytes \<Rightarrow> write_result) \<Rightarrow> (bytes \<Rightarrow> bytes list) \<Rightarrow> files \<Rightarrow> bytes list option \<times> files" where
  "restore_at E copies names disk =
     restore copies (map (\<lambda>d. (d, names d)) (restore_dirs (home_dir (at_home E)) (at_cwd E))) disk"

definition file_name :: "bytes \<Rightarrow> bool" where
  "file_name n \<longleftrightarrow> n \<noteq> [] \<and> CHR ''/'' \<notin> set n"

text \<open>A directory that can be read gives the names of its files.\<close>

definition lists :: "(bytes \<Rightarrow> bytes list) \<Rightarrow> files \<Rightarrow> bytes \<Rightarrow> bool" where
  "lists names D d \<longleftrightarrow> set (names d) = {n. file_name n \<and> D (path_join d n) \<noteq> None}"

section \<open>Names\<close>

lemma take_name: "file_name n \<Longrightarrow> takeWhile (\<lambda>c. c \<noteq> CHR ''/'') (rev (path_join d n)) = rev n"
proof -
  assume n: "file_name n"
  have all: "c \<noteq> CHR ''/''" if "c \<in> set (rev n)" for c using n that by (auto simp: file_name_def)
  consider "d = []" | e where "d = e @ [CHR ''/'']" | "d \<noteq> []" "last d \<noteq> CHR ''/''"
    by (metis append_butlast_last_id)
  then show ?thesis
  proof cases
    case 1
    then show ?thesis using all by (simp add: path_join_def takeWhile_eq_all_conv)
  next
    case 2
    then show ?thesis using takeWhile_append2 [of "rev n"] all by (simp add: path_join_def)
  next
    case 3
    then show ?thesis using takeWhile_append2 [of "rev n"] all by (simp add: path_join_def)
  qed
qed

lemma same_name: "file_name n \<Longrightarrow> file_name m \<Longrightarrow> path_join d n = path_join e m \<Longrightarrow> n = m"
  by (metis take_name rev_rev_ident)

lemma path_join_append: "n \<noteq> [] \<Longrightarrow> path_join d (n @ x) = path_join d n @ x"
  by (simp add: path_join_def)

definition CONFIG_NAMES :: "bytes set" where
  "CONFIG_NAMES = {''.claude.json'', ''mcp.json'', ''settings.json'', ''.mcp.json''}"

lemma digits_name: "list_all is_ascii_digit ds \<Longrightarrow> CHR ''/'' \<notin> set ds"
  by (auto simp: list_all_iff is_ascii_digit_def byte_def)

lemma config_names: "n \<in> CONFIG_NAMES \<Longrightarrow> file_name n \<and> file_name (n @ BAK @ nat_text s)"
  using digits_name [of "nat_text s"] nat_text_digits [of s]
  by (auto simp: CONFIG_NAMES_def file_name_def BAK_def)

lemma find_bak: "n \<in> CONFIG_NAMES \<Longrightarrow> find_sub BAK (n @ BAK @ x) = Some (length n)"
  by (auto simp: CONFIG_NAMES_def BAK_def starts_with_def)

lemma saved_config: "n \<in> CONFIG_NAMES \<Longrightarrow>
    saved_from d (n @ BAK @ nat_text s) = Some (path_join d n, backup_path s (path_join d n))"
proof -
  assume n: "n \<in> CONFIG_NAMES"
  then have "n \<noteq> []" by (auto simp: CONFIG_NAMES_def)
  then show ?thesis by (simp add: saved_from_def find_bak [OF n] backup_path_def path_join_append)
qed

text \<open>Where the files of the plans are: searched by \<open>restore\<close>, the projects named on the command line apart.\<close>

lemma project_targets_dirs:
  "t \<in> set (project_targets fs present ps out) \<Longrightarrow> t \<in> set out \<or> (\<exists>p \<in> set ps. tg_path t = path_join p ''.mcp.json'')"
proof (induction ps arbitrary: out)
  case (Cons p ps)
  then show ?case by (fastforce simp: Let_def split: if_splits)
qed simp

lemma planned_dirs:
  assumes "p \<in> set (planned parse pretty E extra)"
  shows "\<exists>d n. pl_path p = path_join d n \<and> n \<in> CONFIG_NAMES \<and>
    (d \<in> set (restore_dirs (home_dir (at_home E)) (at_cwd E)) \<or> d \<in> set extra \<and> n = ''.mcp.json'')"
proof -
  let ?home = "home_dir (at_home E)"
  have known: "path_join ?home ''.claude.json'' = path_join ?home ''.claude.json''" by simp
  consider tg where "tg \<in> set (discover (at_real E) (at_present E) ?home (at_cwd E) extra)" "pl_path p = tg_path tg"
    | "pl_path p = claude_settings_path ?home"
    using assms planned_all [of parse pretty E extra] plan_all_parts plan_file_parts by (metis empty_iff list.set(1))
  then show ?thesis
  proof cases
    case 1
    let ?dirs = "set (restore_dirs ?home (at_cwd E))"
    from 1(1) consider "tg_path tg = path_join ?home ''.claude.json''" | "tg_path tg = path_join (path_join ?home ''.cursor'') ''mcp.json''"
      | d where "tg_path tg = path_join d ''.mcp.json''" "d \<in> set extra \<or> at_cwd E = Some d"
      unfolding discover_def Let_def
      by (auto dest!: project_targets_dirs split: if_splits option.splits)
    then show ?thesis
    proof cases
      case 3
      then show ?thesis
        using 1(2) by (intro exI [of _ d] exI [of _ "''.mcp.json''"]) (auto simp: restore_dirs_def CONFIG_NAMES_def)
    next
      case 2
      then show ?thesis
        using 1(2) by (intro exI [of _ "path_join ?home ''.cursor''"] exI [of _ "''mcp.json''"])
          (simp add: restore_dirs_def CONFIG_NAMES_def)
    next
      case 1
      then show ?thesis
        using \<open>pl_path p = tg_path tg\<close> by (intro exI [of _ ?home] exI [of _ "''.claude.json''"])
          (simp add: restore_dirs_def CONFIG_NAMES_def)
    qed
  next
    case 2
    then show ?thesis
      by (intro exI [of _ "path_join ?home ''.claude''"] exI [of _ "''settings.json''"])
        (simp add: claude_settings_path_def restore_dirs_def CONFIG_NAMES_def)
  qed
qed

section \<open>What a run leaves in the backups\<close>

fun written_of :: "write_result \<Rightarrow> bytes \<Rightarrow> bytes" where
  "written_of (Torn n) text = take n text"
| "written_of w text = text"

abbreviation save_of :: "place \<Rightarrow> bytes \<Rightarrow> bytes" where
  "save_of E f \<equiv> backup_path (at_clock E f) f"

lemma save_not_file: "ends_json f \<Longrightarrow> save_of E g \<noteq> f" "ends_json f \<Longrightarrow> f \<noteq> save_of E g"
  using backup_not_json by metis+

text \<open>The backup is begun before the file, and the file is touched only when the backup is complete.\<close>

definition saved_first :: "place \<Rightarrow> act list \<Rightarrow> files \<Rightarrow> plan \<Rightarrow> bool" where
  "saved_first E a D p \<longleftrightarrow>
     (let f = pl_path p in
      (save_of E f \<in> puts a \<longrightarrow> files_after a D (save_of E f) = Some (written_of (at_writes E (save_of E f)) (pl_before p))) \<and>
      (f \<in> puts a \<longrightarrow> save_of E f \<in> puts a \<and> at_writes E (save_of E f) = Written))"

lemma apply_saved:
  assumes "apply_acts E p = (a, r)" and "ends_json (pl_path p)"
  shows "saved_first E a D p"
  using assms(1) save_not_file [OF assms(2)]
  by (auto simp: apply_acts_def attempt_def saved_first_def Let_def split: if_splits write_result.splits)

lemma saved_other:
  assumes "apply_acts E q = (b, r)" and "pl_path p \<noteq> pl_path q" and "ends_json (pl_path p)" and "ends_json (pl_path q)"
  shows "pl_path p \<notin> puts b \<and> save_of E (pl_path p) \<notin> puts b"
  using apply_puts [OF assms(1)] assms(2) save_not_file [OF assms(3)] save_not_file [OF assms(4)] backup_path_inject by blast

lemma plans_other:
  assumes "write_plans E ps = (a, ok)" and "f \<notin> pl_path ` set ps" and "ends_json f" and "\<forall>p \<in> set ps. ends_json (pl_path p)"
  shows "f \<notin> puts a \<and> save_of E f \<notin> puts a"
proof -
  have "f \<noteq> pl_path p \<and> f \<noteq> save_of E (pl_path p) \<and> save_of E f \<noteq> pl_path p \<and> save_of E f \<noteq> save_of E (pl_path p)"
    if "p \<in> set ps" for p
    using that assms(2-4) save_not_file backup_path_inject by blast
  then show ?thesis using plans_puts [OF assms(1)] by blast
qed

lemma plans_saved:
  assumes "write_plans E ps = (a, ok)" and "distinct (map pl_path ps)" and "\<forall>p \<in> set ps. ends_json (pl_path p)"
    and "p \<in> set ps"
  shows "saved_first E a D p"
  using assms
proof (induction ps arbitrary: a ok D)
  case (Cons q ps)
  show ?case
  proof (cases "is_noop q")
    case True
    show ?thesis
    proof (cases "p = q")
      case True
      have "write_plans E ps = (a, ok)" using Cons.prems(1) \<open>is_noop q\<close> by simp
      from plans_other [OF this, of "pl_path p"] have "pl_path p \<notin> puts a" "save_of E (pl_path p) \<notin> puts a"
        using Cons.prems(2,3) True by simp_all
      then show ?thesis by (simp add: saved_first_def Let_def)
    qed (use Cons True in simp)
  next
    case False
    obtain b r where b: "apply_acts E q = (b, r)" by fastforce
    obtain c ok' where c: "write_plans E ps = (c, ok')" by fastforce
    have a: "a = b \<or> (\<exists>said. a = b @ Says said # c)" using Cons.prems(1) False b c by (auto split: option.splits)
    show ?thesis
    proof (cases "p = q")
      case True
      have "pl_path p \<notin> puts c" "save_of E (pl_path p) \<notin> puts c"
        using plans_other [OF c, of "pl_path p"] Cons.prems(2,3) True by simp_all
      then show ?thesis
        using apply_saved [OF b] Cons.prems(3) True a by (auto simp: saved_first_def files_after_other Let_def)
    next
      case False
      then have p: "p \<in> set ps" "pl_path p \<noteq> pl_path q" using Cons.prems(2,4) \<open>p \<noteq> q\<close> by (auto simp: image_iff)
      have "saved_first E c (files_after b D) p" using Cons.IH [OF c] Cons.prems(2,3) p(1) by simp
      then show ?thesis
        using saved_other [OF b p(2)] Cons.prems(3) p(1) a by (auto simp: saved_first_def Let_def)
    qed
  qed
qed simp

lemma files_after_put: "f \<in> puts acts \<Longrightarrow> files_after acts D f \<noteq> None"
proof (induction acts arbitrary: D)
  case (Cons a as)
  show ?case
  proof (cases "f \<in> puts as")
    case False
    then obtain content where "a = Puts f content" using Cons.prems by (cases a) (auto simp: puts_def)
    then show ?thesis using files_after_other [OF False] by simp
  qed (use Cons.IH in simp)
qed simp

lemma init_saved:
  assumes "init parse pretty E really extra = Some (acts, ok)"
  shows "\<forall>p \<in> set (planned parse pretty E extra). saved_first E acts D p"
    and "puts acts \<subseteq> insert (routes_path (home_dir (at_home E)))
      (\<Union>p \<in> set (planned parse pretty E extra). {pl_path p, save_of E (pl_path p)})"
proof -
  let ?ps = "planned parse pretty E extra" and ?routes = "routes_path (home_dir (at_home E))"
  have "(\<forall>p \<in> set ?ps. saved_first E acts D p) \<and> puts acts \<subseteq> insert ?routes (\<Union>p \<in> set ?ps. {pl_path p, save_of E (pl_path p)})"
    using assms
  proof (cases rule: init_parts)
    case stopped
    then show ?thesis by simp
  next
    case (ran t first rest)
    show ?thesis
    proof (rule carry_out_parts [OF ran(4)])
      fix shown wrote
      assume parts: "rest = shown @ wrote" "puts shown = {}"
        "wrote = [] \<or> really \<and> (\<exists>a b ok'. write_plans E ?ps = (a, ok') \<and> wrote = a @ b \<and> puts b \<subseteq> {?routes} \<and> (\<not> ok' \<longrightarrow> b = [] \<and> \<not> ok))"
      have acts: "acts = (first @ shown) @ wrote" "puts (first @ shown) = {}" using ran(2,3) parts(1,2) by simp_all
      have same: "files_after (first @ shown) D = D"
        using acts(2) by (intro ext files_after_other) simp
      show ?thesis
      proof (cases "wrote = []")
        case True
        then show ?thesis using acts by (simp add: saved_first_def Let_def)
      next
        case False
        then obtain a b ok' where a: "write_plans E ?ps = (a, ok')" "wrote = a @ b" "puts b \<subseteq> {?routes}" using parts(3) by blast
        have j: "\<forall>p \<in> set ?ps. ends_json (pl_path p)" using planned_paths(2) by blast
        have "saved_first E acts D p" if p: "p \<in> set ?ps" for p
        proof -
          have "pl_path p \<notin> puts b" "save_of E (pl_path p) \<notin> puts b"
            using a(3) planned_paths(2) [OF p] special_paths(2) [of "home_dir (at_home E)"] backup_not_json by (metis singletonD subsetD)+
          then show ?thesis
            using plans_saved [OF a(1) planned_paths(1) j p, of D] acts a(2) same
            by (simp add: saved_first_def files_after_other Let_def)
        qed
        then show ?thesis using plans_puts [OF a(1)] a(2,3) acts by auto
      qed
    qed
  qed
  then show "\<forall>p \<in> set ?ps. saved_first E acts D p"
    and "puts acts \<subseteq> insert ?routes (\<Union>p \<in> set ?ps. {pl_path p, save_of E (pl_path p)})" by simp_all
qed

section \<open>What \<open>restore\<close> finds\<close>

lemma restore_from_succeeds:
  "\<forall>(q, saves) \<in> set bs. saves \<noteq> [] \<and> D (hd saves) \<noteq> None \<and> copies q = Written \<Longrightarrow>
   \<exists>r' D'. restore_from copies bs r D = (Some r', D')"
proof (induction bs arbitrary: r D)
  case (Cons b bs)
  obtain q latest older where b: "b = (q, latest # older)" using Cons.prems by (cases b; cases "snd b") auto
  obtain content where c: "D latest = Some content" "copies q = Written" using Cons.prems by (auto simp: b)
  have "\<forall>(q', saves) \<in> set bs. saves \<noteq> [] \<and> (D(q \<mapsto> content)) (hd saves) \<noteq> None \<and> copies q' = Written"
    using Cons.prems by (auto simp: b)
  from Cons.IH [OF this] show ?case by (simp add: b c del: fun_upd_apply)
qed simp

lemma in_listed: "(q, s) \<in> set (listed dirs) \<longleftrightarrow> (\<exists>d ns n. (d, ns) \<in> set dirs \<and> n \<in> set ns \<and> saved_from d n = Some (q, s))"
  by (auto simp: listed_def List.map_filter_def image_iff) force+

lemma listed_values: "(q, saves) \<in> set (backups dirs) \<Longrightarrow> saves \<noteq> [] \<and> (q, hd saves) \<in> set (listed dirs)"
proof -
  assume "(q, saves) \<in> set (backups dirs)"
  then have "map_of (backups dirs) q = Some saves" using map_of_is_SomeI [OF backups_of(3)] by blast
  then have s: "saves = rev (sort (map snd (filter (\<lambda>os. fst os = q) (listed dirs))))" "saves \<noteq> []"
    by (auto simp: backups_of(1) Let_def split: if_splits)
  have "hd saves \<in> set saves" using s(2) by (rule list.set_sel(1))
  also have "set saves = {s. (q, s) \<in> set (listed dirs)}" unfolding s(1) by force
  finally show ?thesis using s(2) by simp
qed

text \<open>Neither a configuration nor the route table looks like a backup.\<close>

lemma no_bak: "n \<in> insert ''routes.json'' CONFIG_NAMES \<Longrightarrow> find_sub BAK n = None"
  by (auto simp: CONFIG_NAMES_def BAK_def starts_with_def)

text \<open>The files of which \<open>restore\<close> finds a backup of this run.\<close>

definition saved_here :: "parser \<Rightarrow> printer \<Rightarrow> place \<Rightarrow> bytes list \<Rightarrow> act list \<Rightarrow> bytes \<Rightarrow> bool" where
  "saved_here parse pretty E extra acts f \<longleftrightarrow>
     (\<exists>p \<in> set (planned parse pretty E extra). f = pl_path p \<and> save_of E f \<in> puts acts \<and>
        (\<exists>d \<in> set (restore_dirs (home_dir (at_home E)) (at_cwd E)). \<exists>n \<in> CONFIG_NAMES. f = path_join d n))"

definition backups_at :: "place \<Rightarrow> (bytes \<Rightarrow> bytes list) \<Rightarrow> (bytes \<times> bytes) list" where
  "backups_at E names = listed (map (\<lambda>d. (d, names d)) (restore_dirs (home_dir (at_home E)) (at_cwd E)))"

lemma listed_after:
  assumes run: "init parse pretty E really extra = Some (acts, ok)" and D': "D' = files_after acts (at_files E)"
    and lists: "\<forall>d \<in> set (restore_dirs (home_dir (at_home E)) (at_cwd E)). lists names D' d"
    and new: "\<forall>d \<in> set (restore_dirs (home_dir (at_home E)) (at_cwd E)). \<forall>n. contains_sub n BAK \<longrightarrow> at_files E (path_join d n) = None"
  shows "(f, s) \<in> set (backups_at E names) \<Longrightarrow> s = save_of E f \<and> saved_here parse pretty E extra acts f \<and> D' s \<noteq> None"
    and "saved_here parse pretty E extra acts f \<Longrightarrow> (f, save_of E f) \<in> set (backups_at E names)"
    and "fst ` set (backups_at E names) \<inter> snd ` set (backups_at E names) = {}"
proof -
  let ?dirs = "restore_dirs (home_dir (at_home E)) (at_cwd E)" and ?ps = "planned parse pretty E extra"
  let ?L = "listed (map (\<lambda>d. (d, names d)) ?dirs)"
  let ?hit = "\<lambda>f. \<exists>p \<in> set ?ps. f = pl_path p \<and> save_of E f \<in> puts acts \<and> (\<exists>d \<in> set ?dirs. \<exists>n \<in> CONFIG_NAMES. f = path_join d n)"
  have found: "s = save_of E f \<and> ?hit f \<and> D' s \<noteq> None" if L: "(f, s) \<in> set ?L" for f s
  proof -
    obtain d n where d: "d \<in> set ?dirs" "n \<in> set (names d)" "saved_from d n = Some (f, s)" using L by (auto simp: in_listed)
    have n: "file_name n" "D' (path_join d n) \<noteq> None" using lists d(1,2) by (auto simp: lists_def)
    obtain i where i: "find_sub BAK n = Some i" "f = path_join d (take i n)" "s = path_join d n"
      using d(3) by (auto simp: saved_from_def split: option.splits)
    then have "at_files E s = None" using new d(1) by (simp add: contains_sub_def)
    then have "s \<in> puts acts" using n(2) i(3) files_after_other [of s acts "at_files E"] D' by metis
    then consider "s = routes_path (home_dir (at_home E))" | p where "p \<in> set ?ps" "s = pl_path p"
      | p where "p \<in> set ?ps" "s = save_of E (pl_path p)"
      using init_saved(2) [OF run] by blast
    then show ?thesis
    proof cases
      case 1
      then have "n = ''routes.json''"
        using same_name [OF n(1), of "''routes.json''" d] i(3) by (simp add: routes_path_def file_name_def)
      then have "find_sub BAK n = None" by (intro no_bak) simp
      then show ?thesis using i(1) by simp
    next
      case 2
      then obtain e m where "pl_path p = path_join e m" "m \<in> CONFIG_NAMES" using planned_dirs by blast
      then have "n = m" using same_name [OF n(1)] config_names i(3) 2(2) by metis
      then show ?thesis using no_bak i(1) \<open>m \<in> CONFIG_NAMES\<close> by simp
    next
      case 3
      obtain e m where m: "pl_path p = path_join e m" "m \<in> CONFIG_NAMES" using planned_dirs [OF 3(1)] by blast
      then have ne: "m \<noteq> []" by (auto simp: CONFIG_NAMES_def)
      let ?x = "BAK @ nat_text (at_clock E (pl_path p))"
      have s: "s = path_join e (m @ ?x)" using 3(2) m(1) by (simp add: backup_path_def path_join_append [OF ne])
      have nm: "n = m @ ?x" using same_name [OF n(1), of "m @ ?x" d e] config_names [OF m(2)] i(3) s by simp
      then have "i = length m" using i(1) find_bak [OF m(2)] by simp
      then have f: "f = path_join d m" using i(2) nm by simp
      have "path_join d m @ ?x = path_join e m @ ?x" using i(3) s nm by (simp add: path_join_append [OF ne])
      then have "f = pl_path p" using f m(1) by simp
      moreover have "\<exists>d \<in> set ?dirs. \<exists>n \<in> CONFIG_NAMES. f = path_join d n" using d(1) f m(2) by blast
      moreover have "D' s \<noteq> None" using n(2) i(3) by simp
      ultimately show ?thesis using 3 \<open>s \<in> puts acts\<close> by blast
    qed
  qed
  have there: "(f, save_of E f) \<in> set ?L" if hit: "?hit f" for f
  proof -
    obtain d n where d: "d \<in> set ?dirs" "n \<in> CONFIG_NAMES" "f = path_join d n" "save_of E f \<in> puts acts" using hit by blast
    let ?n = "n @ BAK @ nat_text (at_clock E f)"
    have "n \<noteq> []" using d(2) by (auto simp: CONFIG_NAMES_def)
    then have "path_join d ?n = save_of E f" by (simp add: d(3) backup_path_def path_join_append)
    then have "?n \<in> set (names d)"
      using lists d(1) config_names [OF d(2)] files_after_put [OF d(4)] D' by (auto simp: lists_def)
    moreover have "saved_from d ?n = Some (f, save_of E f)" using saved_config [OF d(2)] d(3) by simp
    ultimately show ?thesis using d(1) by (auto simp: in_listed)
  qed
  have disjoint: "fst ` set ?L \<inter> snd ` set ?L = {}"
  proof -
    have "f \<noteq> s'" if L: "(f, s) \<in> set ?L" "(f', s') \<in> set ?L" for f s f' s'
    proof -
      obtain p where "p \<in> set ?ps" "f = pl_path p" using found [OF L(1)] by blast
      then show ?thesis using planned_paths(2) found [OF L(2)] save_not_file by metis
    qed
    then show ?thesis by fastforce
  qed
  show "(f, s) \<in> set (backups_at E names) \<Longrightarrow> s = save_of E f \<and> saved_here parse pretty E extra acts f \<and> D' s \<noteq> None"
    "saved_here parse pretty E extra acts f \<Longrightarrow> (f, save_of E f) \<in> set (backups_at E names)"
    "fst ` set (backups_at E names) \<inter> snd ` set (backups_at E names) = {}"
    using found there disjoint unfolding backups_at_def saved_here_def by blast+
qed

lemma restored_files:
  assumes run: "init parse pretty E really extra = Some (acts, ok)" "D' = files_after acts (at_files E)"
      "\<forall>d \<in> set (restore_dirs (home_dir (at_home E)) (at_cwd E)). lists names D' d"
      "\<forall>d \<in> set (restore_dirs (home_dir (at_home E)) (at_cwd E)). \<forall>n. contains_sub n BAK \<longrightarrow> at_files E (path_join d n) = None"
    and r: "restore_at E copies names D' = (Some restored, D)"
  shows "D f = (if saved_here parse pretty E extra acts f then D' (save_of E f) else D' f)"
proof -
  note found = listed_after [OF run]
  note all = restore_takes_every_backup [OF r [unfolded restore_at_def] found(3) [unfolded backups_at_def], folded backups_at_def]
  show ?thesis
  proof (cases "saved_here parse pretty E extra acts f")
    case True
    then have "{s. (f, s) \<in> set (backups_at E names)} = {save_of E f}" using found(1,2) by blast
    moreover have "f \<in> fst ` set (backups_at E names)" using found(2) [OF True] by force
    ultimately show ?thesis using all True by simp
  next
    case False
    then have "f \<notin> fst ` set (backups_at E names)" using found(1) by fastforce
    then show ?thesis using all False by simp
  qed
qed

lemma restore_succeeds:
  assumes run: "init parse pretty E really extra = Some (acts, ok)" "D' = files_after acts (at_files E)"
      "\<forall>d \<in> set (restore_dirs (home_dir (at_home E)) (at_cwd E)). lists names D' d"
      "\<forall>d \<in> set (restore_dirs (home_dir (at_home E)) (at_cwd E)). \<forall>n. contains_sub n BAK \<longrightarrow> at_files E (path_join d n) = None"
    and w: "\<forall>p \<in> set (planned parse pretty E extra). copies (pl_path p) = Written"
  shows "\<exists>restored D. restore_at E copies names D' = (Some restored, D)"
proof -
  have ok: "saves \<noteq> [] \<and> D' (hd saves) \<noteq> None \<and> copies q = Written"
    if "(q, saves) \<in> set (backups (map (\<lambda>d. (d, names d)) (restore_dirs (home_dir (at_home E)) (at_cwd E))))" for q saves
    using listed_values [OF that, folded backups_at_def] listed_after(1) [OF run] w by (auto simp: saved_here_def)
  show ?thesis
    unfolding restore_at_def restore_def by (rule restore_from_succeeds) (use ok in blast)
qed

section \<open>There and back\<close>

text \<open>
  C20: \<open>init\<close> and then \<open>restore\<close> is the identity on the user's files: after whatever run of \<open>init\<close>, with writes refused or
  a configuration broken off half way, once \<open>restore\<close> has ended without an error every file that held something holds it
  again; and it ends without an error when the files that \<open>init\<close> had plans for can be written then.  This is for a run
  whose backups were not broken off, in directories that can be read and had no backups before; the route
  table and the projects named on the command line are set aside.
\<close>

theorem restore_undoes_init:
  assumes "init parse pretty E really extra = Some (acts, ok)" and "D' = files_after acts (at_files E)"
    and "\<forall>d \<in> set (restore_dirs (home_dir (at_home E)) (at_cwd E)). lists names D' d"
    and "\<forall>d \<in> set (restore_dirs (home_dir (at_home E)) (at_cwd E)). \<forall>n. contains_sub n BAK \<longrightarrow> at_files E (path_join d n) = None"
    and "\<And>s g n. at_writes E (backup_path s g) \<noteq> Torn n"
    and "at_files E f = Some text" and "\<not> trims_to_nothing text" and "f \<noteq> routes_path (home_dir (at_home E))"
    and "\<And>s g. f \<noteq> backup_path s g" and "\<forall>d \<in> set extra. f \<noteq> path_join d ''.mcp.json''"
    and "restore_at E copies names D' = (res, D)"
  shows "(res \<noteq> None \<longrightarrow> D f = Some text) \<and>
    ((\<forall>p \<in> set (planned parse pretty E extra). copies (pl_path p) = Written) \<longrightarrow> res \<noteq> None)"
proof -
  let ?ps = "planned parse pretty E extra" and ?dirs = "set (restore_dirs (home_dir (at_home E)) (at_cwd E))"
  have "D f = Some text" if "res = Some restored" for restored
  proof -
    note D = restored_files [OF assms(1-4) assms(11) [unfolded that], of f]
    show ?thesis
    proof (cases "\<exists>p \<in> set ?ps. f = pl_path p")
      case True
      then obtain p where p: "p \<in> set ?ps" "f = pl_path p" by blast
      have before: "pl_before p = text" using planned_paths(3) [OF p(1)] p(2) assms(6,7) by simp
      have saved: "saved_first E acts (at_files E) p" using init_saved(1) [OF assms(1)] p(1) by blast
      have listed: "\<exists>d \<in> ?dirs. \<exists>n \<in> CONFIG_NAMES. f = path_join d n"
        using planned_dirs [OF p(1)] p(2) assms(10) by blast
      show ?thesis
      proof (cases "save_of E f \<in> puts acts")
        case True
        then have "D' (save_of E f) = Some (written_of (at_writes E (save_of E f)) text)"
          using saved before p(2) by (simp add: saved_first_def assms(2) Let_def)
        moreover have "written_of (at_writes E (save_of E f)) text = text"
          using assms(5) by (cases "at_writes E (save_of E f)") auto
        moreover have "saved_here parse pretty E extra acts f" using True p listed by (auto simp: saved_here_def)
        ultimately show ?thesis using D by simp
      next
        case False
        then have "f \<notin> puts acts" using saved p(2) by (auto simp: saved_first_def Let_def)
        then show ?thesis using D False assms(2,6) by (simp add: files_after_other saved_here_def)
      qed
    next
      case False
      then have "f \<notin> puts acts" using init_saved(2) [OF assms(1)] assms(8,9) by blast
      then show ?thesis using D False assms(2,6) by (simp add: files_after_other saved_here_def)
    qed
  qed
  moreover have "res \<noteq> None" if "\<forall>p \<in> set ?ps. copies (pl_path p) = Written"
    using restore_succeeds [OF assms(1-4) that] assms(11) by auto
  ultimately show ?thesis by auto
qed

text \<open>
  C23: \<open>restore\<close> destroys what \<open>init\<close> had kept: when the disk runs full while \<open>init\<close> writes the backup of a file, the
  file itself is still untouched; \<open>restore\<close> then takes the beginning of a backup for a backup, and leaves the
  user with the first \<open>n\<close> bytes of the configuration.
\<close>

theorem restore_takes_a_broken_backup:
  assumes "init parse pretty E really extra = Some (acts, ok)" and "D' = files_after acts (at_files E)"
    and "\<forall>d \<in> set (restore_dirs (home_dir (at_home E)) (at_cwd E)). lists names D' d"
    and "\<forall>d \<in> set (restore_dirs (home_dir (at_home E)) (at_cwd E)). \<forall>n. contains_sub n BAK \<longrightarrow> at_files E (path_join d n) = None"
    and "p \<in> set (planned parse pretty E extra)" and "f = pl_path p" and "at_files E f = Some text" and "\<not> trims_to_nothing text"
    and "\<forall>d \<in> set extra. f \<noteq> path_join d ''.mcp.json''"
    and "at_writes E (save_of E f) = Torn n" and "save_of E f \<in> puts acts"
  shows "D' f = Some text \<and>
    (\<exists>restored D. restore_at E (\<lambda>_. Written) names D' = (Some restored, D) \<and> D f = Some (take n text))"
proof -
  have before: "pl_before p = text" using planned_paths(3) [OF assms(5)] assms(6-8) by simp
  have saved: "saved_first E acts (at_files E) p" using init_saved(1) [OF assms(1)] assms(5) by blast
  then have kept: "f \<notin> puts acts" using assms(6,10) by (auto simp: saved_first_def Let_def)
  have "D' (save_of E f) = Some (take n text)"
    using saved before assms(2,6,10,11) by (simp add: saved_first_def Let_def)
  moreover have "\<exists>d \<in> set (restore_dirs (home_dir (at_home E)) (at_cwd E)). \<exists>n \<in> CONFIG_NAMES. f = path_join d n"
    using planned_dirs [OF assms(5)] assms(6,9) by blast
  then have "saved_here parse pretty E extra acts f" using assms(5,6,11) by (auto simp: saved_here_def)
  moreover obtain restored D where r: "restore_at E (\<lambda>_. Written) names D' = (Some restored, D)"
    using restore_succeeds [OF assms(1-4), of "\<lambda>_. Written"] by auto
  ultimately have "restore_at E (\<lambda>_. Written) names D' = (Some restored, D) \<and> D f = Some (take n text)"
    using restored_files [OF assms(1-4) r, of f] by simp
  then show ?thesis using assms(2,7) kept by (auto simp: files_after_other)
qed

text \<open>
  C30: \<open>restore\<close> stops half way: when a file of which the run of \<open>init\<close> has made a backup cannot be written any more, or could
  not be written then either, \<open>restore\<close> ends with an error at this file, and every file behind it in the order of paths stays
  as \<open>init\<close> has left it, rewritten, although its backup is there and it could be written.
\<close>

theorem restore_stops_half_way:
  assumes "init parse pretty E really extra = Some (acts, ok)" and "D' = files_after acts (at_files E)"
    and "\<forall>d \<in> set (restore_dirs (home_dir (at_home E)) (at_cwd E)). lists names D' d"
    and "\<forall>d \<in> set (restore_dirs (home_dir (at_home E)) (at_cwd E)). \<forall>n. contains_sub n BAK \<longrightarrow> at_files E (path_join d n) = None"
    and "p \<in> set (planned parse pretty E extra)" and "f = pl_path p" and "\<forall>d \<in> set extra. f \<noteq> path_join d ''.mcp.json''"
    and "save_of E f \<in> puts acts" and "copies f \<noteq> Written" and "path_parts f < path_parts g"
  shows "\<exists>D. restore_at E copies names D' = (None, D) \<and> D g = D' g"
proof -
  let ?bs = "backups (map (\<lambda>d. (d, names d)) (restore_dirs (home_dir (at_home E)) (at_cwd E)))"
  have "\<exists>d \<in> set (restore_dirs (home_dir (at_home E)) (at_cwd E)). \<exists>n \<in> CONFIG_NAMES. f = path_join d n"
    using planned_dirs [OF assms(5)] assms(6,7) by blast
  then have "saved_here parse pretty E extra acts f" using assms(5,6,8) by (auto simp: saved_here_def)
  then have "f \<in> fst ` set (backups_at E names)" using listed_after(2) [OF assms(1-4)] by force
  then have "f \<in> fst ` set ?bs" by (simp add: backups_of(2) backups_at_def)
  then obtain saves where f: "(f, saves) \<in> set ?bs" by auto
  have "saves \<noteq> []" using listed_values [OF f] by simp
  moreover have "g \<notin> fst ` set xs" if "?bs = xs @ (f, saves) # ys" for xs ys
  proof
    assume "g \<in> fst ` set xs"
    then obtain b where "b \<in> set xs" "fst b = g" by auto
    then have "path_parts g \<le> path_parts f"
      using backups_of(4) [of "map (\<lambda>d. (d, names d)) (restore_dirs (home_dir (at_home E)) (at_cwd E))"]
      unfolding that by (auto simp: sorted_append)
    then show False using assms(10) by simp
  qed
  moreover have "g \<noteq> f" using assms(10) by auto
  ultimately show ?thesis
    using restore_from_stops [where copies = copies and f = f and saves = saves and bs = ?bs and g = g and r = "[]" and disk = D']
      assms(9) f unfolding restore_at_def restore_def by blast
qed

section \<open>A small place, there and back\<close>

text \<open>A disk with finitely many files can be listed.\<close>

lemma finite_after: "finite (dom D) \<Longrightarrow> finite (dom (files_after acts D))"
proof (induction acts arbitrary: D)
  case (Cons a as)
  have "finite (dom (put_act a D))" using Cons.prems by (cases a) simp_all
  then show ?case using Cons.IH by simp
qed simp

lemma listable: "finite (dom D) \<Longrightarrow> \<exists>names. \<forall>d. lists names D d"
proof -
  assume "finite (dom D)"
  have "finite {n. file_name n \<and> D (path_join d n) \<noteq> None}" for d
  proof (rule finite_imageD)
    show "finite (path_join d ` {n. file_name n \<and> D (path_join d n) \<noteq> None})"
      by (rule finite_subset [OF _ \<open>finite (dom D)\<close>]) auto
    show "inj_on (path_join d) {n. file_name n \<and> D (path_join d n) \<noteq> None}"
      by (rule inj_onI) (use same_name in blast)
  qed
  then have "\<forall>d. \<exists>ns. set ns = {n. file_name n \<and> D (path_join d n) \<noteq> None}" using finite_list by blast
  then show ?thesis unfolding lists_def by metis
qed

lemma a_dirs: "restore_dirs (home_dir (at_home a_place)) (at_cwd a_place) = [''/h'', ''/h/.cursor'', ''/h/.claude'']"
  by (simp add: restore_dirs_def a_place_def home_dir_def path_join_def)

lemma a_claude: "''/h/.claude.json'' \<noteq> routes_path (home_dir (at_home a_place))" "''/h/.claude.json'' \<noteq> backup_path s g"
proof -
  show "''/h/.claude.json'' \<noteq> routes_path (home_dir (at_home a_place))"
    by (simp add: a_place_def home_dir_def routes_path_def path_join_def)
  have "ends_json ''/h/.claude.json''" by (simp add: ends_json_def)
  then show "''/h/.claude.json'' \<noteq> backup_path s g" using backup_not_json by metis
qed

lemma a_new: "contains_sub n BAK \<Longrightarrow> d \<in> {''/h'', ''/h/.cursor'', ''/h/.claude''} \<Longrightarrow> at_files a_place (path_join d n) = None"
  by (auto simp: a_place_def path_join_def contains_sub_def BAK_def starts_with_def)

theorem restore_undoes_init_witness:
  "\<exists>acts ok names restored D. init a_parse a_pretty a_place True [] = Some (acts, ok) \<and>
     restore_at a_place (\<lambda>_. Written) names (files_after acts (at_files a_place)) = (Some restored, D) \<and>
     D ''/h/.claude.json'' = Some ''old''"
proof -
  obtain acts ok where run: "init a_parse a_pretty a_place True [] = Some (acts, ok)" using init_ends by blast
  have "finite (dom (at_files a_place))" by (simp add: a_place_def)
  then obtain names where names: "\<forall>d. lists names (files_after acts (at_files a_place)) d" using finite_after listable by metis
  obtain res D where r: "restore_at a_place (\<lambda>_. Written) names (files_after acts (at_files a_place)) = (res, D)" by fastforce
  have "(res \<noteq> None \<longrightarrow> D ''/h/.claude.json'' = Some ''old'') \<and>
    ((\<forall>p \<in> set (planned a_parse a_pretty a_place []). Written = Written) \<longrightarrow> res \<noteq> None)"
  proof (rule restore_undoes_init [OF run refl _ _ _ _ _ _ _ _ r])
    show "\<not> trims_to_nothing ''old''" by code_simp
    show "at_files a_place ''/h/.claude.json'' = Some ''old''" by (simp add: a_place_def)
    show "at_writes a_place (backup_path s g) \<noteq> Torn n" for s g n by (simp add: a_place_def)
  qed (use names a_claude a_new in \<open>auto simp: a_dirs\<close>)
  then show ?thesis using run r by auto
qed

text \<open>The same place with a disk that runs full in the first backup.\<close>

definition full_place :: place where
  "full_place = a_place\<lparr>at_writes := (\<lambda>p. if p = ''/h/.claude.json.bak.7'' then Torn 1 else Written)\<rparr>"

lemma full_fields [simp]:
  "at_exe full_place = at_exe a_place" "at_files full_place = at_files a_place" "at_home full_place = at_home a_place"
  "at_real full_place = at_real a_place" "at_present full_place = at_present a_place" "at_cwd full_place = at_cwd a_place"
  "at_dirs full_place = at_dirs a_place" "at_drops full_place = at_drops a_place" "at_links full_place = at_links a_place"
  "at_clock full_place = at_clock a_place" "at_writes full_place ''/h/.claude.json.bak.7'' = Torn 1"
  by (simp_all add: full_place_def)

lemma planned_writes: "planned parse pretty (E\<lparr>at_writes := w\<rparr>) extra = planned parse pretty E extra"
proof -
  have "plan_targets parse pretty (E\<lparr>at_writes := w\<rparr>) shim listen ts = plan_targets parse pretty E shim listen ts"
    for shim listen ts by (induction ts) (simp_all split: prod.split option.split)
  then have "plan_all parse pretty (E\<lparr>at_writes := w\<rparr>) shim listen extra = plan_all parse pretty E shim listen extra"
    for shim listen by (simp add: plan_all_def Let_def split: prod.split option.split)
  then show ?thesis
    by (simp add: planned_def init_table_def ensure_shim_link_def Let_def split: prod.split option.split)
qed

lemma full_parts:
  "planned a_parse a_pretty full_place [] = planned a_parse a_pretty a_place []" "at_clock a_place f = 7" "at_dirs a_place f"
  by (simp_all add: full_place_def planned_writes) (simp_all add: a_place_def)

lemma init_writes:
  assumes "init parse pretty E True extra = Some (acts, ok)" and "write_plans E (planned parse pretty E extra) = (a, ok')"
    and "changes (planned parse pretty E extra) \<noteq> 0"
  shows "puts a \<subseteq> puts acts"
  using assms(1)
proof (cases rule: init_parts)
  case stopped
  then show ?thesis using assms(3) by (simp add: changes_def)
next
  case (ran t first rest)
  obtain texts where "those (map plan_text (planned parse pretty E extra)) = Some texts" using those_texts by blast
  moreover have "planned parse pretty E extra \<noteq> []" using assms(3) by (auto simp: changes_def)
  moreover obtain b ok2 where "write_routes pretty E (planned parse pretty E extra) t = (b, ok2)" by fastforce
  ultimately have "puts a \<subseteq> puts rest"
    using ran(4) assms(2,3) by (cases ok'; cases ok2) (auto simp: carry_out_def Let_def)
  then show ?thesis using ran(3) by auto
qed

theorem restore_takes_a_broken_backup_witness:
  "\<exists>acts ok names restored D. init a_parse a_pretty full_place True [] = Some (acts, ok) \<and>
     files_after acts (at_files full_place) ''/h/.claude.json'' = Some ''old'' \<and>
     restore_at full_place (\<lambda>_. Written) names (files_after acts (at_files full_place)) = (Some restored, D) \<and> D ''/h/.claude.json'' = Some ''o''"
proof -
  obtain acts ok where run: "init a_parse a_pretty full_place True [] = Some (acts, ok)" using init_ends by blast
  obtain q p where a: "planned a_parse a_pretty full_place [] = [q, p]" "pl_path q = ''/h/.claude.json''" "\<not> is_noop q"
    using a_plans full_parts(1) by auto
  have "write_plans full_place [q, p] = ([Puts ''/h/.claude.json.bak.7'' (take 1 (pl_before q))], False)"
    by (simp add: a(2,3) apply_acts_def attempt_def full_parts a_backups Let_def)
  then have put: "''/h/.claude.json.bak.7'' \<in> puts acts"
    using init_writes [OF run] a by (fastforce simp: changes_def is_noop_def)
  have "finite (dom (at_files full_place))" by (simp add: full_parts a_place_def)
  then obtain names where names: "\<forall>d. lists names (files_after acts (at_files full_place)) d" using finite_after listable by metis
  have "files_after acts (at_files full_place) ''/h/.claude.json'' = Some ''old'' \<and>
      (\<exists>restored D. restore_at full_place (\<lambda>_. Written) names (files_after acts (at_files full_place)) = (Some restored, D) \<and>
        D ''/h/.claude.json'' = Some (take 1 ''old''))"
  proof (rule restore_takes_a_broken_backup [OF run refl])
    show "q \<in> set (planned a_parse a_pretty full_place [])" "''/h/.claude.json'' = pl_path q" by (simp_all add: a)
    show "\<not> trims_to_nothing ''old''" by code_simp
    show "at_files full_place ''/h/.claude.json'' = Some ''old''" by (simp add: full_parts a_place_def)
  qed (use names a_new put in \<open>auto simp: a_dirs full_parts a_backups\<close>)
  then show ?thesis using run by auto
qed

lemma init_wrote:
  assumes "init parse pretty E True extra = Some (acts, ok)" and "write_plans E (planned parse pretty E extra) = (a, ok')"
    and "changes (planned parse pretty E extra) \<noteq> 0" and "puts a \<noteq> {}" and "g \<noteq> routes_path (home_dir (at_home E))"
  shows "files_after acts D g = files_after a D g"
proof -
  note some = init_writes [OF assms(1-3)]
  show ?thesis
    using assms(1)
  proof (cases rule: init_parts)
    case stopped
    then show ?thesis using some assms(4) by simp
  next
    case (ran t first rest)
    show ?thesis
    proof (rule carry_out_parts [OF ran(4)])
      fix shown wrote
      assume parts: "rest = shown @ wrote" "puts shown = {}"
        "wrote = [] \<or> True \<and> (\<exists>a b ok'. write_plans E (planned parse pretty E extra) = (a, ok') \<and> wrote = a @ b \<and>
          puts b \<subseteq> {routes_path (home_dir (at_home E))} \<and> (\<not> ok' \<longrightarrow> b = [] \<and> \<not> ok))"
      have "wrote \<noteq> []" using some assms(4) ran(2,3) parts(1,2) by auto
      then obtain b where b: "wrote = a @ b" "puts b \<subseteq> {routes_path (home_dir (at_home E))}" using parts(3) assms(2) by auto
      have "files_after (first @ shown) D = D" using ran(2) parts(2) by (intro ext files_after_other) simp
      moreover have "g \<notin> puts b" using b(2) assms(5) by blast
      ultimately show ?thesis using ran(3) parts(1) b(1) by (simp add: files_after_other)
    qed
  qed
qed

text \<open>The same place with settings that cannot be written, neither by \<open>init\<close> nor by \<open>restore\<close>.\<close>

definition stuck_writes :: "bytes \<Rightarrow> write_result" where
  "stuck_writes p = (if p = ''/h/.claude/settings.json'' then Refused else Written)"

definition stuck_place :: place where
  "stuck_place = a_place\<lparr>at_writes := stuck_writes\<rparr>"

lemma stuck_fields [simp]:
  "at_files stuck_place = at_files a_place" "at_home stuck_place = at_home a_place" "at_cwd stuck_place = at_cwd a_place"
  "at_dirs stuck_place = at_dirs a_place" "at_clock stuck_place = at_clock a_place" "at_writes stuck_place = stuck_writes"
  by (simp_all add: stuck_place_def)

theorem restore_stops_half_way_witness:
  "\<exists>acts ok names D. init a_parse a_pretty stuck_place True [] = Some (acts, ok) \<and>
     restore_at stuck_place stuck_writes names (files_after acts (at_files stuck_place)) = (None, D) \<and>
     at_files stuck_place ''/h/.claude.json'' = Some ''old'' \<and> D ''/h/.claude.json'' = Some (''new'' @ [NL])"
proof -
  let ?g = "''/h/.claude.json''" and ?f = "''/h/.claude/settings.json''"
  obtain acts ok where run: "init a_parse a_pretty stuck_place True [] = Some (acts, ok)" using init_ends by blast
  obtain q p where a: "planned a_parse a_pretty stuck_place [] = [q, p]" "pl_path q = ?g" "pl_after q = ''new'' @ [NL]"
    "\<not> is_noop q" "\<not> is_noop p" "pl_path p = ?f"
    using a_plans full_parts(1) by (auto simp: stuck_place_def planned_writes)
  obtain w ok' where w: "write_plans stuck_place [q, p] = (w, ok')" by fastforce
  have w': "puts w = {''/h/.claude.json.bak.7'', ?g, ''/h/.claude/settings.json.bak.7''}"
    "files_after w (at_files a_place) ?g = Some (''new'' @ [NL])"
    using w by (auto simp: a(2-6) apply_acts_def attempt_def full_parts a_backups stuck_writes_def Let_def)
  have ch: "changes [q, p] \<noteq> 0" using a(4) by (simp add: changes_def is_noop_def)
  have home: "?g \<noteq> routes_path (home_dir (at_home stuck_place))"
    by (simp add: a_place_def home_dir_def routes_path_def path_join_def)
  have D': "files_after acts (at_files stuck_place) ?g = Some (''new'' @ [NL])"
    using init_wrote [OF run w [folded a(1)] _ _ home] ch w' by (simp add: a(1))
  have put: "''/h/.claude/settings.json.bak.7'' \<in> puts acts"
    using init_writes [OF run w [folded a(1)]] ch w'(1) by (auto simp: a(1))
  have "finite (dom (at_files stuck_place))" by (simp add: a_place_def)
  then obtain names where names: "\<forall>d. lists names (files_after acts (at_files stuck_place)) d" using finite_after listable by metis
  have "\<exists>D. restore_at stuck_place stuck_writes names (files_after acts (at_files stuck_place)) = (None, D) \<and>
      D ?g = files_after acts (at_files stuck_place) ?g"
  proof (rule restore_stops_half_way [OF run refl])
    show "p \<in> set (planned a_parse a_pretty stuck_place [])" "?f = pl_path p" by (simp_all add: a)
    show "path_parts ?f < path_parts ?g" by code_simp
  qed (use names a_new put in \<open>auto simp: a_dirs full_parts a_backups stuck_writes_def\<close>)
  then show ?thesis using run D' by (auto simp: a_place_def)
qed

end
