(* ===== verification/Spec2Isabelle.thy ===== *)
theory Spec2Isabelle
  imports Scan_Correct Http_Stream Wire_Types Commands Link Rug_Pull Leak Prompts Broken_Pipe Restoration
begin

text \<open>
  mcpwall stands between coding agents and the servers and tools they call (src/core/mcpwall/src).  One
  binary has three ways of seeing the traffic: \<open>wrap\<close> relays the stdio of a server it starts,
  \<open>proxy\<close> is the URL of an HTTP server, \<open>hook\<close> is run by Claude Code before and after each built-in
  tool.  All three are clients of one daemon per machine, which holds the policy, the memory of what was
  recently read and of tools whose description changed, and asks the user through an interface where the
  policy says so.  \<open>init\<close> and \<open>restore\<close> write themselves into the clients' configurations and out again.
  This development models the Rust code of the program, and proves what makes each part and their
  composition correct.

  Where to find what.  Paths are below src/core/mcpwall/src.

  \<^item> Prelude: bytes, UTF-8 and the part of the Rust standard library on them.  A \<open>str\<close>, \<open>Vec\<close> of bytes, path
    or file name is a list of bytes (HOL's \<open>char\<close> is exactly a byte).  Json: the values of \<open>serde_json\<close>; an
    object is the sorted sequence of its \<open>BTreeMap\<close>.  Net: socket addresses of \<open>std::net\<close>.
  \<^item> Frame (protocol/frame.rs): the splitter with its buffer, scan index, discard flag and counters.
    The lemmas relate it to a reference that cuts the whole stream at newlines, whatever the chunks.
  \<^item> Mcp (protocol/mcp.rs) and Scan_Correct: the byte machine that finds the method of a frame without parsing
    it, the sets of methods, the refusal; the window of 200 bytes never changes the answer, and on
    well-formed beginnings the answer is the first root key.
  \<^item> Scope (protocol/scope.rs), Taint (protocol/taint.rs), Drift (protocol/drift.rs): which project a call
    belongs to and how far that is trusted; fingerprints and their memory, with a locale for a memory that
    keeps what it is told for a time, interpreted for tokens and for shingles; digests of tools.
  \<^item> Policy_Model, Policy_Request, Policy (daemon/policy): the file as the \<open>Deserialize\<close> derives read it, what is
    extracted from a frame, evaluation, reloading, appending.  \<open>holds\<close> is the reading of a rule that
    \<open>try_rule\<close> is proved to implement.
  \<^item> Journal (journal/): two channels, the writer task as steps, the tables as lists of rows, readers.
  \<^item> Ipc (ipc/mod.rs) and Client (ipc/client.rs): messages with their codecs; the client of the daemon
    with the reads in flight and the degraded state.  Link: the client's thread over one socket with a daemon that is the
    whole system of Daemon_System, other connections included; histories of what was written and taken number the
    questions, and the invariant ties the verdict on the k-th to the judgement made of the k-th in the same run.
  \<^item> Daemon (daemon/mod.rs, daemon/decide.rs): the state and every piece of code between two awaits.
    Daemon_System: the calls of all connections as a step relation \<open>sys_step\<close> over these pieces, reachable
    states, the invariant \<open>sound\<close> of every reachable state.  Gate: the contract of the daemon as an abstract
    machine, the simulation, and the progress of a call.  Connection: one connection from handshake to
    end, with a call decided in one go, which is proved to be a run of the step relation; what its socket carries is
    that of the loop and, once it has subscribed, of the task that forwards prompts; the answers to the questions of a
    shim, by position.  Wire_Types: the machine integers in what the daemon sends keep their types, which the codecs of
    Ipc need.
    Prompts: the broadcast channel on which the questions of \<open>ask\<close> reach the interfaces, a step relation that is
    \<open>sys_step\<close> when the channel is left out.
    Lifecycle (daemon/mod.rs \<open>run\<close> and \<open>serve\<close>, cli/daemon.rs): the daemons of one machine from start to end, and
    what a path holds for those who dial it.
  \<^item> Relay (transport/stdio.rs): the pump over any decision point, a record of two operations on a state of its own;
    the locale \<open>lenient_point\<close> says what a decision point that never refuses gives, and is interpreted for no
    policy, for a lost daemon and (in Cli) for a session that found no daemon.  Broken_Pipe: the same pump over
    a peer that takes so many bytes and then fails, and the relation to the pump whose writes succeed.  Observer
    (transport/observer.rs): what of it is journalled.  Session (transport/session.rs): the
    configuration, \<open>run\<close> with its early errors, the end of the upstream process, the exit code.  Session_System: the two pumps and the channel
    of refusals between them as a labelled step relation, and what every run of it preserves.
  \<^item> Http (transport/http.rs) and Http_Stream: routes, the handler of a request, what is observed of a
    streamed answer.  Hook (hook.rs, cli/hook.rs): one invocation of the hook.
  \<^item> Setup (setup/mod.rs) and Setup_Correct: rewriting of configurations, the hook's settings, backups,
    the diff.  Onboarding (cli/init.rs) and Onboarding_Correct: a run of \<open>init\<close> as the list of what it prints and
    writes, with writes that fail; \<open>undisturbed_init_is_init_run\<close> relates it to the function of Cli.
    Restoration: \<open>restore\<close> after such a run, its copies failing as well: when it undoes the run, and how it stops at the
    first file it cannot write.
  \<^item> Cli, Log, Wrap, Commands (cli/): what the subcommands compute; \<open>log\<close> with its tables and its following; \<open>wrap\<close>, where
    a whole session (both pumps and their ends), the observer and the writer task of the journal are interleaved; the dispatch, \<open>policy\<close> and \<open>proxy\<close>.
  \<^item> Servers (testservers/, beside src): the servers the tests start as upstreams.  Exfiltration: the lemmas
    from a report to the daemon's refusal.  Leak and Rug_Pull: the two attacks of the specification played by
    those servers, from the bytes they send to the decision on the call, and where they still get through: with a
    credential in the path of a URL, and with a changed tool for which a permission is on record.
  \<^item> This theory: properties of the composition, from a read to the refusal of the leak, and from
    a rewritten configuration to the upstream it leads to.

  State is a record that the operations return updated; a \<open>Mutex\<close> shows only in where the atomic steps are
  cut.  Errors are options, sums or an \<open>outcome\<close> that tells a panic from a value.  Hashes are 64 bit words
  that wrap; other machine integers are naturals or integers with their bound written where the code relies on it.
  Clocks, what arrives, what the disk holds and what the user answers are arguments, so a theorem holds
  for all of them.  Third-party code is a parameter: \<open>memchr\<close> (with its contract), the JSON parser and printer,
  the YAML reader, SHA-256, \<open>globset\<close>, \<open>http::Uri\<close>, the HTTP client, canonicalisation of paths.

  Loops are structural or have a measure; \<open>next_frame\<close>, \<open>drain\<close> and \<open>diff_loop\<close> are written as the loops they
  are, with not returning as a possible value, and are proved to return.  The only bounds are those of \<open>opened\<close>, the number of
  links a system follows, and of the writer of Broken_Pipe, the bytes it takes; what is proved holds for every bound.
  The channel of Prompts holds \<open>PROMPT_CHANNEL\<close> messages, as in the code; what a receiver gets from it is a parameter.

  Not modelled, and why:
  \<^item> asynchronous I/O, sockets, spawning, signal streams, permissions, the accept loop: no logic of their own
    beyond \<open>prepare_socket\<close>, \<open>session_end\<close> and the steps above.  A write in the relay succeeds except in Broken_Pipe; in
    Connection and Prompts it may fail.
  \<^item> opening the database and its pragmas (journal/schema.rs): statements for SQLite, of whose
    tables and constraints Journal models what the program relies on.  The order of equal counts in the tables of
    \<open>log --stats\<close> is SQLite's, and an argument.
  \<^item> of \<open>serde\<close>: structs written as sequences, and repeated keys, which are errors there.
  \<^item> the parsing of arguments (clap), the building of runtimes and of the subscriber for diagnostics: calls of
    libraries.  Paths are names: that two of them lead to one file is not seen, the link to the binary apart.
  \<^item> the locks of one decision: \<open>judge\<close> reads the memory of reads and that of changed tools in one step, while the code takes their
    locks one after the other; a report of another connection that falls between the two is before or after both.
  \<^item> time inside a session: that \<open>wrap\<close> has one thread, which a pending question blocks, is seen only in that the
    steps of Wrap and Session_System take a frame from its reading to its verdict at once.
  \<^item> of the test servers, ignores_sigterm, which sets two signals aside and sleeps; the macOS application, which is
    in Swift.
\<close>

section \<open>From a read to the refusal of a leak\<close>

text \<open>
  C6: what was read does not leave: a client reports the text of a local read, and the daemon, whatever
  other reports it takes before and after, gets within ten minutes a call of an outbound tool whose
  arguments share one token of at least 24 bytes with that text.  Under the shipped policy, where no
  earlier rule speaks and no permission is on record, the call is settled without a question and the
  client's verdict is the refusal by \<open>taint_exfil\<close>.
\<close>

theorem read_then_leak_is_denied:
  assumes "cl_sent (report_taint origin text c) = cl_sent c @ [CTaint rep]"
    and "dm_taint d0 = taint_new" and "d = fold (\<lambda>(t, r). take_taint t r) (bef @ (t0, rep) # later) d0"
    and "\<forall>(t, r) \<in> set later. t0 \<le> t \<and> t \<le> now" and "now - t0 < TTL"
    and "MIN_TOKEN_LEN \<le> length tok" and "tok \<in> set (candidate_tokens text)"
    and "tok \<in> set (candidate_tokens (join_with '' '' (rq_values (bare_request L q))))"
    and "snd (reload_if_changed (lib_globs L) (lib_home L) (lib_yaml L) (dm_disk d0) (dm_policy d0)) =
      compile_policy (lib_globs L) (lib_home L) default_policy path mtime"
    and "collect_secrets (rq_values (bare_request L q)) [] = Returned ss" and "\<forall>k x. Secret k x \<notin> set ss"
    and "build_globs (lib_globs L) (lib_home L) SECRET_PATHS = Some sp"
    and "build_globs (lib_globs L) (lib_home L) (pf_outbound default_policy) = Some ob"
    and "rq_tool (bare_request L q) = Some t" and "set_match (lib_globs L) ob (to_ascii_lowercase t)"
    and "\<forall>x \<in> set (rq_paths (bare_request L q)). \<not> set_match (lib_globs L) sp x"
    and "\<not> has_path_outside_scope (bare_request L q)" and "matching_override (dq_scope_key q) (Some t) d0 = None"
  shows "\<exists>dec tmo d' r. judge L now q d = (Returned (dec, Some t, tmo), d') \<and> settle q dec (Some t) d' = Some r \<and>
    verdict_of r = Deny ''taint_exfil'' (agent_message dec)"
  by (rule leak_denied [OF reported_fingerprint(1) [OF assms(1)] assms(2,4-18,3)])

definition a_secret :: bytes where "a_secret = ''abcdefghijklmnopqrstuvwxyz''"

lemma a_secret_token: "a_secret \<in> set (candidate_tokens (''key '' @ a_secret))" "a_secret \<in> set (candidate_tokens (join_with '' '' [a_secret, ''webfetch'']))"
  "MIN_TOKEN_LEN \<le> length a_secret" "\<not> looks_like_path a_secret"
  by code_simp+

theorem read_then_leak_is_denied_witness:
  "\<exists>rep dec tmo d' r. cl_sent (report_taint ''notes'' (''key '' @ a_secret) an_agent) = [CTaint rep] \<and>
     judge (leak_libs a_secret) 9 plain_call (take_taint 5 rep (plain_daemon default_policy)) = (Returned (dec, Some ''webfetch'', tmo), d') \<and>
     settle plain_call dec (Some ''webfetch'') d' = Some r \<and> verdict_of r = Deny ''taint_exfil'' (agent_message dec)"
proof -
  let ?fp = "capped (fingerprint_of (''key '' @ a_secret))"
  define rep where "rep = \<lparr>tn_origin = ''notes'', tn_ngrams = map unat (ngrams ?fp), tn_tokens = map unat (tokens ?fp)\<rparr>"
  define d where "d = fold (\<lambda>(t, r). take_taint t r) ([] @ (5, rep) # []) (plain_daemon default_policy)"
  note req = leak_request [OF a_secret_token(4), of plain_call]
  have "fnv1a a_secret \<in> set (tokens ?fp)" using a_secret_token by (simp add: capped_def tokens_fingerprint)
  then have "tokens ?fp \<noteq> []" by auto
  then have sent: "cl_sent (report_taint ''notes'' (''key '' @ a_secret) an_agent) = cl_sent an_agent @ [CTaint rep]"
    by (auto simp: report_taint_def send_only_def taint_message_def fp_is_empty_def an_agent_def rep_def Let_def)
  have secrets: "collect_secrets (rq_values (bare_request (leak_libs a_secret) plain_call)) [] = Returned []"
    unfolding req by code_simp
  have "\<exists>dec tmo d' r. judge (leak_libs a_secret) 9 plain_call d = (Returned (dec, Some ''webfetch'', tmo), d') \<and>
      settle plain_call dec (Some ''webfetch'') d' = Some r \<and> verdict_of r = Deny ''taint_exfil'' (agent_message dec)"
    by (rule read_then_leak_is_denied [OF sent plain_daemon_fresh(1) d_def _ _ a_secret_token(3,1) _ leak_policy(1) secrets _
          leak_policy(2,3) req(2) leak_outbound _ req(4)])
      (simp_all add: req a_secret_token(2) [simplified] TTL_def matching_override_def)
  then show ?thesis using sent by (force simp: d_def an_agent_def)
qed

section \<open>From a configuration to the upstream\<close>

lemma find_route:
  "resolve_routes U rs = Inr routes \<Longrightarrow> map_of rs n = Some url \<Longrightarrow>
   \<exists>u. uri_parse U url = Some u \<and> find (\<lambda>r. rt_name r = n) routes = Some \<lparr>rt_name = n, rt_upstream = u\<rparr>"
  by (induction rs arbitrary: routes) (auto split: option.splits if_splits sum.splits)

lemma find_slash: "CHR ''/'' \<notin> set n \<Longrightarrow> find_sub ''/'' (n @ CHR ''/'' # x) = Some (length n)"
  by (induction n) (auto simp: starts_with_def)

lemma no_slash: "CHR ''/'' \<notin> set n \<Longrightarrow> find_sub ''/'' n = None"
  by (induction n) (auto simp: starts_with_def)

lemma route_for_path:
  assumes "n \<noteq> []" and "CHR ''/'' \<notin> set n" and "rest = [] \<or> (\<exists>x. rest = CHR ''/'' # x)"
  shows "route_for routes (CHR ''/'' # n @ rest) = map_option (\<lambda>r. (r, rest)) (find (\<lambda>r. rt_name r = n) routes)"
proof -
  have "trim_start_matches (CHR ''/'') (CHR ''/'' # n @ rest) = n @ rest"
    using assms(1,2) by (cases n) (auto simp: trim_start_matches_def)
  then show ?thesis
    using assms find_slash no_slash by (auto simp: route_for_def split_once_def)
qed

lemma map_of_inserted:
  "map_of (fold (\<lambda>(n, u). map_insert n u) rs m) = map_of m ++ map_of (rev rs)"
  by (induction rs arbitrary: m) (auto simp: map_add_def fun_eq_iff split: option.splits)

lemma route_added:
  assumes "concat (map pl_routes plans) = rs @ (n, url) # rs'" and "n \<notin> fst ` set rs'"
  shows "map_of (tb_routes (add_routes plans t)) n = Some url"
  using assms by (simp add: add_routes_def map_of_inserted map_add_def map_of_eq_None_iff [THEN iffD2])

text \<open>
  C35: a server that \<open>init\<close> routes stays reachable: once the route table is written and the proxy has read
  it, the address the client now has for the server leads the proxy to the very URL that stood in the
  configuration before, with what follows the name as the rest of the path.  The name must be a single
  path segment, and no later server of the same run may have it too.
\<close>

theorem routed_servers_are_reached:
  assumes "route_entry (tb_listen t) name cfg = (Routed n url, cfg')"
    and "init_run stamp True plans t disk = (disk', Some t')"
    and "concat (map pl_routes plans) = rs @ (n, url) # rs'" and "n \<notin> fst ` set rs'"
    and "resolve_table U t' = Inr (addr, routes)"
    and "name \<noteq> []" and "CHR ''/'' \<notin> set name" and "rest = [] \<or> (\<exists>x. rest = CHR ''/'' # x)"
  shows "jget ''url'' cfg = Some (JString url) \<and>
    jget ''url'' cfg' = Some (JString (''http://'' @ tb_listen t' @ ''/'' @ name)) \<and>
    (\<exists>u. uri_parse U url = Some u \<and>
       route_for routes (CHR ''/'' # name @ rest) = Some (\<lparr>rt_name = name, rt_upstream = u\<rparr>, rest))"
proof -
  have n: "n = name" and u: "jget ''url'' cfg = Some (JString url)"
    and u': "jget ''url'' cfg' = Some (JString (''http://'' @ tb_listen t @ ''/'' @ name))"
    using assms(1) by (auto simp: route_entry_def Let_def bind_eq_Some_conv split: option.splits if_splits json.splits
        elim!: as_str.elims as_object.elims)
  have t': "t' = add_routes plans t" using assms(2) by (auto simp: init_run_def split: if_splits)
  have "resolve_routes U (tb_routes t') = Inr routes"
    using assms(5) by (auto simp: resolve_table_def split: option.splits if_splits sum.splits)
  moreover have "map_of (tb_routes t') name = Some url" using route_added [OF assms(3,4)] by (simp add: t' n)
  ultimately show ?thesis
    using find_route [of U "tb_routes t'" routes name url] route_for_path [OF assms(6,7,8), of routes] u u'
    by (auto simp: t' add_routes_def)
qed

theorem routed_servers_are_reached_witness:
  "\<exists>cfg' t' routes. route_entry default_listen ''git'' (JObject [(''url'', JString ''https://h'')]) = (Routed ''git'' ''https://h'', cfg') \<and>
     resolve_table plain_uris t' = Inr ((V4 [127, 0, 0, 1], 8787), routes) \<and>
     jget ''url'' cfg' = Some (JString ''http://127.0.0.1:8787/git'') \<and>
     route_for routes ''/git/mcp'' = Some (\<lparr>rt_name = ''git'', rt_upstream = ''https://h''\<rparr>, ''/mcp'')"
proof -
  let ?cfg = "JObject [(''url'', JString ''https://h'')]"
  let ?p = "\<lparr>pl_path = ''c'', pl_kind = ProjectMcp, pl_before = [], pl_after = [], pl_wrapped = [''git''], pl_already = [],
      pl_routes = [(''git'', ''https://h'')], pl_uncovered = []\<rparr>"
  obtain cfg' where r: "route_entry (tb_listen route_table_default) ''git'' ?cfg = (Routed ''git'' ''https://h'', cfg')"
    by (simp add: route_entry_def route_table_default_def default_listen_def starts_with_def Let_def)
  have i: "init_run 1 True [?p] route_table_default Map.empty =
      (apply_plans 1 [?p] Map.empty, Some (add_routes [?p] route_table_default))"
    by (simp add: init_run_def changes_def)
  have tb: "tb_listen (add_routes [?p] route_table_default) = ''127.0.0.1:8787''"
    "tb_routes (add_routes [?p] route_table_default) = [(''git'', ''https://h'')]"
    by (simp_all add: add_routes_def route_table_default_def default_listen_def)
  obtain routes where s: "resolve_table plain_uris (add_routes [?p] route_table_default) = Inr ((V4 [127, 0, 0, 1], 8787), routes)"
    using socket_v4_example by (simp add: resolve_table_def tb plain_uris_def)
  have "jget ''url'' cfg' = Some (JString ''http://127.0.0.1:8787/git'') \<and>
     route_for routes ''/git/mcp'' = Some (\<lparr>rt_name = ''git'', rt_upstream = ''https://h''\<rparr>, ''/mcp'')"
    using routed_servers_are_reached [OF r i, where rs = "[]" and rs' = "[]" and U = plain_uris and routes = routes and rest = "''/mcp''"] s
    by (simp add: tb plain_uris_def)
  then show ?thesis using r s by (auto simp: route_table_default_def)
qed

text \<open>
  A proxy that is running when \<open>init\<close> adds a server does not serve it: the proxy reads the route table once,
  at its start, so that the address the client now has for the server is answered with 404, whatever the
  request, although the table on disk has the route; and it stays so until the proxy is started again.
\<close>

theorem running_proxy_misses_new_servers:
  assumes "proxy_start U parse home a present files connected hello = Returned (Some (addr, routes, c))"
    and "path = (case pa_routes a of Some p \<Rightarrow> p | None \<Rightarrow> routes_path (home_dir home))"
    and "proxy_table parse (present path) (files path) (pa_listen a) = Some t"
    and "route_entry (tb_listen t) name cfg = (Routed n url, cfg')"
    and "init_run stamp True plans t disk = (disk', Some t')"
    and "concat (map pl_routes plans) = rs @ (n, url) # rs'" and "n \<notin> fst ` set rs'"
    and "name \<notin> fst ` set (tb_routes t)" and "name \<noteq> []" and "CHR ''/'' \<notin> set name"
    and "hq_path q = CHR ''/'' # name @ rest" and "rest = [] \<or> (\<exists>x. rest = CHR ''/'' # x)"
  shows "map_of (tb_routes t') name = Some url \<and>
    jget ''url'' cfg' = Some (JString (''http://'' @ tb_listen t' @ ''/'' @ name)) \<and>
    handle_request parse render U routes pt q d = (text_response 404 ''mcpwall: no server is routed here'', d)"
proof -
  have n: "n = name" and u': "jget ''url'' cfg' = Some (JString (''http://'' @ tb_listen t @ ''/'' @ name))"
    using assms(4) by (auto simp: route_entry_def Let_def bind_eq_Some_conv split: option.splits if_splits json.splits
        elim!: as_str.elims as_object.elims)
  have t': "t' = add_routes plans t" using assms(5) by (auto simp: init_run_def split: if_splits)
  have "resolve_table U t = Inr (addr, routes)"
    using assms(1,3) unfolding assms(2) by (auto simp: proxy_start_def obind_Returned_iff split: sum.splits prod.splits)
  then have "name \<notin> rt_name ` set routes"
    using listener_is_loopback [of U t addr routes] assms(8) by (metis image_set)
  then have "route_for routes (hq_path q) = None"
    using route_for_path [OF assms(9,10,12), of routes] by (auto simp: assms(11) find_None_iff)
  then show ?thesis
    using route_added [OF assms(6,7), of t] u' by (simp add: t' n handle_request_def add_routes_def)
qed

theorem running_proxy_misses_new_servers_witness:
  "\<exists>addr routes c (t' :: route_table). proxy_start plain_uris (\<lambda>_. None) None \<lparr>pa_routes = None, pa_listen = None, pa_socket = None\<rparr> (\<lambda>_. False) Map.empty False None =
      Returned (Some (addr, routes, c)) \<and> map_of (tb_routes t') ''git'' = Some ''https://h'' \<and>
      handle_request (\<lambda>_. None) (\<lambda>_. []) plain_uris routes allow_all (a_post\<lparr>hq_path := ''/git/mcp''\<rparr>) () =
        (text_response 404 ''mcpwall: no server is routed here'', ())"
proof -
  let ?a = "\<lparr>pa_routes = None, pa_listen = None, pa_socket = None\<rparr>" and ?cfg = "JObject [(''url'', JString ''https://h'')]"
  let ?p = "\<lparr>pl_path = ''c'', pl_kind = ProjectMcp, pl_before = [], pl_after = [], pl_wrapped = [''git''], pl_already = [],
      pl_routes = [(''git'', ''https://h'')], pl_uncovered = []\<rparr>"
  have start: "proxy_start plain_uris (\<lambda>_. None) None ?a (\<lambda>_. False) Map.empty False None =
      Returned (Some ((V4 [127, 0, 0, 1], 8787), [], None))"
    by (simp add: proxy_start_def proxy_table_def default_table_resolves connect_def)
  have table: "proxy_table (\<lambda>_. None) False None (pa_listen ?a) = Some route_table_default" by (simp add: proxy_table_def)
  obtain cfg' where r: "route_entry (tb_listen route_table_default) ''git'' ?cfg = (Routed ''git'' ''https://h'', cfg')"
    by (simp add: route_entry_def route_table_default_def default_listen_def starts_with_def Let_def)
  have i: "init_run 1 True [?p] route_table_default Map.empty =
      (apply_plans 1 [?p] Map.empty, Some (add_routes [?p] route_table_default))"
    by (simp add: init_run_def changes_def)
  have "map_of (tb_routes (add_routes [?p] route_table_default)) ''git'' = Some ''https://h'' \<and>
    handle_request (\<lambda>_. None) (\<lambda>_. []) plain_uris [] allow_all (a_post\<lparr>hq_path := ''/git/mcp''\<rparr>) () =
        (text_response 404 ''mcpwall: no server is routed here'', ())"
    using running_proxy_misses_new_servers [OF start refl _ r i, where rs = "[]" and rs' = "[]" and rest = "''/mcp''" and
        q = "a_post\<lparr>hq_path := ''/git/mcp''\<rparr>" and pt = allow_all and d = "()" and render = "\<lambda>_. []"] table
    by (simp add: route_table_default_def)
  then show ?thesis using start by blast
qed

end
